(* ===== verification/Prelude.thy ===== *)
theory Prelude
  imports Main "HOL-Library.Word" "HOL-Library.Multiset"
begin

text \<open>
  Shared vocabulary of the development: the machine types the C++ code uses, the
  ways a C++ operation can fail as values of one error type, sequencing of fallible
  steps, the counting loops of the benchmarks with the index type each of them
  really has, and the byte order of the structures that go over a socket.
\<close>

unbundle bit_operations_syntax

type_synonym u8 = "8 word"
type_synonym u16 = "16 word"
type_synonym u32 = "32 word"
type_synonym u64 = "64 word"
type_synonym bytes = "u8 list"

text \<open>Rules that unfold the plumbing of fallible steps, and rules of the request windows.\<close>

named_theorems result_simps
named_theorems window_simps

section \<open>Fallible steps\<close>

text \<open>
  What ends an operation early. \<open>Assert_Failed\<close> is \<open>assert\<close> (the Makefiles
  never define NDEBUG) or glog's CHECK; \<open>Std_Terminate\<close> an escaping exception or the destructor
  of a joinable thread; \<open>Invalid_Argument\<close>, \<open>Out_Of_Range\<close> and \<open>Length_Error\<close> the standard
  exceptions; the others are undefined behaviour that the code can run into.
\<close>

datatype cpp_error =
    Assert_Failed
  | Std_Terminate
  | Invalid_Argument string
  | Out_Of_Range
  | Length_Error
  | Out_Of_Bounds
  | Null_Deref
  | Use_After_Scope
  | Signed_Overflow
  | Div_By_Zero

type_synonym 'a result = "cpp_error + 'a"

definition bindE :: "'a result \<Rightarrow> ('a \<Rightarrow> 'b result) \<Rightarrow> 'b result" where
  "bindE r f = (case r of Inl e \<Rightarrow> Inl e | Inr a \<Rightarrow> f a)"

lemma bindE_simps [simp]:
  "bindE (Inl e) f = Inl e"
  "bindE (Inr a) f = f a"
  by (simp_all add: bindE_def)

lemma bindE_eq_Inr [result_simps]: "bindE r f = Inr b \<longleftrightarrow> (\<exists>a. r = Inr a \<and> f a = Inr b)"
  by (cases r) simp_all

definition assertE :: "bool \<Rightarrow> 'a result \<Rightarrow> 'a result" where
  "assertE b r = (if b then r else Inl Assert_Failed)"

lemma assertE_simps [simp]:
  "assertE True r = r"
  "assertE False r = Inl Assert_Failed"
  by (simp_all add: assertE_def)

lemma assertE_eq_Inr [result_simps]: "assertE b r = Inr a \<longleftrightarrow> b \<and> r = Inr a"
  by (simp add: assertE_def)

text \<open>A fallible step for each element of a list, stopping at the first failure.\<close>

fun foldE :: "('x \<Rightarrow> 's \<Rightarrow> 's result) \<Rightarrow> 'x list \<Rightarrow> 's \<Rightarrow> 's result" where
  "foldE f [] s = Inr s"
| "foldE f (x # xs) s = bindE (f x s) (foldE f xs)"

lemma foldE_append: "foldE f (xs @ ys) s = bindE (foldE f xs s) (foldE f ys)"
proof (induction xs arbitrary: s)
  case (Cons x xs)
  then show ?case by (cases "f x s") simp_all
qed simp

lemma foldE_pure: "(\<And>x s. f x s = Inr (g x s)) \<Longrightarrow> foldE f xs s = Inr (fold g xs s)"
  by (induction xs arbitrary: s) simp_all

lemma foldE_invariant:
  assumes "foldE f xs s = Inr t" and "P s"
    and "\<And>x s s'. x \<in> set xs \<Longrightarrow> P s \<Longrightarrow> f x s = Inr s' \<Longrightarrow> P s'"
  shows "P t"
  using assms
proof (induction xs arbitrary: s)
  case (Cons x xs)
  from Cons.prems(1) obtain s' where s': "f x s = Inr s'" and rest: "foldE f xs s' = Inr t"
    by (auto simp: result_simps)
  have "P s'" by (rule Cons.prems(3) [OF _ Cons.prems(2) s']) simp
  then show ?case
    by (rule Cons.IH [OF rest]) (rule Cons.prems(3), auto)
qed simp

text \<open>If every step succeeds under an invariant that it keeps, the whole list succeeds.\<close>

lemma foldE_total:
  assumes "P s" and "\<And>x s. x \<in> set xs \<Longrightarrow> P s \<Longrightarrow> \<exists>s'. f x s = Inr s' \<and> P s'"
  shows "\<exists>t. foldE f xs s = Inr t \<and> P t"
  using assms
proof (induction xs arbitrary: s)
  case (Cons x xs)
  from Cons.prems obtain s' where s': "f x s = Inr s'" "P s'" by auto
  have "\<exists>t. foldE f xs s' = Inr t \<and> P t"
    by (rule Cons.IH) (use s' Cons.prems(2) in simp_all)
  with s' show ?case by simp
qed simp


section \<open>Counting loops\<close>

text \<open>
  \<open>for (auto i = 0; i < n; i++)\<close> with an unsigned bound \<open>n\<close>: the index is an \<open>int\<close>, so it
  overflows (undefined behaviour) when it has reached 2147483647 and is incremented once more.
  The bound is read once: no loop body of the sources changes it.
\<close>

function for_int :: "nat \<Rightarrow> nat \<Rightarrow> (nat \<Rightarrow> 's \<Rightarrow> 's result) \<Rightarrow> 's \<Rightarrow> 's result" where
  "for_int n i body s =
     (if i < n
      then bindE (body i s)
             (\<lambda>s'. if i = 2147483647 then Inl Signed_Overflow else for_int n (Suc i) body s')
      else Inr s)"
  by pat_completeness auto
termination
  by (relation "measure (\<lambda>(n, i, _). n - i)") auto

declare for_int.simps [simp del]

lemma for_int_foldE:
  assumes "n \<le> 2147483647" and "i \<le> n"
  shows "for_int n i body s = foldE body [i..<n] s"
  using assms
proof (induction n i body s rule: for_int.induct)
  case (1 n i body s)
  show ?case
  proof (cases "i < n")
    case True
    then have "[i..<n] = i # [Suc i..<n]" by (simp add: upt_conv_Cons)
    with True 1 show ?thesis
      by (cases "body i s") (auto simp: for_int.simps [of n i body s])
  next
    case False
    with 1(3) have "i = n" by simp
    then show ?thesis by (simp add: for_int.simps [of n n body s])
  qed
qed

text \<open>
  \<open>for (auto i = 0u; i < n; ++i)\<close> with a 64-bit bound: the 32-bit index wraps around, so a
  bound of 2 to the 32 or more is never reached. \<open>None\<close> is a loop that does not return.
\<close>

partial_function (option) for_u32 :: "u64 \<Rightarrow> u32 \<Rightarrow> ('s \<Rightarrow> 's) \<Rightarrow> 's \<Rightarrow> 's option" where
  "for_u32 n i body s =
     (if ucast i < n then for_u32 n (i + 1) body (body s) else Some s)"

lemma unat_u32_bound: "unat (i :: u32) < 4294967296"
proof -
  have "unat i < 2 ^ LENGTH(32)" by (rule unsigned_less)
  then show ?thesis by simp
qed

lemma unat_u64_bound: "unat (i :: u64) < 18446744073709551616"
proof -
  have "unat i < 2 ^ LENGTH(64)" by (rule unsigned_less)
  then show ?thesis by simp
qed

lemma unat_of_nat_u64: "n < 2 ^ 64 \<Longrightarrow> unat (of_nat n :: u64) = n"
  by (simp add: unat_of_nat)

lemma unat_of_nat_u32: "n < 2 ^ 32 \<Longrightarrow> unat (of_nat n :: u32) = n"
  by (simp add: unat_of_nat)

lemma unat_add_u64: "unat x + unat y < 18446744073709551616 \<Longrightarrow> unat (x + y :: u64) = unat x + unat y"
  by (simp add: unat_word_ariths)

lemma unat_sub_of_nat: "n \<le> unat x \<Longrightarrow> unat (x - of_nat n :: u64) = unat x - n"
proof -
  assume n: "n \<le> unat x"
  then have u: "unat (of_nat n :: u64) = n"
    using unat_u64_bound [of x] by (simp add: unat_of_nat_u64)
  with n have "of_nat n \<le> x" by (simp add: word_le_nat_alt)
  then show ?thesis by (simp add: unat_sub u)
qed

lemma unat_add_of_nat:
  "unat x + n < 18446744073709551616 \<Longrightarrow> unat (x + of_nat n :: u64) = unat x + n"
  by (simp add: unat_word_ariths unat_of_nat_u64)

lemma sint_of_nat_lt31: "n < 2147483648 \<Longrightarrow> sint (of_nat n :: u32) = int n"
  by (simp add: signed_of_nat signed_take_bit_int_eq_self)

lemma unat_ucast_u32 [simp]: "unat (ucast (i :: u32) :: u64) = unat i"
proof -
  have "unat i < 2 ^ 64" using unat_u32_bound [of i] by simp
  then show ?thesis by (simp add: unsigned_ucast_eq take_bit_nat_eq_self)
qed

lemma unat_Suc_u32: "unat i < 4294967295 \<Longrightarrow> unat (i + 1 :: u32) = Suc (unat i)"
  by (simp add: unat_word_ariths)

lemma for_u32_upto:
  assumes "unat n < 4294967296" and "unat i \<le> unat n"
  shows "for_u32 n i body s = Some ((body ^^ (unat n - unat i)) s)"
  using assms(2)
proof (induction "unat n - unat i" arbitrary: i s)
  case 0
  then show ?case by (simp add: for_u32.simps [of n i] word_less_nat_alt unat_ucast_u32)
next
  case (Suc k)
  then have lt: "unat i < unat n" and i: "unat i < 4294967295" using assms(1) by simp_all
  have "ucast i < n" using lt by (simp add: word_less_nat_alt unat_ucast_u32)
  moreover have "for_u32 n (i + 1) body (body s) = Some ((body ^^ (unat n - unat (i + 1))) (body s))"
    by (rule Suc(1)) (use Suc(2) lt i in \<open>simp_all add: unat_Suc_u32\<close>)
  moreover have "Suc (unat n - Suc (unat i)) = unat n - unat i" using lt by simp
  ultimately show ?case
    using i by (simp add: for_u32.simps [of n i] unat_Suc_u32 flip: funpow_Suc_right funpow.simps(2))
      (metis comp_apply funpow_Suc_right)
qed

lemma for_u32_returns:
  "unat n < 4294967296 \<Longrightarrow> for_u32 n 0 body s = Some ((body ^^ unat n) s)"
  using for_u32_upto [of n 0 body s] by simp

lemma for_u32_diverges:
  assumes "4294967296 \<le> unat n"
  shows "for_u32 n i body s = None"
proof (rule ccontr)
  assume "for_u32 n i body s \<noteq> None"
  then obtain r where ret: "for_u32 n i body s = Some r" by blast
  have "unat n < 4294967296"
  proof (rule for_u32.raw_induct [where P = "\<lambda>n i body s r. unat n < 4294967296", OF _ ret])
    fix f :: "u64 \<Rightarrow> u32 \<Rightarrow> ('a \<Rightarrow> 'a) \<Rightarrow> 'a \<Rightarrow> 'a option" and n i body s r
    assume IH: "\<And>n i body s r. f n i body s = Some r \<Longrightarrow> unat n < 4294967296"
      and eq: "(if ucast i < n then f n (i + 1) body (body s) else Some s) = Some r"
    show "unat n < 4294967296"
    proof (cases "ucast i < n")
      case True
      with eq IH show ?thesis by simp
    next
      case False
      then have "unat n \<le> unat i" by (simp add: word_less_nat_alt unat_ucast_u32 not_less)
      then show ?thesis using unat_u32_bound [of i] by simp
    qed
  qed
  with assms show False by simp
qed

section \<open>Little-endian layout of integers in a struct\<close>

fun le_bytes :: "nat \<Rightarrow> u64 \<Rightarrow> bytes" where
  "le_bytes 0 x = []"
| "le_bytes (Suc n) x = ucast x # le_bytes n (drop_bit 8 x)"

fun le_word :: "bytes \<Rightarrow> u64" where
  "le_word [] = 0"
| "le_word (b # bs) = ucast b OR push_bit 8 (le_word bs)"

lemma length_le_bytes [simp]: "length (le_bytes n x) = n"
  by (induction n x rule: le_bytes.induct) simp_all

lemma le_word_le_bytes: "le_word (le_bytes n x) = take_bit (8 * n) x"
proof (induction n x rule: le_bytes.induct)
  case (2 n x)
  have "ucast (ucast x :: u8) OR push_bit 8 (take_bit (8 * n) (drop_bit 8 x)) =
      take_bit (8 * Suc n) x"
    by (rule bit_word_eqI) (auto simp: bit_simps)
  with 2 show ?case by simp
qed simp

lemma le_word_le_bytes_8 [simp]: "le_word (le_bytes 8 x) = x"
  using le_word_le_bytes [of 8 x] by (simp add: take_bit_word_eq_self)

section \<open>Lists\<close>

lemma take_update_fill:
  assumes "off + length data \<le> length buf"
  shows "take (off + length data) (take off buf @ data @ drop (off + length data) buf) =
    take off buf @ data"
  using assms by simp

lemma sum_list_perm: "mset xs = mset ys \<Longrightarrow> sum_list xs = (sum_list ys :: 'a::comm_monoid_add)"
  by (metis sum_mset_sum_list)

text \<open>Replacing one element of a list in a sum of multisets over the list.\<close>

lemma sum_list_update_mset:
  fixes f :: "'a \<Rightarrow> 'b multiset"
  shows "i < length xs \<Longrightarrow> sum_list (map f (xs[i := y])) + f (xs ! i) = sum_list (map f xs) + f y"
proof (induction xs arbitrary: i)
  case (Cons x xs)
  show ?case
  proof (cases i)
    case (Suc j)
    with Cons.prems have "sum_list (map f (xs[j := y])) + f (xs ! j) = sum_list (map f xs) + f y"
      by (intro Cons.IH) simp
    with Suc show ?thesis by (simp add: add.assoc)
  qed (simp add: ac_simps)
qed simp

section \<open>Partial functions\<close>

text \<open>Two partial functions of four arguments that are defined by the same monotone recursion \<open>F\<close> are the same.\<close>

lemma same_recursion:
  fixes f g :: "'a \<Rightarrow> 'b \<Rightarrow> 'c \<Rightarrow> 'd \<Rightarrow> 'r option"
  assumes f: "\<And>a b c d. f a b c d = F f a b c d" and g: "\<And>a b c d. g a b c d = F g a b c d"
    and f_least: "\<And>P a b c d r. (\<And>h a b c d r. (\<And>a b c d r. h a b c d = Some r \<Longrightarrow> P a b c d r) \<Longrightarrow>
        F h a b c d = Some r \<Longrightarrow> P a b c d r) \<Longrightarrow> f a b c d = Some r \<Longrightarrow> P a b c d r"
    and g_least: "\<And>P a b c d r. (\<And>h a b c d r. (\<And>a b c d r. h a b c d = Some r \<Longrightarrow> P a b c d r) \<Longrightarrow>
        F h a b c d = Some r \<Longrightarrow> P a b c d r) \<Longrightarrow> g a b c d = Some r \<Longrightarrow> P a b c d r"
    and mono: "\<And>h k a b c d r. (\<And>a b c d r. h a b c d = Some r \<Longrightarrow> k a b c d = Some r) \<Longrightarrow>
        F h a b c d = Some r \<Longrightarrow> F k a b c d = Some r"
  shows "f = g"
proof (intro ext)
  fix a b c d
  have "g a b c d = Some r" if "f a b c d = Some r" for r
    using that by (rule f_least [where P = "\<lambda>a b c d r. g a b c d = Some r", rotated]) (subst g, rule mono)
  moreover have "f a b c d = Some r" if "g a b c d = Some r" for r
    using that by (rule g_least [where P = "\<lambda>a b c d r. f a b c d = Some r", rotated]) (subst f, rule mono)
  ultimately show "f a b c d = g a b c d" by (cases "f a b c d"; cases "g a b c d") auto
qed

end
