(* ===== verification/Window.thy ===== *)
theory Window
  imports Prelude
begin

text \<open>
  Every benchmark client of the repository is a closed loop over three unsigned counters:
  requests sent, requests outstanding and requests completed. The interface of such a
  loop is the locale \<open>request_window\<close>: issuing a request counts it as sent and outstanding, a
  reply moves it from outstanding to completed. What follows from that alone is proved here once:
  the accounting equation (as words, so it survives wrap-around) and the exact counters
  after a number of issues or replies. The clients are interpretations.
\<close>

locale request_window =
  fixes sent outst complete :: "'s \<Rightarrow> 'w::len word"
    and issue reply :: "'s \<Rightarrow> 's \<Rightarrow> bool"
  assumes issue: "issue s t \<Longrightarrow>
      sent t = sent s + 1 \<and> outst t = outst s + 1 \<and> complete t = complete s"
    and reply: "reply s t \<Longrightarrow>
      sent t = sent s \<and> outst t = outst s - 1 \<and> complete t = complete s + 1"
begin

lemma issue_conserves: "issue s t \<Longrightarrow> sent s = complete s + outst s \<Longrightarrow> sent t = complete t + outst t"
  using issue [of s t] by simp

lemma reply_conserves: "reply s t \<Longrightarrow> sent s = complete s + outst s \<Longrightarrow> sent t = complete t + outst t"
  using reply [of s t] by simp

text \<open>The accounting equation holds in every state any interleaving of issues and replies reaches.\<close>

lemma steps_conserve:
  "(sup issue reply)\<^sup>*\<^sup>* s t \<Longrightarrow> sent s = complete s + outst s \<Longrightarrow> sent t = complete t + outst t"
proof (induction rule: rtranclp_induct)
  case (step t u)
  then show ?case by (auto dest: issue_conserves reply_conserves)
qed

lemma issues:
  "(issue ^^ n) s t \<Longrightarrow>
     sent t = sent s + of_nat n \<and> outst t = outst s + of_nat n \<and> complete t = complete s"
proof (induction n arbitrary: t)
  case (Suc n)
  then obtain u where "(issue ^^ n) s u" "issue u t" by auto
  with Suc.IH [of u] issue [of u t] show ?case by (simp add: algebra_simps)
qed simp

lemma replies:
  "(reply ^^ n) s t \<Longrightarrow>
     sent t = sent s \<and> outst t = outst s - of_nat n \<and> complete t = complete s + of_nat n"
proof (induction n arbitrary: t)
  case (Suc n)
  then obtain u where "(reply ^^ n) s u" "reply u t" by auto
  with Suc.IH [of u] reply [of u t] show ?case by (simp add: diff_diff_eq add.commute add.left_commute)
qed simp

text \<open>The same counters read as numbers, where they fit.\<close>

lemma issues_unat:
  assumes "(issue ^^ n) s t"
  shows "unat (outst s) + n < 2 ^ LENGTH('w) \<Longrightarrow> unat (outst t) = unat (outst s) + n"
    and "unat (sent s) + n < 2 ^ LENGTH('w) \<Longrightarrow> unat (sent t) = unat (sent s) + n"
  using issues [OF assms] by (simp_all add: unat_word_ariths unat_of_nat mod_simps)

lemma replies_unat:
  assumes "(reply ^^ n) s t"
  shows "n \<le> unat (outst s) \<Longrightarrow> unat (outst t) = unat (outst s) - n"
    and "unat (complete s) + n < 2 ^ LENGTH('w) \<Longrightarrow> unat (complete t) = unat (complete s) + n"
proof -
  have eq: "outst t = outst s - of_nat n" "complete t = complete s + of_nat n"
    using replies [OF assms] by simp_all
  show "unat (outst t) = unat (outst s) - n" if n: "n \<le> unat (outst s)"
  proof -
    have "unat (outst s) < 2 ^ LENGTH('w)" by (rule unsigned_less)
    with n have "n < 2 ^ LENGTH('w)" by (rule le_less_trans)
    then have u: "unat (of_nat n :: 'w word) = n" by (simp add: unat_of_nat)
    with n have "of_nat n \<le> outst s" by (simp add: word_le_nat_alt)
    then show ?thesis unfolding eq by (simp add: unat_sub u)
  qed
  show "unat (complete t) = unat (complete s) + n" if "unat (complete s) + n < 2 ^ LENGTH('w)"
    using that eq by (simp add: unat_word_ariths unat_of_nat mod_simps)
qed

text \<open>A window that only ever grows to its bound and never replies more than it sent stays below it.\<close>

lemma outst_le_sent:
  "sent s = complete s + outst s \<Longrightarrow> unat (complete s) + unat (outst s) < 2 ^ LENGTH('w) \<Longrightarrow>
     unat (sent s) = unat (complete s) + unat (outst s)"
  by (simp add: unat_word_ariths)

end

text \<open>Deterministic steps as relations.\<close>

lemma relpowp_fun:
  fixes f :: "'s \<Rightarrow> 's"
  shows "((\<lambda>s t. t = f s) ^^ n) s t \<longleftrightarrow> t = (f ^^ n) s"
  by (induction n arbitrary: t) (auto simp: relcompp_apply)

lemma relpowp_foldE:
  "foldE f xs s = Inr t \<Longrightarrow> ((\<lambda>s t. \<exists>x. f x s = Inr t) ^^ length xs) s t"
proof (induction xs arbitrary: s)
  case (Cons x xs)
  then obtain u where "f x s = Inr u" and "((\<lambda>s t. \<exists>x. f x s = Inr t) ^^ length xs) u t"
    by (auto simp: result_simps)
  then have "((\<lambda>s t. \<exists>x. f x s = Inr t) ^^ Suc (length xs)) s t"
    by (intro relpowp_Suc_I2 [of _ s u]) auto
  then show ?case by simp
qed simp

end
