(* ===== verification/ReadCallback.thy ===== *)
theory ReadCallback
  imports Prelude
begin

text \<open>
  \<open>AsyncIO/request.h\<close>: the fixed-size request, the buffer allocator and the
  \<open>ReadCallback\<close> that both ends of the AsyncIO benchmark hang on their socket. A folly socket
  asks it for a buffer (\<open>getReadBuffer\<close>), writes what the kernel has into it and reports the
  number of bytes (\<open>readDataAvailable\<close>); whenever 4096 bytes are complete the callback hands
  the buffer on and starts a new one. The theory models the object and its operations,
  states the interface of a reader of fixed-size frames as the locale \<open>frame_reader\<close>, and shows
  that the object implements it: however the stream is cut into segments, the
  frames handed on are the stream cut every 4096 bytes.

  A buffer from malloc is a list of optional bytes: \<open>None\<close> is a byte nobody has written yet.
\<close>

section \<open>The request and its memory layout\<close>

record request =
  requestid :: u64
  buf :: bytes

definition sizeof_request :: nat where
  "sizeof_request = 4096"

text \<open>\<open>reinterpret_cast\<close> from and to \<open>char *\<close> on a little-endian machine.\<close>

definition request_bytes :: "request \<Rightarrow> bytes" where
  "request_bytes r = le_bytes 8 (requestid r) @ buf r"

definition bytes_request :: "bytes \<Rightarrow> request" where
  "bytes_request bs = \<lparr>requestid = le_word (take 8 bs), buf = drop 8 bs\<rparr>"

definition wf_request :: "request \<Rightarrow> bool" where
  "wf_request r \<longleftrightarrow> length (buf r) = sizeof_request - 8"

lemma bytes_request_request_bytes [simp]: "bytes_request (request_bytes r) = r"
  by (simp add: bytes_request_def request_bytes_def)

lemma length_request_bytes: "wf_request r \<Longrightarrow> length (request_bytes r) = sizeof_request"
  by (simp add: request_bytes_def wf_request_def sizeof_request_def)

lemma wf_bytes_request: "length bs = sizeof_request \<Longrightarrow> wf_request (bytes_request bs)"
  by (simp add: wf_request_def bytes_request_def sizeof_request_def)

section \<open>The callback object\<close>

type_synonym membuf = "u8 option list"

record ReadCallback =
  req_size :: nat
  buffer_length :: nat                  \<comment> \<open>\<open>buffer_.length\<close>\<close>
  raw_bufp :: "membuf option"
  bytes_read :: nat
  cbp :: bool                          \<comment> \<open>whether a callback is registered\<close>
  loop_terminated :: bool               \<comment> \<open>\<open>basep_->terminateLoopSoon()\<close> was called\<close>

definition Buffer_new :: "nat \<Rightarrow> nat result" where
  "Buffer_new l = assertE (l = sizeof_request) (Inr l)"

definition Buffer_allocate :: "bool \<Rightarrow> nat \<Rightarrow> (membuf \<times> nat) result" where
  "Buffer_allocate malloc_ok l = assertE malloc_ok (Inr (replicate l None, l))"

definition ReadCallback_new :: "nat \<Rightarrow> ReadCallback result" where
  "ReadCallback_new sz =
     bindE (Buffer_new sz)
       (\<lambda>l. Inr \<lparr>req_size = sz, buffer_length = l, raw_bufp = None, bytes_read = 0,
                 cbp = False, loop_terminated = False\<rparr>)"

definition registerReadCallback :: "ReadCallback \<Rightarrow> ReadCallback" where
  "registerReadCallback rc = rc\<lparr>cbp := True\<rparr>"

text \<open>The result is the offset into the current buffer and the room behind it.\<close>

definition getReadBuffer :: "bool \<Rightarrow> ReadCallback \<Rightarrow> ((nat \<times> nat) \<times> ReadCallback) result" where
  "getReadBuffer malloc_ok rc =
     bindE
       (if bytes_read rc \<ge> req_size rc \<or> raw_bufp rc = None
        then bindE (Buffer_allocate malloc_ok (buffer_length rc))
               (\<lambda>(bufp, size). assertE (size = req_size rc)
                  (Inr (rc\<lparr>raw_bufp := Some bufp, bytes_read := 0\<rparr>)))
        else Inr rc)
       (\<lambda>rc'. assertE (raw_bufp rc' \<noteq> None)
          (Inr ((bytes_read rc', req_size rc' - bytes_read rc'), rc')))"

text \<open>\<open>Some b\<close>: the registered callback is called with the buffer \<open>b\<close>, which it now owns.\<close>

definition readDataAvailable :: "nat \<Rightarrow> ReadCallback \<Rightarrow> (membuf option \<times> ReadCallback) result" where
  "readDataAvailable len rc =
     assertE (cbp rc)
       (let rc = rc\<lparr>bytes_read := bytes_read rc + len\<rparr> in
        assertE (bytes_read rc \<le> req_size rc)
          (if bytes_read rc \<ge> req_size rc
           then assertE (bytes_read rc = req_size rc)
                  (case raw_bufp rc of
                     None \<Rightarrow> Inl Null_Deref
                   | Some bufp \<Rightarrow> Inr (Some bufp, rc\<lparr>raw_bufp := None, bytes_read := 0\<rparr>))
           else Inr (None, rc)))"

definition readEOF :: "ReadCallback \<Rightarrow> ReadCallback" where
  "readEOF rc = rc\<lparr>loop_terminated := True\<rparr>"

definition readErr :: "ReadCallback \<Rightarrow> ReadCallback" where
  "readErr rc = rc\<lparr>loop_terminated := True\<rparr>"

section \<open>The socket's side of the protocol\<close>

text \<open>
  One read of a folly socket that has \<open>data\<close> waiting: it asks for a buffer, stores at most as
  many bytes as it was offered, and reports how many. The result is the number of bytes consumed,
  the frames the callback handed on and the new object.
\<close>

definition store :: "nat \<Rightarrow> bytes \<Rightarrow> ReadCallback \<Rightarrow> ReadCallback" where
  "store off d rc =
     rc\<lparr>raw_bufp := map_option (\<lambda>b. take off b @ map Some d @ drop (off + length d) b)
                      (raw_bufp rc)\<rparr>"

definition socket_read1 :: "bool \<Rightarrow> bytes \<Rightarrow> ReadCallback \<Rightarrow> (nat \<times> membuf list \<times> ReadCallback) result" where
  "socket_read1 malloc_ok data rc =
     bindE (getReadBuffer malloc_ok rc)
       (\<lambda>((off, size), rc). let d = take size data in
          bindE (readDataAvailable (length d) (store off d rc))
            (\<lambda>(f, rc). Inr (length d, (case f of None \<Rightarrow> [] | Some b \<Rightarrow> [b]), rc)))"

text \<open>
  The socket keeps reading until nothing is left (or it is offered no room), and a stream
  arrives in segments. Both drivers are the socket's, over any \<open>read1\<close>.
\<close>

function read_all ::
  "(bytes \<Rightarrow> 's \<Rightarrow> (nat \<times> membuf list \<times> 's) result) \<Rightarrow> bytes \<Rightarrow> 's \<Rightarrow> (membuf list \<times> 's) result" where
  "read_all read1 data s =
     (if data = [] then Inr ([], s)
      else bindE (read1 data s)
             (\<lambda>(n, fs, s). if n = 0 then Inr (fs, s)
                else bindE (read_all read1 (drop n data) s) (\<lambda>(fs', s). Inr (fs @ fs', s))))"
  by pat_completeness auto
termination
  by (relation "measure (\<lambda>(_, data, _). length data)") auto

declare read_all.simps [simp del]

fun read_segments ::
  "(bytes \<Rightarrow> 's \<Rightarrow> (nat \<times> membuf list \<times> 's) result) \<Rightarrow> bytes list \<Rightarrow> 's \<Rightarrow> (membuf list \<times> 's) result" where
  "read_segments read1 [] s = Inr ([], s)"
| "read_segments read1 (seg # segs) s =
     bindE (read_all read1 seg s)
       (\<lambda>(fs, s). bindE (read_segments read1 segs s) (\<lambda>(fs', s). Inr (fs @ fs', s)))"

section \<open>The interface: a reader of fixed-size frames\<close>

text \<open>
  What a component that receives frames relies on. One read takes a non-empty prefix of
  what the socket holds, keeps the invariant, and moves bytes from the stream to the
  pending part and from there into frames without losing, inventing or reordering any.
\<close>

locale frame_reader =
  fixes read1 :: "bytes \<Rightarrow> 's \<Rightarrow> (nat \<times> membuf list \<times> 's) result"
    and pending :: "'s \<Rightarrow> bytes"
    and inv :: "'s \<Rightarrow> bool"
    and fsize :: nat
  assumes fsize: "0 < fsize"
    and pending_lt: "inv s \<Longrightarrow> length (pending s) < fsize"
    and read1: "inv s \<Longrightarrow> data \<noteq> [] \<Longrightarrow>
      \<exists>n fs s'. read1 data s = Inr (n, map (map Some) fs, s') \<and> inv s' \<and> 0 < n \<and> n \<le> length data \<and>
        pending s @ take n data = concat fs @ pending s' \<and> (\<forall>f \<in> set fs. length f = fsize)"

text \<open>The specification: a byte stream cut every \<open>n\<close> bytes, and what is left over.\<close>

function frames_of :: "nat \<Rightarrow> bytes \<Rightarrow> bytes list" where
  "frames_of n bs = (if n = 0 \<or> length bs < n then [] else take n bs # frames_of n (drop n bs))"
  by pat_completeness auto
termination
  by (relation "measure (\<lambda>(n, bs). length bs)") auto

declare frames_of.simps [simp del]

lemma frames_of_short [simp]: "length bs < n \<Longrightarrow> frames_of n bs = []"
  by (simp add: frames_of.simps)

lemma frames_of_concat:
  assumes "0 < n" and "\<forall>f \<in> set fs. length f = n"
  shows "frames_of n (concat fs @ rest) = fs @ frames_of n rest"
  using assms(2)
proof (induction fs)
  case (Cons f fs)
  then show ?case using assms(1) by (simp add: frames_of.simps [of n "f @ _"])
qed simp

lemma frames_of_exact:
  "0 < n \<Longrightarrow> \<forall>f \<in> set fs. length f = n \<Longrightarrow> frames_of n (concat fs) = fs"
  using frames_of_concat [of n fs "[]"] by simp

lemma concat_frames_of:
  "0 < n \<Longrightarrow> concat (frames_of n bs) = take (n * (length bs div n)) bs"
proof (induction n bs rule: frames_of.induct)
  case (1 n bs)
  show ?case
  proof (cases "length bs < n")
    case True
    then show ?thesis by simp
  next
    case False
    then have "n * (length bs div n) = n + n * (length (drop n bs) div n)"
      using 1(2) by (simp add: le_div_geq)
    moreover have "concat (frames_of n (drop n bs)) =
        take (n * (length (drop n bs) div n)) (drop n bs)"
      using 1 False by simp
    ultimately show ?thesis
      using 1(2) False by (simp add: frames_of.simps [of n bs] take_add)
  qed
qed

lemma frames_of_length: "f \<in> set (frames_of n bs) \<Longrightarrow> length f = n"
proof (induction n bs rule: frames_of.induct)
  case (1 n bs)
  show ?case
  proof (cases "n = 0 \<or> length bs < n")
    case True
    then show ?thesis using "1.prems" by (simp add: frames_of.simps [of n bs])
  next
    case False
    then show ?thesis using 1 by (auto simp: frames_of.simps [of n bs])
  qed
qed


context frame_reader
begin

lemma read_all_spec:
  "inv s \<Longrightarrow> \<exists>fs s'. read_all read1 data s = Inr (map (map Some) fs, s') \<and> inv s' \<and>
     pending s @ data = concat fs @ pending s' \<and> (\<forall>f \<in> set fs. length f = fsize)"
proof (induction data arbitrary: s rule: length_induct)
  case (1 data s)
  show ?case
  proof (cases "data = []")
    case True
    with 1(2) show ?thesis by (intro exI [of _ "[]"] exI [of _ s]) (simp add: read_all.simps)
  next
    case False
    from read1 [OF 1(2) False] obtain n fs s1 where
      r: "read1 data s = Inr (n, map (map Some) fs, s1)" "inv s1" "0 < n" "n \<le> length data"
        "pending s @ take n data = concat fs @ pending s1" "\<forall>f \<in> set fs. length f = fsize"
      by blast
    have "length (drop n data) < length data" using r(3) False by simp
    with 1(1) r(2) obtain fs' s2 where
      r': "read_all read1 (drop n data) s1 = Inr (map (map Some) fs', s2)" "inv s2"
        "pending s1 @ drop n data = concat fs' @ pending s2" "\<forall>f \<in> set fs'. length f = fsize"
      by blast
    have "pending s @ data = (pending s @ take n data) @ drop n data" by simp
    also have "\<dots> = concat (fs @ fs') @ pending s2" using r(5) r'(3) by simp
    finally show ?thesis
      using r r' False by (intro exI [of _ "fs @ fs'"] exI [of _ s2])
        (auto simp: read_all.simps [of read1 data s])
  qed
qed

lemma read_segments_spec:
  "inv s \<Longrightarrow> \<exists>fs s'. read_segments read1 segs s = Inr (map (map Some) fs, s') \<and> inv s' \<and>
     pending s @ concat segs = concat fs @ pending s' \<and> (\<forall>f \<in> set fs. length f = fsize)"
proof (induction segs arbitrary: s)
  case Nil
  then show ?case by (intro exI [of _ "[]"] exI [of _ s]) simp
next
  case (Cons seg segs)
  from read_all_spec [OF Cons.prems, of seg] obtain fs s1 where
    r: "read_all read1 seg s = Inr (map (map Some) fs, s1)" "inv s1"
      "pending s @ seg = concat fs @ pending s1" "\<forall>f \<in> set fs. length f = fsize"
    by blast
  from Cons.IH [OF r(2)] obtain fs' s2 where
    r': "read_segments read1 segs s1 = Inr (map (map Some) fs', s2)" "inv s2"
      "pending s1 @ concat segs = concat fs' @ pending s2" "\<forall>f \<in> set fs'. length f = fsize"
    by blast
  have "pending s @ concat (seg # segs) = concat (fs @ fs') @ pending s2"
    using r(3) r'(3) by (simp flip: append_assoc) (simp add: append_assoc)
  then show ?case
    using r r' by (intro exI [of _ "fs @ fs'"] exI [of _ s2]) auto
qed

text \<open>The frames are a function of the byte stream: how it was cut does not matter.\<close>

lemma read_segments_frames:
  assumes "inv s"
  shows "\<exists>s'. read_segments read1 segs s =
      Inr (map (map Some) (frames_of fsize (pending s @ concat segs)), s') \<and> inv s' \<and>
      pending s' = drop (fsize * (length (pending s @ concat segs) div fsize))
                     (pending s @ concat segs)"
proof -
  let ?str = "pending s @ concat segs"
  from read_segments_spec [OF assms, of segs] obtain fs s' where
    r: "read_segments read1 segs s = Inr (map (map Some) fs, s')" "inv s'"
      "?str = concat fs @ pending s'" "\<forall>f \<in> set fs. length f = fsize"
    by blast
  have short: "length (pending s') < fsize" by (rule pending_lt [OF r(2)])
  then have fs: "frames_of fsize ?str = fs"
    using frames_of_concat [OF fsize r(4), of "pending s'"] r(3) by simp
  let ?k = "fsize * (length ?str div fsize)"
  have "take ?k ?str = concat fs"
    using concat_frames_of [OF fsize, of ?str] fs by (simp only:)
  then have "take ?k ?str @ pending s' = take ?k ?str @ drop ?k ?str"
    unfolding append_take_drop_id by (simp only: r(3))
  then have "pending s' = drop ?k ?str" by (simp only: same_append_eq)
  with r(1,2) fs show ?thesis by blast
qed

end

section \<open>The callback object implements the interface\<close>

definition pending :: "ReadCallback \<Rightarrow> bytes" where
  "pending rc = (case raw_bufp rc of None \<Rightarrow> [] | Some b \<Rightarrow> map the (take (bytes_read rc) b))"

definition rc_inv :: "ReadCallback \<Rightarrow> bool" where
  "rc_inv rc \<longleftrightarrow>
     req_size rc = sizeof_request \<and> buffer_length rc = sizeof_request \<and> cbp rc \<and>
     (case raw_bufp rc of
        None \<Rightarrow> bytes_read rc = 0
      | Some b \<Rightarrow> length b = sizeof_request \<and> bytes_read rc < sizeof_request \<and>
                  take (bytes_read rc) b = map Some (pending rc))"

lemma rc_inv_new:
  "ReadCallback_new sizeof_request = Inr rc \<Longrightarrow> rc_inv (registerReadCallback rc)"
  by (auto simp: ReadCallback_new_def Buffer_new_def registerReadCallback_def rc_inv_def)

lemma pending_lt: "rc_inv rc \<Longrightarrow> length (pending rc) < sizeof_request"
  by (auto simp: rc_inv_def pending_def sizeof_request_def split: option.splits)

text \<open>
  Asking for a buffer never fails under the invariant, offers room for the rest of
  the frame, and leaves the bytes read so far in place.
\<close>

lemma getReadBuffer_ok:
  assumes "rc_inv rc"
  shows "\<exists>b. getReadBuffer True rc =
      Inr ((length (pending rc), sizeof_request - length (pending rc)),
           rc\<lparr>raw_bufp := Some b, bytes_read := length (pending rc)\<rparr>) \<and>
    length b = sizeof_request \<and> take (length (pending rc)) b = map Some (pending rc)"
proof (cases "raw_bufp rc")
  case None
  with assms show ?thesis
    by (auto simp: rc_inv_def getReadBuffer_def Buffer_allocate_def pending_def)
next
  case (Some b)
  with assms have br: "length (pending rc) = bytes_read rc"
    by (auto simp: rc_inv_def pending_def)
  moreover have "rc\<lparr>raw_bufp := Some b, bytes_read := bytes_read rc\<rparr> = rc"
    using Some by (cases rc) simp
  ultimately show ?thesis
    using Some assms by (intro exI [of _ b]) (auto simp: rc_inv_def getReadBuffer_def)
qed


text \<open>
  One read of the socket: the buffer is handed on exactly when its last byte arrives,
  complete, and otherwise the bytes are added to the pending ones.
\<close>

lemma socket_read1_ok:
  assumes inv: "rc_inv rc" and "data \<noteq> []"
  defines "d \<equiv> take (sizeof_request - length (pending rc)) data"
  shows "\<exists>rc'. socket_read1 True data rc =
      Inr (length d,
           (if length (pending rc @ d) = sizeof_request then [map Some (pending rc @ d)] else []),
           rc') \<and> rc_inv rc' \<and> 0 < length d \<and>
      pending rc' = (if length (pending rc @ d) = sizeof_request then [] else pending rc @ d)"
proof -
  let ?p = "pending rc"
  from getReadBuffer_ok [OF inv] obtain b where
    g: "getReadBuffer True rc = Inr ((length ?p, sizeof_request - length ?p),
          rc\<lparr>raw_bufp := Some b, bytes_read := length ?p\<rparr>)"
      "length b = sizeof_request" "take (length ?p) b = map Some ?p"
    by blast
  have lt: "length ?p < sizeof_request" by (rule pending_lt [OF inv])
  have pos: "0 < length d" using assms(2) lt by (simp add: d_def)
  have le: "length ?p + length d \<le> sizeof_request" using lt by (simp add: d_def)
  let ?b = "map Some ?p @ map Some d @ drop (length ?p + length d) b"
  have lb: "length ?b = sizeof_request" using le g(2) by simp
  have inv': "req_size rc = sizeof_request" "buffer_length rc = sizeof_request" "cbp rc"
    using inv by (simp_all add: rc_inv_def)
  have st: "store (length ?p) d (rc\<lparr>raw_bufp := Some b, bytes_read := length ?p\<rparr>) =
      rc\<lparr>raw_bufp := Some ?b, bytes_read := length ?p\<rparr>"
    by (simp add: store_def g(3))
  have step: "socket_read1 True data rc =
      bindE (readDataAvailable (length d) (rc\<lparr>raw_bufp := Some ?b, bytes_read := length ?p\<rparr>))
        (\<lambda>(f, rc). Inr (length d, (case f of None \<Rightarrow> [] | Some b \<Rightarrow> [b]), rc))"
    unfolding socket_read1_def g(1) bindE_simps prod.case d_def [symmetric] Let_def st ..
  show ?thesis
  proof (cases "length (?p @ d) = sizeof_request")
    case True
    let ?rc = "rc\<lparr>raw_bufp := None, bytes_read := 0\<rparr>"
    from True have "?b = map Some (?p @ d)" using g(2) by simp
    then have "socket_read1 True data rc = Inr (length d, [map Some (?p @ d)], ?rc)"
      unfolding step using True inv' by (simp add: readDataAvailable_def Let_def)
    moreover have "rc_inv ?rc" "pending ?rc = []"
      using inv' by (simp_all add: rc_inv_def pending_def)
    ultimately show ?thesis using True pos by simp
  next
    case False
    let ?rc = "rc\<lparr>raw_bufp := Some ?b, bytes_read := length ?p + length d\<rparr>"
    have pend: "pending ?rc = ?p @ d" by (simp add: pending_def comp_def)
    have "socket_read1 True data rc = Inr (length d, [], ?rc)"
      unfolding step using False inv' le by (simp add: readDataAvailable_def Let_def)
    moreover have "rc_inv ?rc"
      unfolding rc_inv_def pend using lb le False inv' by simp
    ultimately show ?thesis using False pos pend by simp
  qed
qed

interpretation rc: frame_reader "socket_read1 True" pending rc_inv sizeof_request
proof
  show "0 < sizeof_request" by (simp add: sizeof_request_def)
  show "length (pending s) < sizeof_request" if "rc_inv s" for s
    by (rule pending_lt [OF that])
  show "\<exists>n fs s'. socket_read1 True data s = Inr (n, map (map Some) fs, s') \<and> rc_inv s' \<and> 0 < n \<and>
      n \<le> length data \<and> pending s @ take n data = concat fs @ pending s' \<and>
      (\<forall>f \<in> set fs. length f = sizeof_request)"
    if "rc_inv s" and "data \<noteq> []" for s data
  proof -
    let ?d = "take (sizeof_request - length (pending s)) data"
    let ?c = "length (pending s @ ?d) = sizeof_request"
    have len: "length ?d \<le> length data" and tk: "take (length ?d) data = ?d"
      by (simp_all add: min_def)
    from socket_read1_ok [OF that] obtain s' where
      "socket_read1 True data s = Inr (length ?d, if ?c then [map Some (pending s @ ?d)] else [], s')"
      "rc_inv s'" "0 < length ?d" "pending s' = (if ?c then [] else pending s @ ?d)"
      by blast
    then show ?thesis
      using len tk
      by (intro exI [of _ "length ?d"] exI [of _ "if ?c then [pending s @ ?d] else []"] exI [of _ s'])
        simp
  qed
qed

section \<open>Properties\<close>

text \<open>
  C1. Reassembly. A callback object with bytes pending, fed with a stream in any
  segmentation, never fails an assertion or writes out of bounds, hands on exactly the frames of
  4096 bytes of the stream (each fully written, in order), and keeps the incomplete rest.
\<close>

theorem reassembly:
  assumes "rc_inv rc"
  shows "\<exists>rc'. read_segments (socket_read1 True) segs rc =
      Inr (map (map Some) (frames_of sizeof_request (pending rc @ concat segs)), rc') \<and> rc_inv rc' \<and>
      pending rc' = drop (sizeof_request * (length (pending rc @ concat segs) div sizeof_request))
                      (pending rc @ concat segs)"
  by (rule rc.read_segments_frames [OF assms])

definition example_rc :: ReadCallback where
  "example_rc = \<lparr>req_size = 4096, buffer_length = 4096, raw_bufp = None, bytes_read = 0,
                 cbp = True, loop_terminated = False\<rparr>"

lemma example_rc_inv: "rc_inv example_rc"
  by (simp add: example_rc_def rc_inv_def sizeof_request_def)

theorem reassembly_witness:
  "\<exists>rc'. read_segments (socket_read1 True) [replicate 4000 7, replicate 96 8, [9]] example_rc =
      Inr (map (map Some) (frames_of sizeof_request
             (pending example_rc @ concat [replicate 4000 7, replicate 96 8, [9]])), rc') \<and> rc_inv rc'"
  using reassembly [OF example_rc_inv, of "[replicate 4000 7, replicate 96 8, [9]]"] by blast

text \<open>
  The frames do not depend on how the network cut the stream: two segmentations of
  the same bytes give the same frames and leave the same bytes pending.
\<close>

theorem segmentation_independent:
  assumes "rc_inv rc" and "concat segs = concat segs'"
  shows "\<exists>fs rc1 rc2. read_segments (socket_read1 True) segs rc = Inr (fs, rc1) \<and>
    read_segments (socket_read1 True) segs' rc = Inr (fs, rc2) \<and> pending rc1 = pending rc2"
  using rc.read_segments_frames [OF assms(1), of segs] rc.read_segments_frames [OF assms(1), of segs']
    assms(2) by auto

theorem segmentation_independent_witness:
  "\<exists>fs rc1 rc2. read_segments (socket_read1 True) [[1, 2], [3]] example_rc = Inr (fs, rc1) \<and>
    read_segments (socket_read1 True) [[1], [2, 3]] example_rc = Inr (fs, rc2) \<and>
    pending rc1 = pending rc2"
  using segmentation_independent [OF example_rc_inv, of "[[1, 2], [3]]" "[[1], [2, 3]]"] by simp

end
