(* ===== verification/NetServer.thy ===== *)
theory NetServer
  imports ReadCallback
begin

text \<open>
  \<open>AsyncIO/net-server.cpp\<close>: the echo server. Every accepted socket gets a thread with its own
  event base and read callback; each complete request is written back as it came, its buffer
  kept alive by a heap-allocated \<open>WriteCallback\<close> until the write has succeeded. A connection
  is a record of what its thread owns, the server a map from descriptors to connections.
\<close>

section \<open>One connection\<close>

record Connection =
  rcb :: ReadCallback
  writes :: "membuf list"          \<comment> \<open>the calls of \<open>socket->write\<close>, in order\<close>
  inflight_wcb :: "membuf list"    \<comment> \<open>the \<open>WriteCallback\<close> objects of unfinished writes, with their buffers\<close>
  leaked_wcb :: "membuf list"      \<comment> \<open>those alive although their write is over\<close>

text \<open>The body of the thread up to \<open>loopForever\<close>.\<close>

definition connection_thread :: "Connection result" where
  "connection_thread =
     bindE (ReadCallback_new sizeof_request)
       (\<lambda>rc. Inr \<lparr>rcb = registerReadCallback rc, writes = [], inflight_wcb = [], leaked_wcb = []\<rparr>)"

text \<open>The registered callback: \<open>sz\<close> is what the read callback passes, its \<open>req_size_\<close>.\<close>

definition server_readDataAvailable :: "nat \<Rightarrow> membuf \<Rightarrow> Connection \<Rightarrow> Connection result" where
  "server_readDataAvailable sz bufp c =
     assertE (sz = sizeof_request)
       (Inr (c\<lparr>inflight_wcb := inflight_wcb c @ [bufp], writes := writes c @ [take sz bufp]\<rparr>))"

text \<open>
  The socket completes its writes in order. Success deletes the callback with its
  buffer; on an error it does nothing, so the callback stays although nothing refers to it.
\<close>

definition WriteCallback_writeSuccess :: "Connection \<Rightarrow> Connection" where
  "WriteCallback_writeSuccess c = c\<lparr>inflight_wcb := tl (inflight_wcb c)\<rparr>"

definition WriteCallback_writeErr :: "Connection \<Rightarrow> Connection" where
  "WriteCallback_writeErr c =
     c\<lparr>inflight_wcb := tl (inflight_wcb c), leaked_wcb := leaked_wcb c @ take 1 (inflight_wcb c)\<rparr>"

definition conn_receive :: "bytes list \<Rightarrow> Connection \<Rightarrow> Connection result" where
  "conn_receive segs c =
     bindE (read_segments (socket_read1 True) segs (rcb c))
       (\<lambda>(fs, rc). foldE (server_readDataAvailable (req_size rc)) fs (c\<lparr>rcb := rc\<rparr>))"

section \<open>The accepting server\<close>

datatype conn_event =
    Accepted int                   \<comment> \<open>\<open>connectionAccepted\<close>, with what \<open>fcntl(F_SETFD)\<close> returns\<close>
  | Segment bytes                  \<comment> \<open>bytes arrive\<close>
  | Write_Success
  | Write_Error
  | Eof                            \<comment> \<open>\<open>readEOF\<close> or \<open>readErr\<close>: the thread's loop ends\<close>

record SAcceptCallback =
  connectionAcceptedFn :: bool     \<comment> \<open>whether a function is set\<close>
  conns :: "int \<Rightarrow> Connection option"

definition setConnectionAcceptedFn :: "SAcceptCallback \<Rightarrow> SAcceptCallback" where
  "setConnectionAcceptedFn sv = sv\<lparr>connectionAcceptedFn := True\<rparr>"

text \<open>The lambda of \<open>main\<close>: close-on-exec, then a detached thread for the connection.\<close>

definition accept_lambda :: "int \<Rightarrow> Connection result" where
  "accept_lambda fcntl_rc = assertE (fcntl_rc = 0) connection_thread"

definition connectionAccepted :: "int \<Rightarrow> int \<Rightarrow> SAcceptCallback \<Rightarrow> SAcceptCallback result" where
  "connectionAccepted fd fcntl_rc sv =
     assertE (connectionAcceptedFn sv)
       (bindE (accept_lambda fcntl_rc) (\<lambda>c. Inr (sv\<lparr>conns := (conns sv)(fd := Some c)\<rparr>)))"

definition acceptError :: "SAcceptCallback \<Rightarrow> SAcceptCallback result" where
  "acceptError sv = Inl Assert_Failed"

definition conn_step :: "conn_event \<Rightarrow> Connection \<Rightarrow> Connection option result" where
  "conn_step e c =
     (case e of
        Accepted rc \<Rightarrow> bindE (accept_lambda rc) (\<lambda>c. Inr (Some c))
      | Segment seg \<Rightarrow> bindE (conn_receive [seg] c) (\<lambda>c. Inr (Some c))
      | Write_Success \<Rightarrow> Inr (Some (WriteCallback_writeSuccess c))
      | Write_Error \<Rightarrow> Inr (Some (WriteCallback_writeErr c))
      | Eof \<Rightarrow> Inr None)"

definition net_step :: "int \<times> conn_event \<Rightarrow> SAcceptCallback \<Rightarrow> SAcceptCallback result" where
  "net_step ev sv =
     (case ev of (fd, e) \<Rightarrow>
        (case (e, conns sv fd) of
           (Accepted rc, _) \<Rightarrow> connectionAccepted fd rc sv
         | (_, None) \<Rightarrow> Inr sv
         | (_, Some c) \<Rightarrow>
             bindE (conn_step e c) (\<lambda>c'. Inr (sv\<lparr>conns := (conns sv)(fd := c')\<rparr>))))"

section \<open>Echo\<close>

definition conn_inv :: "Connection \<Rightarrow> bool" where
  "conn_inv c \<longleftrightarrow> rc_inv (rcb c)"

lemma rc_inv_req_size: "rc_inv rc \<Longrightarrow> req_size rc = sizeof_request"
  by (simp add: rc_inv_def)

lemma connection_thread_ok:
  "connection_thread = Inr c \<Longrightarrow>
     conn_inv c \<and> writes c = [] \<and> inflight_wcb c = [] \<and> leaked_wcb c = [] \<and> pending (rcb c) = []"
  by (auto simp: connection_thread_def conn_inv_def result_simps intro: rc_inv_new)
    (auto simp: ReadCallback_new_def registerReadCallback_def pending_def result_simps)

lemma connection_thread_total: "\<exists>c. connection_thread = Inr c"
  by (simp add: connection_thread_def ReadCallback_new_def Buffer_new_def)

lemma readDataAvailable_all:
  "\<forall>f \<in> set fs. length f = sizeof_request \<Longrightarrow>
     foldE (server_readDataAvailable sizeof_request) fs c =
       Inr (c\<lparr>inflight_wcb := inflight_wcb c @ fs, writes := writes c @ fs\<rparr>)"
  by (induction fs arbitrary: c) (simp_all add: server_readDataAvailable_def)

lemma conn_receive_spec:
  assumes "conn_inv c" and str: "str = pending (rcb c) @ concat segs"
  shows "\<exists>c'. conn_receive segs c = Inr c' \<and> conn_inv c' \<and>
    writes c' = writes c @ map (map Some) (frames_of sizeof_request str) \<and>
    inflight_wcb c' = inflight_wcb c @ map (map Some) (frames_of sizeof_request str) \<and>
    leaked_wcb c' = leaked_wcb c \<and>
    pending (rcb c') = drop (sizeof_request * (length str div sizeof_request)) str"
proof -
  from rc.read_segments_frames [of "rcb c" segs] assms(1) obtain rc' where
    r: "read_segments (socket_read1 True) segs (rcb c) =
        Inr (map (map Some) (frames_of sizeof_request str), rc')" "rc_inv rc'"
      "pending rc' = drop (sizeof_request * (length str div sizeof_request)) str"
    unfolding str conn_inv_def by blast
  have "\<forall>f \<in> set (map (map Some) (frames_of sizeof_request str)). length f = sizeof_request"
    by (auto dest: frames_of_length)
  note all = readDataAvailable_all [OF this, of "c\<lparr>rcb := rc'\<rparr>"]
  show ?thesis
    unfolding conn_receive_def r(1) bindE_simps prod.case rc_inv_req_size [OF r(2)] all
    using r(2,3) by (simp add: conn_inv_def)
qed

text \<open>
  C2. The echo server: a fresh connection that receives a stream in any segmentation
  writes back exactly the complete 4096-byte requests of the stream, unchanged, once each and in
  order, and every byte it writes is a byte it received.
\<close>

theorem server_echoes:
  assumes "connection_thread = Inr c"
  shows "\<exists>c'. conn_receive segs c = Inr c' \<and>
    writes c' = map (map Some) (frames_of sizeof_request (concat segs)) \<and>
    concat (writes c') =
      map Some (take (sizeof_request * (length (concat segs) div sizeof_request)) (concat segs))"
proof -
  have "conn_inv c" and z: "writes c = []" "pending (rcb c) = []"
    using connection_thread_ok [OF assms] by simp_all
  then obtain c' where c': "conn_receive segs c = Inr c'"
      "writes c' = map (map Some) (frames_of sizeof_request (concat segs))"
    using conn_receive_spec [of c _ segs, OF _ refl] by auto
  have "concat (writes c') = map Some (concat (frames_of sizeof_request (concat segs)))"
    by (simp add: c'(2) map_concat)
  also have "\<dots> = map Some (take (sizeof_request * (length (concat segs) div sizeof_request)) (concat segs))"
    by (subst concat_frames_of) (simp_all add: sizeof_request_def)
  finally show ?thesis using c' by blast
qed

theorem server_echoes_witness:
  "\<exists>c c'. connection_thread = Inr c \<and> conn_receive [replicate 4000 7, replicate 97 8] c = Inr c' \<and>
     writes c' = map (map Some) (frames_of sizeof_request (concat [replicate 4000 7, replicate 97 8]))"
proof -
  obtain c where c: "connection_thread = Inr c" using connection_thread_total by blast
  from server_echoes [OF c, of "[replicate 4000 7, replicate 97 8]"] c show ?thesis by blast
qed

section \<open>Buffers of writes in flight\<close>

text \<open>
  A connection's history: segments, successful and failed writes. The socket reports one
  result per write, so there are never more results than writes.
\<close>

inductive conn_reach :: "Connection \<Rightarrow> nat \<Rightarrow> nat \<Rightarrow> bool" where
  start: "connection_thread = Inr c \<Longrightarrow> conn_reach c 0 0"
| segment: "conn_reach c k e \<Longrightarrow> conn_receive [seg] c = Inr c' \<Longrightarrow> conn_reach c' k e"
| success: "conn_reach c k e \<Longrightarrow> k + e < length (writes c) \<Longrightarrow>
    conn_reach (WriteCallback_writeSuccess c) (Suc k) e"
| failure: "conn_reach c k e \<Longrightarrow> k + e < length (writes c) \<Longrightarrow>
    conn_reach (WriteCallback_writeErr c) k (Suc e)"

lemma conn_reach_inv:
  "conn_reach c k e \<Longrightarrow> conn_inv c \<and> k + e \<le> length (writes c) \<and>
     inflight_wcb c = drop (k + e) (writes c) \<and> length (leaked_wcb c) = e"
proof (induction rule: conn_reach.induct)
  case (start c)
  from connection_thread_ok [OF start] show ?case by simp
next
  case (segment c k e seg c')
  from conn_receive_spec [of c _ "[seg]", OF _ refl] segment obtain fs where
    "conn_inv c'" "writes c' = writes c @ fs" "inflight_wcb c' = inflight_wcb c @ fs"
    "leaked_wcb c' = leaked_wcb c"
    by fastforce
  with segment.IH show ?case by simp
qed (auto simp: WriteCallback_writeSuccess_def WriteCallback_writeErr_def conn_inv_def drop_Suc tl_drop
    take_drop)

text \<open>
  Buffer lifetime: after \<open>k\<close> successful and \<open>e\<close> failed writes the buffers that the socket still
  needs are alive, namely those of exactly the writes not yet reported, and besides them \<open>e\<close> buffers
  which nothing will ever free. So without errors all memory has been returned once every write
  has been reported.
\<close>

theorem live_buffers:
  assumes "conn_reach c k e"
  shows "inflight_wcb c = drop (k + e) (writes c) \<and> length (leaked_wcb c) = e \<and>
    (k + e = length (writes c) \<longrightarrow> length (inflight_wcb c @ leaked_wcb c) = e)"
  using conn_reach_inv [OF assms] by auto

theorem live_buffers_witness:
  "\<exists>c. conn_reach c 1 0 \<and> length (writes c) = 2 \<and> length (inflight_wcb c) = 1"
proof -
  obtain c where c: "connection_thread = Inr c" using connection_thread_total by blast
  have "\<forall>f \<in> set [replicate 4096 7, replicate 4096 (8 :: u8)]. length f = sizeof_request"
    by (simp add: sizeof_request_def)
  then have fr: "frames_of sizeof_request (replicate 4096 7 @ replicate 4096 8) =
      [replicate 4096 7, replicate 4096 (8 :: u8)]"
    using frames_of_exact [of sizeof_request "[replicate 4096 7, replicate 4096 8]"]
    by (simp add: sizeof_request_def)
  obtain c' where c': "conn_receive [replicate 4096 7 @ replicate 4096 8] c = Inr c'"
      "length (writes c') = 2"
    using conn_receive_spec [of c _ "[replicate 4096 7 @ replicate 4096 8]", OF _ refl]
      connection_thread_ok [OF c] by (auto simp: fr)
  have "conn_reach (WriteCallback_writeSuccess c') (Suc 0) 0"
    by (rule conn_reach.success [OF conn_reach.segment [OF conn_reach.start [OF c] c'(1)]])
      (simp add: c')
  then show ?thesis
    using live_buffers [of "WriteCallback_writeSuccess c'" 1 0] c'(2)
    by (auto simp: WriteCallback_writeSuccess_def)
qed

section \<open>Connections do not interfere\<close>

definition on_fd :: "int \<Rightarrow> (int \<times> conn_event) list \<Rightarrow> conn_event list" where
  "on_fd fd evs = map snd (filter (\<lambda>ev. fst ev = fd) evs)"

text \<open>What a connection alone would do with its events.\<close>

definition slot_step :: "conn_event \<Rightarrow> Connection option \<Rightarrow> Connection option result" where
  "slot_step e slot =
     (case (e, slot) of
        (Accepted rc, _) \<Rightarrow> bindE (accept_lambda rc) (\<lambda>c. Inr (Some c))
      | (_, None) \<Rightarrow> Inr None
      | (_, Some c) \<Rightarrow> conn_step e c)"

lemma net_step_slot:
  "net_step (fd, e) sv = Inr sv' \<Longrightarrow>
     slot_step e (conns sv fd) = Inr (conns sv' fd) \<and> (\<forall>fd'. fd' \<noteq> fd \<longrightarrow> conns sv' fd' = conns sv fd')"
  by (auto simp: net_step_def slot_step_def connectionAccepted_def result_simps
      split: conn_event.splits option.splits)

text \<open>
  Isolation. In any run of the server that does not abort, the state of the connection
  on a descriptor is what its own events alone make of it: no other connection's traffic,
  results or end can change it.
\<close>

theorem connections_isolated:
  "foldE net_step evs sv = Inr sv' \<Longrightarrow>
     foldE slot_step (on_fd fd evs) (conns sv fd) = Inr (conns sv' fd)"
proof (induction evs arbitrary: sv)
  case Nil
  then show ?case by (simp add: on_fd_def)
next
  case (Cons ev evs)
  obtain fd1 e where ev: "ev = (fd1, e)" by (cases ev)
  from Cons.prems obtain sv1 where
    s: "net_step (fd1, e) sv = Inr sv1" "foldE net_step evs sv1 = Inr sv'"
    by (auto simp: ev result_simps)
  note one = net_step_slot [OF s(1)]
  show ?case
    using one Cons.IH [OF s(2)] by (cases "fd1 = fd") (auto simp: ev on_fd_def)
qed

theorem connections_isolated_witness:
  "\<exists>c. foldE slot_step (on_fd 4 [(3, Accepted 0), (4, Accepted 0), (3, Eof)]) None = Inr (Some c)"
proof -
  let ?sv = "\<lparr>connectionAcceptedFn = True, conns = (\<lambda>_. None)\<rparr>"
  obtain c where c: "connection_thread = Inr c" using connection_thread_total by blast
  have "foldE net_step [(3, Accepted 0), (4, Accepted 0), (3, Eof)] ?sv =
      Inr \<lparr>connectionAcceptedFn = True, conns = (\<lambda>_. None)(4 := Some c)\<rparr>"
    by (simp add: net_step_def connectionAccepted_def accept_lambda_def c conn_step_def fun_upd_def fun_eq_iff)
  from connections_isolated [OF this, of 4] show ?thesis by simp
qed

end
