(* ===== verification/NetClient.thy ===== *)
theory NetClient
  imports ReadCallback Window
begin

text \<open>
  \<open>AsyncIO/net-client.cpp\<close>: the benchmark client over a raw socket. It sends \<open>qdepth\<close> requests
  when connected and one more for each response until \<open>max_requests\<close> have completed, then waits
  for the rest and stops its loop. \<open>Benchmark\<close> is the class, with the calls it makes on the socket
  (\<open>wire\<close>) and on the event base (\<open>loop_stopped\<close>) as fields; the clock readings and the outcome
  of each \<open>write\<close> are arguments. The counters are an instance of \<open>request_window\<close>.
\<close>

section \<open>State\<close>

record Benchmark =
  qdepth :: u32
  req_sent :: u32
  req_outstanding :: u32
  req_completed :: u32
  max_requests :: u64
  start_time :: int
  request_id :: u64
  req_time :: "u64 \<Rightarrow> int option"
  tot_req_latency :: u64
  wire :: "request list"           \<comment> \<open>the requests passed to \<open>socket_->write\<close>, in order\<close>
  loop_stopped :: bool             \<comment> \<open>\<open>base_.terminateLoopSoon()\<close> was called\<close>
  stack_wcb :: nat                 \<comment> \<open>queued writes that point to a \<open>WriteCallback\<close> of a dead frame\<close>

definition Benchmark_new :: "u32 \<Rightarrow> Benchmark" where
  "Benchmark_new q =
     \<lparr>qdepth = q, req_sent = 0, req_outstanding = 0, req_completed = 0, max_requests = 1000000,
      start_time = 0, request_id = 0, req_time = (\<lambda>_. None), tot_req_latency = 0,
      wire = [], loop_stopped = False, stack_wcb = 0\<rparr>"

text \<open>
  What \<open>AsyncSocket::write\<close> does with the callback it is given: it may call
  \<open>writeSuccess\<close> before it returns, keep the pointer and call it from the event loop, or call
  \<open>writeErr\<close>.
\<close>

datatype write_result = Write_Done | Write_Queued | Write_Failed

section \<open>Operations\<close>

definition send_one :: "int \<times> write_result \<Rightarrow> Benchmark \<Rightarrow> Benchmark result" where
  "send_one env b =
     (let b = b\<lparr>request_id := request_id b + 1\<rparr>;
          b = b\<lparr>req_time := (req_time b)(request_id b \<mapsto> fst env)\<rparr>;
          reqp = \<lparr>requestid = request_id b, buf = replicate 4088 0\<rparr>;
          b = b\<lparr>wire := wire b @ [reqp]\<rparr> in
      bindE (case snd env of
               Write_Done \<Rightarrow> Inr b
             | Write_Queued \<Rightarrow> Inr (b\<lparr>stack_wcb := Suc (stack_wcb b)\<rparr>)
             | Write_Failed \<Rightarrow> Inl Assert_Failed)
        (\<lambda>b. Inr (b\<lparr>req_sent := req_sent b + 1, req_outstanding := req_outstanding b + 1\<rparr>)))"

definition requests_send :: "u32 \<Rightarrow> (nat \<Rightarrow> int \<times> write_result) \<Rightarrow> Benchmark \<Rightarrow> Benchmark result" where
  "requests_send nrequests env b = for_int (unat nrequests) 0 (\<lambda>i. send_one (env i)) b"

definition start_benchmark :: "int \<Rightarrow> (nat \<Rightarrow> int \<times> write_result) \<Rightarrow> Benchmark \<Rightarrow> Benchmark result" where
  "start_benchmark now env b = requests_send (qdepth b) env (b\<lparr>start_time := now\<rparr>)"

definition stop_benchmark :: "Benchmark \<Rightarrow> Benchmark" where
  "stop_benchmark b = b\<lparr>loop_stopped := True\<rparr>"

text \<open>The counting part of \<open>request_received\<close>; \<open>d\<close> is the latency in nanoseconds.\<close>

definition count_reply :: "int \<Rightarrow> Benchmark \<Rightarrow> Benchmark" where
  "count_reply d b =
     b\<lparr>tot_req_latency := tot_req_latency b + word_of_int d,
       req_completed := req_completed b + 1,
       req_outstanding := req_outstanding b - 1\<rparr>"

definition request_received ::
  "request \<Rightarrow> int \<Rightarrow> (nat \<Rightarrow> int \<times> write_result) \<Rightarrow> Benchmark \<Rightarrow> Benchmark result" where
  "request_received reqp now env b =
     (case req_time b (requestid reqp) of
        None \<Rightarrow> Inl Assert_Failed
      | Some s \<Rightarrow>
          let b = count_reply (now - s) b in
          if ucast (req_completed b) < max_requests b then requests_send 1 env b
          else if req_outstanding b \<noteq> 0 then Inr b
          else Inr (stop_benchmark b))"

text \<open>The read callback registered on the socket: size check, cast, dispatch.\<close>

definition requestRead ::
  "nat \<Rightarrow> membuf \<Rightarrow> int \<Rightarrow> (nat \<Rightarrow> int \<times> write_result) \<Rightarrow> Benchmark \<Rightarrow> Benchmark result" where
  "requestRead sz bufp now env b =
     assertE (sz = sizeof_request) (request_received (bytes_request (map the bufp)) now env b)"

text \<open>
  A queued write completes from the event loop: the pointer it calls is to the \<open>wcb\<close> of an
  iteration of \<open>requests_send\<close> that has ended.
\<close>

definition queued_write_completes :: "Benchmark \<Rightarrow> Benchmark result" where
  "queued_write_completes b = (if stack_wcb b = 0 then Inr b else Inl Use_After_Scope)"

definition connectErr :: "Benchmark \<Rightarrow> Benchmark result" where
  "connectErr b = Inl Assert_Failed"

definition get_benchmark_data :: "Benchmark \<Rightarrow> u64 \<times> u64" where
  "get_benchmark_data b = (max_requests b, tot_req_latency b)"

text \<open>The average request latency that \<open>run\<close> prints.\<close>

definition printed_latency :: "Benchmark \<Rightarrow> u64" where
  "printed_latency b = tot_req_latency b div max_requests b"

definition main_qdepths :: "u32 list" where
  "main_qdepths = [1, 2, 8, 16, 32, 64, 128, 256, 512, 1024]"

section \<open>The counters are a request window\<close>

lemma send_one_frame:
  "send_one env b = Inr b' \<Longrightarrow>
     request_id b' = request_id b + 1 \<and> req_time b' = (req_time b)(request_id b + 1 \<mapsto> fst env) \<and>
     wire b' = wire b @ [\<lparr>requestid = request_id b + 1, buf = replicate 4088 0\<rparr>] \<and>
     qdepth b' = qdepth b \<and> max_requests b' = max_requests b \<and>
     tot_req_latency b' = tot_req_latency b \<and> loop_stopped b' = loop_stopped b \<and>
     stack_wcb b \<le> stack_wcb b' \<and> req_sent b' = req_sent b + 1 \<and>
     req_outstanding b' = req_outstanding b + 1 \<and> req_completed b' = req_completed b"
  by (cases "snd env") (auto simp: send_one_def Let_def)

interpretation nc: request_window req_sent req_outstanding req_completed
  "\<lambda>s t. \<exists>env. send_one env s = Inr t" "\<lambda>s t. \<exists>d. t = count_reply d s"
  by unfold_locales (auto simp: count_reply_def dest: send_one_frame)

lemma send_one_done [simp]:
  "send_one (now, Write_Done) b =
     Inr (b\<lparr>request_id := request_id b + 1, req_time := (req_time b)(request_id b + 1 \<mapsto> now),
            wire := wire b @ [\<lparr>requestid = request_id b + 1, buf = replicate 4088 0\<rparr>],
            req_sent := req_sent b + 1, req_outstanding := req_outstanding b + 1\<rparr>)"
  by (simp add: send_one_def Let_def)

lemma requests_send_foldE:
  "unat n \<le> 2147483647 \<Longrightarrow> requests_send n env b = foldE (\<lambda>i. send_one (env i)) [0..<unat n] b"
  by (simp add: requests_send_def for_int_foldE)

lemma requests_send_1: "requests_send 1 env b = send_one (env 0) b"
  by (cases "send_one (env 0) b") (simp_all add: requests_send_foldE)

lemma relpowp_sends:
  "foldE (\<lambda>i. send_one (env i)) is b = Inr b' \<Longrightarrow>
     ((\<lambda>s t. \<exists>env. send_one env s = Inr t) ^^ length is) b b'"
proof (induction "is" arbitrary: b)
  case (Cons i "is")
  then obtain u where "send_one (env i) b = Inr u"
    "((\<lambda>s t. \<exists>env. send_one env s = Inr t) ^^ length is) u b'"
    by (auto simp: result_simps)
  then have "((\<lambda>s t. \<exists>env. send_one env s = Inr t) ^^ Suc (length is)) b b'"
    by (intro relpowp_Suc_I2 [of _ b u]) blast+
  then show ?case by simp
qed simp

section \<open>The identifiers\<close>

text \<open>
  The invariant of the identifiers: requests are numbered from 1 in the order they are
  sent, and a send time is kept for exactly the numbers used so far.
\<close>

definition ids_inv :: "Benchmark \<Rightarrow> bool" where
  "ids_inv b \<longleftrightarrow>
     map requestid (wire b) = map (\<lambda>i. of_nat i + 1) [0..<length (wire b)] \<and>
     request_id b = of_nat (length (wire b)) \<and>
     dom (req_time b) = requestid ` set (wire b) \<and>
     (\<forall>r \<in> set (wire b). wf_request r)"

lemma ids_inv_send:
  assumes "send_one env b = Inr b'" and "ids_inv b"
  shows "ids_inv b'"
  using assms(2) send_one_frame [OF assms(1)]
  by (simp add: ids_inv_def wf_request_def sizeof_request_def add.commute)

lemma ids_inv_sends:
  "foldE (\<lambda>i. send_one (env i)) is b = Inr b' \<Longrightarrow> ids_inv b \<Longrightarrow> ids_inv b'"
  by (rule foldE_invariant [where P = ids_inv]) (auto intro: ids_inv_send)

lemma ids_inv_cong [simp]:
  "ids_inv (count_reply d b) = ids_inv b"
  "ids_inv (stop_benchmark b) = ids_inv b"
  "ids_inv (b\<lparr>start_time := n\<rparr>) = ids_inv b"
  by (simp_all add: ids_inv_def count_reply_def stop_benchmark_def)


section \<open>Runs\<close>

text \<open>
  The states of a benchmark object from the moment it is connected: \<open>start_benchmark\<close>, then
  one \<open>request_received\<close> per response. The second argument lists the latencies measured so
  far. A response is one to a request that has been sent (the code's own assertion).
\<close>

inductive client_run :: "Benchmark \<Rightarrow> int list \<Rightarrow> Benchmark \<Rightarrow> bool" for b0 :: Benchmark where
  connected: "start_benchmark now env b0 = Inr b \<Longrightarrow> client_run b0 [] b"
| response: "client_run b0 ds b \<Longrightarrow> req_time b (requestid r) = Some s \<Longrightarrow>
    request_received r now env b = Inr b' \<Longrightarrow> client_run b0 (ds @ [now - s]) b'"

definition fresh :: "Benchmark \<Rightarrow> bool" where
  "fresh b \<longleftrightarrow>
     req_sent b = 0 \<and> req_outstanding b = 0 \<and> req_completed b = 0 \<and> request_id b = 0 \<and>
     tot_req_latency b = 0 \<and> req_time b = Map.empty \<and> wire b = [] \<and> \<not> loop_stopped b"

lemma fresh_new [simp]: "fresh (Benchmark_new q)"
  by (simp add: fresh_def Benchmark_new_def)

lemma fresh_ids: "fresh b \<Longrightarrow> ids_inv b"
  by (simp add: fresh_def ids_inv_def)

text \<open>The shape of a response step, whatever the environment does.\<close>

lemma request_received_cases:
  assumes "request_received r now env b = Inr b'" and "req_time b (requestid r) = Some s"
  obtains (more) "ucast (req_completed b + 1) < max_requests b"
      "send_one (env 0) (count_reply (now - s) b) = Inr b'"
  | (drain) "\<not> ucast (req_completed b + 1) < max_requests b" "req_outstanding b - 1 \<noteq> 0"
      "b' = count_reply (now - s) b"
  | (stop) "\<not> ucast (req_completed b + 1) < max_requests b" "req_outstanding b - 1 = 0"
      "b' = stop_benchmark (count_reply (now - s) b)"
  using assms
  by (auto simp: request_received_def Let_def requests_send_1 count_reply_def split: if_splits)

lemma sends_frame:
  assumes "foldE (\<lambda>i. send_one (env i)) is b = Inr b'"
  shows "qdepth b' = qdepth b \<and> max_requests b' = max_requests b \<and>
    tot_req_latency b' = tot_req_latency b \<and> loop_stopped b' = loop_stopped b \<and>
    length (wire b') = length (wire b) + length is"
  using assms
proof (induction "is" arbitrary: b)
  case (Cons i "is")
  then obtain u where u: "send_one (env i) b = Inr u" and r: "foldE (\<lambda>i. send_one (env i)) is u = Inr b'"
    by (auto simp: result_simps)
  with Cons.IH [OF r] send_one_frame [OF u] show ?case by simp
qed simp

text \<open>
  The counters of every state of a run, as numbers: \<open>k\<close> responses after the start,
  \<open>k\<close> requests are completed, the window was refilled for the first \<open>m - 1\<close> of them, and the loop is
  stopped exactly after the last response.
\<close>

definition run_counters :: "nat \<Rightarrow> nat \<Rightarrow> int list \<Rightarrow> Benchmark \<Rightarrow> bool" where
  "run_counters q m ds b \<longleftrightarrow>
     (let k = length ds in
      unat (req_completed b) = k \<and> unat (req_sent b) = q + min k (m - 1) \<and>
      unat (req_outstanding b) = q + min k (m - 1) - k \<and>
      length (wire b) = q + min k (m - 1) \<and>
      (loop_stopped b \<longleftrightarrow> k = m + q - 1) \<and>
      tot_req_latency b = word_of_int (sum_list ds) \<and> unat (max_requests b) = m \<and> ids_inv b)"

lemma start_counters:
  assumes "start_benchmark now env b0 = Inr b" and "fresh b0"
    and "unat (qdepth b0) = q" and "unat (max_requests b0) = m"
    and "1 \<le> q" and "1 \<le> m" and "q \<le> 2147483647"
  shows "run_counters q m [] b"
proof -
  let ?b0 = "b0\<lparr>start_time := now\<rparr>"
  have f: "foldE (\<lambda>i. send_one (env i)) [0..<q] ?b0 = Inr b"
    using assms(1,3,7) by (simp add: start_benchmark_def requests_send_foldE)
  have z: "req_sent ?b0 = 0" "req_outstanding ?b0 = 0" "req_completed ?b0 = 0" "wire ?b0 = []"
    "tot_req_latency ?b0 = 0" "\<not> loop_stopped ?b0" "ids_inv ?b0"
    using assms(2) fresh_ids [OF assms(2)] by (simp_all add: fresh_def)
  note pow = relpowp_sends [OF f]
  have "unat (req_sent b) = q" "unat (req_outstanding b) = q"
    using nc.issues_unat [OF pow] z(1,2) assms(7) by simp_all
  moreover have "req_completed b = 0" using nc.issues [OF pow] z(3) by simp
  ultimately show ?thesis
    using sends_frame [OF f] ids_inv_sends [OF f z(7)] z assms(4-6)
    by (simp add: run_counters_def)
qed


lemma count_reply_nums:
  assumes "unat (req_completed b) < 4294967295" and "1 \<le> unat (req_outstanding b)"
  shows "unat (req_completed (count_reply d b)) = unat (req_completed b) + 1"
    and "unat (req_outstanding (count_reply d b)) = unat (req_outstanding b) - 1"
proof -
  have one: "((\<lambda>s t. \<exists>d. t = count_reply d s) ^^ 1) b (count_reply d b)" by auto
  show "unat (req_completed (count_reply d b)) = unat (req_completed b) + 1"
    using nc.replies_unat(2) [OF one] assms(1) by simp
  show "unat (req_outstanding (count_reply d b)) = unat (req_outstanding b) - 1"
    using nc.replies_unat(1) [OF one] assms(2) by simp
qed

lemma response_counters:
  assumes run: "run_counters q m ds b" and k: "length ds < m + q - 1"
    and bounds: "1 \<le> q" "1 \<le> m" "q + m < 4294967296"
    and s: "req_time b (requestid r) = Some s" and step: "request_received r now env b = Inr b'"
  shows "run_counters q m (ds @ [now - s]) b'"
proof -
  let ?k = "length ds" and ?b = "count_reply (now - s) b"
  have c: "unat (req_completed b) = ?k" "unat (req_sent b) = q + min ?k (m - 1)"
    "unat (req_outstanding b) = q + min ?k (m - 1) - ?k" "unat (max_requests b) = m"
    "length (wire b) = q + min ?k (m - 1)" "\<not> loop_stopped b"
    "tot_req_latency b = word_of_int (sum_list ds)" "ids_inv b"
    using run k by (simp_all add: run_counters_def Let_def)
  have "1 \<le> unat (req_outstanding b)" using c(3) k bounds by (simp add: min_def split: if_splits)
  note n = count_reply_nums [OF _ this, of "now - s"]
  have comp: "unat (req_completed ?b) = ?k + 1" and outs: "unat (req_outstanding ?b) = q + min ?k (m - 1) - ?k - 1"
    using n c(1,3) k bounds by simp_all
  have guard: "ucast (req_completed b + 1) < max_requests b \<longleftrightarrow> ?k + 1 < m"
    using comp c(4) by (simp add: word_less_nat_alt count_reply_def)
  have fr: "req_sent ?b = req_sent b" "wire ?b = wire b" "max_requests ?b = max_requests b"
    "loop_stopped ?b = loop_stopped b" "tot_req_latency ?b = word_of_int (sum_list (ds @ [now - s]))"
    using c(7) by (simp_all add: count_reply_def)
  have ids: "ids_inv ?b" using c(8) by simp
  have len: "length (ds @ [now - s]) = ?k + 1" by simp
  have out0: "req_outstanding b - 1 = 0 \<longleftrightarrow> q + min ?k (m - 1) - ?k - 1 = 0"
    unfolding outs [symmetric] unat_eq_0 by (simp add: count_reply_def)
  from step s show ?thesis
  proof (cases rule: request_received_cases)
    case more
    note f = send_one_frame [OF more(2)]
    have lt: "?k + 1 < m" using more(1) guard by simp
    have "unat (req_sent b') = q + (?k + 1)" "unat (req_outstanding b') = q"
      using f fr(1) outs c(2) lt bounds by (simp_all add: unat_word_ariths)
    moreover have "?k + 1 \<noteq> m + q - 1" using lt bounds by simp
    ultimately show ?thesis
      using lt f fr comp c k ids_inv_send [OF more(2) ids]
      by (simp add: run_counters_def Let_def)
  next
    case drain
    have ge: "m - 1 \<le> ?k" "m - 1 \<le> ?k + 1" using drain(1) [unfolded guard] by arith+
    note mins = ge [THEN min.absorb2]
    have lt: "?k + 1 < m + q - 1" using drain(2) [unfolded out0 mins] bounds(2) by linarith
    have outs': "unat (req_outstanding ?b) = q + (m - 1) - (?k + 1)" using outs mins(1) by simp
    note c' = c(2,5) [unfolded mins(1)]
    show ?thesis
      unfolding run_counters_def Let_def len mins(2) drain(3) fr
      using lt ids comp outs' c' c(4,6) by simp
  next
    case stop
    have ge: "m - 1 \<le> ?k" "m - 1 \<le> ?k + 1" using stop(1) [unfolded guard] by arith+
    note mins = ge [THEN min.absorb2]
    have eq: "?k + 1 = m + q - 1" using stop(2) [unfolded out0 mins] k bounds(2) by linarith
    have outs': "unat (req_outstanding ?b) = q + (m - 1) - (?k + 1)" using outs mins(1) by simp
    note c' = c(2,5) [unfolded mins(1)]
    have sb: "loop_stopped (stop_benchmark ?b)" "ids_inv (stop_benchmark ?b)"
      "req_completed (stop_benchmark ?b) = req_completed ?b" "req_sent (stop_benchmark ?b) = req_sent ?b"
      "req_outstanding (stop_benchmark ?b) = req_outstanding ?b" "wire (stop_benchmark ?b) = wire ?b"
      "max_requests (stop_benchmark ?b) = max_requests ?b"
      "tot_req_latency (stop_benchmark ?b) = tot_req_latency ?b"
      using ids by (simp_all add: stop_benchmark_def ids_inv_def)
    show ?thesis
      unfolding run_counters_def Let_def len mins(2) stop(3) sb(3-) fr
      using eq sb(1,2) comp outs' c' c(4) by simp
  qed
qed

lemma client_run_run_counters:
  assumes "client_run b0 ds b" and "fresh b0"
    and "unat (qdepth b0) = q" and "unat (max_requests b0) = m"
    and "1 \<le> q" and "q \<le> 2147483647" and "1 \<le> m" and "q + m < 4294967296"
    and "length ds \<le> m + q - 1"
  shows "run_counters q m ds b"
  using assms(1,9)
proof (induction rule: client_run.induct)
  case (connected now env b)
  with assms show ?case by (intro start_counters)
next
  case (response ds b r s now env b')
  then show ?case using assms by (intro response_counters [of q m ds b r s]) simp_all
qed

text \<open>
  C3. The closed loop, exactly. A benchmark with queue depth \<open>q\<close> and \<open>m\<close> requests to do
  that has received \<open>k\<close> responses has completed \<open>k\<close> requests, has sent \<open>q + min k (m - 1)\<close>,
  so keeps exactly \<open>q\<close> outstanding until the last refill and then drains, and has stopped its loop
  iff \<open>k = m + q - 1\<close>; the latency total is the sum of all measured latencies modulo 2 to the 64.
\<close>

theorem client_run_counters:
  assumes "client_run b0 ds b" and "fresh b0"
    and "unat (qdepth b0) = q" and "unat (max_requests b0) = m"
    and "1 \<le> q" and "q \<le> 2147483647" and "1 \<le> m" and "q + m < 4294967296"
    and "length ds \<le> m + q - 1"
  shows "unat (req_completed b) = length ds \<and>
    unat (req_sent b) = q + min (length ds) (m - 1) \<and>
    unat (req_outstanding b) = q + min (length ds) (m - 1) - length ds \<and>
    length (wire b) = unat (req_sent b) \<and>
    (loop_stopped b \<longleftrightarrow> length ds = m + q - 1) \<and>
    tot_req_latency b = word_of_int (sum_list ds)"
  using client_run_run_counters [OF assms] by (simp add: run_counters_def Let_def)

definition small_bench :: Benchmark where
  "small_bench = (Benchmark_new 2)\<lparr>max_requests := 2\<rparr>"

definition all_done :: "int \<Rightarrow> nat \<Rightarrow> int \<times> write_result" where
  "all_done now i = (now, Write_Done)"

definition started :: Benchmark where
  "started = (case start_benchmark 0 (all_done 0) small_bench of Inr b \<Rightarrow> b | _ \<Rightarrow> small_bench)"

lemma started_eq: "start_benchmark 0 (all_done 0) small_bench = Inr started"
  by (simp add: started_def start_benchmark_def requests_send_foldE small_bench_def Benchmark_new_def
      all_done_def upt_rec)

lemma started_run: "client_run small_bench [] started"
  by (rule client_run.connected [OF started_eq])

theorem client_run_counters_witness:
  "client_run small_bench [] started \<and> unat (req_sent started) = 2 \<and> \<not> loop_stopped started"
  using client_run_counters [OF started_run, of 2 2] started_run
  by (simp add: small_bench_def Benchmark_new_def fresh_def)


lemma client_run_ids_inv:
  assumes "client_run b0 ds b" and "fresh b0" and "unat (qdepth b0) \<le> 2147483647"
  shows "ids_inv b"
  using assms(1)
proof (induction rule: client_run.induct)
  case (connected now env b)
  then have "foldE (\<lambda>i. send_one (env i)) [0..<unat (qdepth b0)] (b0\<lparr>start_time := now\<rparr>) = Inr b"
    using assms(3) by (simp add: start_benchmark_def requests_send_foldE)
  then show ?case by (rule ids_inv_sends) (simp add: fresh_ids [OF assms(2)])
next
  case (response ds b r s now env b')
  from response.hyps(3,2) show ?case
    by (cases rule: request_received_cases)
      (use response.IH in \<open>auto elim: ids_inv_send\<close>)
qed

text \<open>
  Identifiers. In every state of a run the requests on the wire are numbered
  consecutively from 1 in sending order, each is a full 4096-byte structure, and a send
  time is on record for exactly those numbers.
\<close>

theorem client_run_ids:
  assumes "client_run b0 ds b" and "fresh b0" and "unat (qdepth b0) \<le> 2147483647"
  shows "map requestid (wire b) = map (\<lambda>i. of_nat i + 1) [0..<length (wire b)] \<and>
    (\<forall>r \<in> set (wire b). length (request_bytes r) = sizeof_request) \<and>
    (\<forall>i. req_time b i \<noteq> None \<longleftrightarrow> i \<in> requestid ` set (wire b))"
  using client_run_ids_inv [OF assms] by (auto simp: ids_inv_def length_request_bytes dom_def)

theorem client_run_ids_witness:
  "map requestid (wire started) = map (\<lambda>i. of_nat i + 1) [0..<length (wire started)] \<and>
    (\<forall>i. req_time started i \<noteq> None \<longleftrightarrow> i \<in> requestid ` set (wire started))"
  using client_run_ids [OF started_run] by (simp add: small_bench_def Benchmark_new_def fresh_def)

text \<open>
  Progress. In every state of a run, a response to any request sent so far is
  handled without a failed assertion (its writes succeeding at once), and the run goes on.
\<close>

theorem client_run_progress:
  assumes "client_run b0 ds b" and "fresh b0" and "unat (qdepth b0) \<le> 2147483647"
    and "r \<in> set (wire b)" and "\<forall>i. snd (env i) = Write_Done"
  shows "\<exists>b' d. request_received r now env b = Inr b' \<and> client_run b0 (ds @ [d]) b'"
proof -
  obtain s where s: "req_time b (requestid r) = Some s"
    using client_run_ids_inv [OF assms(1-3)] assms(4) by (auto simp: ids_inv_def dom_def)
  have "env 0 = (fst (env 0), Write_Done)" using assms(5) by (metis prod.collapse)
  then have "\<exists>b'. send_one (env 0) u = Inr b'" for u
    by (metis send_one_done)
  with s have "\<exists>b'. request_received r now env b = Inr b'"
    by (auto simp: request_received_def Let_def requests_send_1)
  then show ?thesis using client_run.response [OF assms(1) s] by blast
qed

theorem client_run_progress_witness:
  "\<exists>b' d. request_received (hd (wire started)) 9 (all_done 9) started = Inr b' \<and>
     client_run small_bench ([] @ [d]) b'"
proof (rule client_run_progress [OF started_run])
  show "hd (wire started) \<in> set (wire started)"
    by (simp add: started_def start_benchmark_def requests_send_foldE small_bench_def Benchmark_new_def
        all_done_def upt_rec)
qed (simp_all add: all_done_def small_bench_def Benchmark_new_def fresh_def)

text \<open>
  The printed average. \<open>run\<close> divides the latencies of all \<open>m + q - 1\<close> responses by
  \<open>m\<close>: if every request took \<open>l\<close> nanoseconds, a finished benchmark prints
  \<open>l * (m + q - 1) div m\<close> instead of \<open>l\<close>.
\<close>

theorem printed_latency_value:
  assumes "client_run b0 ds b" and "fresh b0"
    and "unat (qdepth b0) = q" and "unat (max_requests b0) = m"
    and "1 \<le> q" and "q \<le> 2147483647" and "1 \<le> m" and "q + m < 4294967296"
    and "length ds = m + q - 1" and "\<forall>d \<in> set ds. d = int l"
    and "l * (m + q - 1) < 2 ^ 64"
  shows "unat (printed_latency b) = l * (m + q - 1) div m"
proof -
  have c: "tot_req_latency b = word_of_int (sum_list ds)" "unat (max_requests b) = m"
    using client_run_run_counters [OF assms(1-8) eq_imp_le [OF assms(9)]]
    by (simp_all add: run_counters_def Let_def)
  have "ds = replicate (m + q - 1) (int l)"
    using assms(9,10) by (intro replicate_eqI) simp_all
  then have "sum_list ds = int (m + q - 1) * int l" by (simp only: sum_list_replicate)
  then have "sum_list ds = int (l * (m + q - 1))" by (simp only: of_nat_mult mult.commute)
  then have "tot_req_latency b = of_nat (l * (m + q - 1))"
    unfolding c(1) by (simp only: of_int_of_nat_eq)
  then have "unat (tot_req_latency b) = l * (m + q - 1)"
    using unat_of_nat_u64 [OF assms(11)] by (simp only:)
  then show ?thesis by (simp add: printed_latency_def unat_div c(2))
qed

definition respond :: "u64 \<Rightarrow> int \<Rightarrow> Benchmark \<Rightarrow> Benchmark" where
  "respond i now b =
     (case request_received \<lparr>requestid = i, buf = []\<rparr> now (all_done now) b of Inr b' \<Rightarrow> b' | _ \<Rightarrow> b)"

lemmas evaluate_bench =
  respond_def started_def start_benchmark_def requests_send_foldE requests_send_1 small_bench_def
  Benchmark_new_def all_done_def upt_rec request_received_def count_reply_def stop_benchmark_def

lemma finished_run: "client_run small_bench [4, 4, 4] (respond 3 8 (respond 2 4 (respond 1 4 started)))"
proof -
  have 1: "client_run small_bench ([] @ [4 - 0]) (respond 1 4 started)"
    by (rule client_run.response [OF started_run, of "\<lparr>requestid = 1, buf = []\<rparr>" _ _ "all_done 4"])
      (simp_all add: evaluate_bench)
  have 2: "client_run small_bench (([] @ [4 - 0]) @ [4 - 0]) (respond 2 4 (respond 1 4 started))"
    by (rule client_run.response [OF 1, of "\<lparr>requestid = 2, buf = []\<rparr>" _ _ "all_done 4"])
      (simp_all add: evaluate_bench)
  have "client_run small_bench ((([] @ [4 - 0]) @ [4 - 0]) @ [8 - 4])
      (respond 3 8 (respond 2 4 (respond 1 4 started)))"
    by (rule client_run.response [OF 2, of "\<lparr>requestid = 3, buf = []\<rparr>" _ _ "all_done 8"])
      (simp_all add: evaluate_bench)
  then show ?thesis by simp
qed

theorem printed_latency_value_witness:
  "unat (printed_latency (respond 3 8 (respond 2 4 (respond 1 4 started)))) = 6"
  using printed_latency_value [OF finished_run, of 2 2 4]
  by (simp add: small_bench_def Benchmark_new_def fresh_def)

text \<open>
  Callbacks on the stack. If the socket keeps any of the writes of \<open>requests_send\<close> for
  later, completing it calls through a pointer to a callback that no longer exists.
\<close>

theorem queued_write_dangles:
  assumes "requests_send n env b = Inr b'" and "unat n \<le> 2147483647"
    and "i < unat n" and "snd (env i) = Write_Queued"
  shows "queued_write_completes b' = Inl Use_After_Scope"
proof -
  have "[0..<unat n] = [0..<i] @ i # [Suc i..<unat n]"
    using assms(3) upt_add_eq_append [of 0 i "unat n - i"] by (simp add: upt_conv_Cons)
  then have f: "foldE (\<lambda>i. send_one (env i)) ([0..<i] @ i # [Suc i..<unat n]) b = Inr b'"
    using assms(1,2) by (simp add: requests_send_foldE)
  then obtain u v where u: "send_one (env i) u = Inr v"
    and r: "foldE (\<lambda>i. send_one (env i)) [Suc i..<unat n] v = Inr b'"
    by (auto simp: foldE_append result_simps)
  from u assms(4) have "0 < stack_wcb v" by (auto simp: send_one_def Let_def)
  with r have "0 < stack_wcb b'"
    by (rule foldE_invariant [where P = "\<lambda>b. 0 < stack_wcb b"]) (auto dest: send_one_frame)
  then show ?thesis by (simp add: queued_write_completes_def)
qed

theorem queued_write_dangles_witness:
  "\<exists>b'. requests_send 1 (\<lambda>_. (0, Write_Queued)) small_bench = Inr b' \<and>
     queued_write_completes b' = Inl Use_After_Scope"
proof -
  have "\<exists>b'. requests_send 1 (\<lambda>_. (0, Write_Queued)) small_bench = Inr b'"
    by (simp add: requests_send_1 send_one_def Let_def)
  then show ?thesis
    using queued_write_dangles [of 1 "\<lambda>_. (0, Write_Queued)" small_bench _ 0] by auto
qed

end
