(* ===== verification/NetRun.thy ===== *)
theory NetRun
  imports NetClient
begin

text \<open>
  \<open>AsyncIO/net-client.cpp\<close>: \<open>Benchmark::run\<close> and \<open>main\<close>. The event loop hands the object of \<open>NetClient\<close> the outcome of the
  connection and then the frames its read callback has read, until the object stops the loop; \<open>run\<close>
  opens and closes the socket and prints a line, \<open>main\<close> does it once for each queue depth. An event loop
  that is never stopped does not return: its value is \<open>None\<close>.
\<close>

section \<open>The event loop\<close>

record response =
  frame_size :: nat
  frame :: membuf
  arrived :: int
  write_env :: "nat \<Rightarrow> int \<times> write_result"

record run_input =
  connection :: "(int \<times> (nat \<Rightarrow> int \<times> write_result)) option"    \<comment> \<open>\<open>None\<close>: it cannot be made\<close>
  responses :: "response list"
  end_time :: int

fun event_loop :: "response list \<Rightarrow> Benchmark \<Rightarrow> Benchmark result option" where
  "event_loop rs b =
     (if loop_stopped b then Some (Inr b)
      else
        case rs of
          [] \<Rightarrow> None
        | r # rs \<Rightarrow>
            (case requestRead (frame_size r) (frame r) (arrived r) (write_env r) b of
               Inl e \<Rightarrow> Some (Inl e)
             | Inr b \<Rightarrow> event_loop rs b))"

declare event_loop.simps [simp del]

definition connectSuccess :: "int \<Rightarrow> (nat \<Rightarrow> int \<times> write_result) \<Rightarrow> Benchmark \<Rightarrow> Benchmark result" where
  "connectSuccess now env b = start_benchmark now env b"

definition loop_forever :: "run_input \<Rightarrow> Benchmark \<Rightarrow> Benchmark result option" where
  "loop_forever inp b =
     (case connection inp of
        None \<Rightarrow> Some (connectErr b)
      | Some (now, env) \<Rightarrow>
          (case connectSuccess now env b of
             Inl e \<Rightarrow> Some (Inl e)
           | Inr b \<Rightarrow> event_loop (responses inp) b))"

section \<open>The object, its socket and its line\<close>

record bench_object =
  core :: Benchmark
  socket :: "nat option"
  closed :: "nat list"      \<comment> \<open>calls of \<open>close\<close> on sockets\<close>

text \<open>The bandwidth is not initialised when the run took no time.\<close>

record net_row =
  row_qdepth :: u32
  row_requests :: u64
  row_time :: u64
  row_latency :: u64
  row_req_time :: u64
  row_req_latency :: u64
  row_bw :: "u64 option"

definition bench_run ::
  "(int \<Rightarrow> u64) \<Rightarrow> nat \<Rightarrow> run_input \<Rightarrow> bench_object \<Rightarrow> (net_row \<times> bench_object) result option" where
  "bench_run bandwidth fd inp ob =
     (let ob = ob\<lparr>socket := Some fd\<rparr> in
      case loop_forever inp (core ob) of
        None \<Rightarrow> None
      | Some (Inl e) \<Rightarrow> Some (Inl e)
      | Some (Inr b) \<Rightarrow>
          let d = end_time inp - start_time b in
          Some (Inr
            (\<lparr>row_qdepth = qdepth b, row_requests = max_requests b, row_time = of_int d,
              row_latency = of_int d div max_requests b, row_req_time = tot_req_latency b,
              row_req_latency = printed_latency b, row_bw = (if d \<noteq> 0 then Some (bandwidth d) else None)\<rparr>,
             \<lparr>core = b, socket = None, closed = closed ob @ [fd]\<rparr>)))"

definition bench_destroy :: "bench_object \<Rightarrow> bench_object" where
  "bench_destroy ob =
     (case socket ob of
        Some fd \<Rightarrow> ob\<lparr>closed := closed ob @ [fd]\<rparr>
      | None \<Rightarrow> ob)"

text \<open>The lines printed and the sockets closed; a failed assertion ends the program.\<close>

fun net_main ::
  "(int \<Rightarrow> u64) \<Rightarrow> (u32 \<Rightarrow> nat) \<Rightarrow> (u32 \<Rightarrow> run_input) \<Rightarrow> u32 list \<Rightarrow> (net_row list \<times> nat list) result option" where
  "net_main bandwidth fd inp [] = Some (Inr ([], []))"
| "net_main bandwidth fd inp (q # qs) =
     (case bench_run bandwidth (fd q) (inp q) \<lparr>core = Benchmark_new q, socket = None, closed = []\<rparr> of
        None \<Rightarrow> None
      | Some (Inl e) \<Rightarrow> Some (Inl e)
      | Some (Inr (row, ob)) \<Rightarrow>
          (case net_main bandwidth fd inp qs of
             None \<Rightarrow> None
           | Some (Inl e) \<Rightarrow> Some (Inl e)
           | Some (Inr (rows, cl)) \<Rightarrow> Some (Inr (row # rows, closed (bench_destroy ob) @ cl))))"

section \<open>The loop ends\<close>

text \<open>
  A response that can come as number \<open>j\<close> (from 0) of a run with \<open>m\<close> requests: a frame of the right size for a request
  sent by then, whose handling completes its writes at once.
\<close>

definition answers_sent :: "nat \<Rightarrow> nat \<Rightarrow> nat \<Rightarrow> response \<Rightarrow> bool" where
  "answers_sent q m j r \<longleftrightarrow>
     frame_size r = sizeof_request \<and> (\<forall>i. snd (write_env r i) = Write_Done) \<and>
     1 \<le> unat (requestid (bytes_request (map the (frame r)))) \<and>
     unat (requestid (bytes_request (map the (frame r)))) \<le> q + min j (m - 1)"

lemma sent_ids:
  assumes "run_counters q m ds b" and "1 \<le> unat i" and "unat i \<le> q + min (length ds) (m - 1)"
  shows "\<exists>s. req_time b i = Some s"
proof -
  have inv: "ids_inv b" and w3: "length (wire b) = q + min (length ds) (m - 1)"
    using assms(1) by (simp_all add: run_counters_def Let_def)
  have w: "map requestid (wire b) = map (\<lambda>i. of_nat i + 1) [0..<length (wire b)]"
    "dom (req_time b) = set (map requestid (wire b))"
    using inv unfolding ids_inv_def list.set_map by blast+
  have "of_nat (unat i - 1) + 1 = (of_nat (Suc (unat i - 1)) :: u64)" by (simp only: of_nat_Suc add.commute)
  also have "Suc (unat i - 1) = unat i" using assms(2) by linarith
  finally have "i = of_nat (unat i - 1) + 1" by (simp only: of_nat_unat ucast_id)
  moreover have "unat i - 1 \<in> set [0..<length (wire b)]" using assms(2,3) w3 by simp
  ultimately have "i \<in> set (map (\<lambda>i. of_nat i + 1) [0..<length (wire b)])"
    unfolding list.set_map by (rule image_eqI)
  then have "i \<in> dom (req_time b)" unfolding w(2) unfolding w(1) .
  then show ?thesis by auto
qed

lemma event_loop_ends:
  assumes "fresh b0" and "unat (qdepth b0) = q" and "unat (max_requests b0) = m"
    and "1 \<le> q" and "q \<le> 2147483647" and "1 \<le> m" and "q + m < 4294967296"
  shows "client_run b0 ds b \<Longrightarrow> length ds + length rs = m + q - 1 \<Longrightarrow>
    \<forall>j < length rs. answers_sent q m (length ds + j) (rs ! j) \<Longrightarrow>
    \<exists>ds' b'. event_loop rs b = Some (Inr b') \<and> client_run b0 ds' b' \<and> length ds' = m + q - 1"
proof (induction rs arbitrary: ds b)
  case Nil
  then have "run_counters q m ds b" by (intro client_run_run_counters [OF _ assms]) simp_all
  then have "loop_stopped b" using Nil.prems(2) by (simp add: run_counters_def Let_def)
  then show ?case using Nil.prems by (auto simp: event_loop.simps)
next
  case (Cons r rs)
  have c: "run_counters q m ds b" using Cons.prems(1,2) by (intro client_run_run_counters [OF _ assms]) simp_all
  then have go: "\<not> loop_stopped b" using Cons.prems(2) by (simp add: run_counters_def Let_def)
  let ?q = "bytes_request (map the (frame r))"
  have a: "answers_sent q m (length ds) r" using Cons.prems(3) by fastforce
  then obtain s where s: "req_time b (requestid ?q) = Some s"
    using sent_ids [OF c, of "requestid ?q"] by (auto simp: answers_sent_def)
  have "write_env r 0 = (fst (write_env r 0), Write_Done)"
    using a by (metis answers_sent_def prod.collapse)
  then have "\<exists>b'. send_one (write_env r 0) u = Inr b'" for u by (metis send_one_done)
  then have "\<exists>b'. request_received ?q (arrived r) (write_env r) b = Inr b'"
    using s by (simp add: request_received_def Let_def requests_send_1)
  then obtain b' where b': "request_received ?q (arrived r) (write_env r) b = Inr b'" by blast
  then have "requestRead (frame_size r) (frame r) (arrived r) (write_env r) b = Inr b'"
    using a by (simp add: requestRead_def answers_sent_def)
  then have loop: "event_loop (r # rs) b = event_loop rs b'" using go by (simp add: event_loop.simps [of "r # rs"])
  have "client_run b0 (ds @ [arrived r - s]) b'" by (rule client_run.response [OF Cons.prems(1) s b'])
  moreover have "\<forall>j < length rs. answers_sent q m (length (ds @ [arrived r - s]) + j) (rs ! j)"
    using Cons.prems(3) by fastforce
  ultimately show ?case using Cons.IH [of "ds @ [arrived r - s]" b'] Cons.prems(2) by (simp add: loop)
qed

lemma starts:
  assumes "\<forall>i. snd (env i) = Write_Done" and "unat (qdepth b0) \<le> 2147483647"
  shows "\<exists>b. start_benchmark now env b0 = Inr b"
proof -
  have "\<exists>b. send_one (env i) u = Inr b" for i u
    using assms(1) by (metis prod.collapse send_one_done)
  then have "\<exists>b. foldE (\<lambda>i. send_one (env i)) xs u = Inr b \<and> True" for xs u
    by (intro foldE_total [where P = "\<lambda>_. True"]) auto
  then show ?thesis using assms(2) by (simp add: start_benchmark_def requests_send_foldE)
qed

text \<open>The input of a run against a server that answers every request it has been sent, in any order.\<close>

definition served :: "nat \<Rightarrow> nat \<Rightarrow> run_input \<Rightarrow> bool" where
  "served q m inp \<longleftrightarrow>
     (\<exists>now env. connection inp = Some (now, env) \<and> (\<forall>i. snd (env i) = Write_Done)) \<and>
     length (responses inp) = m + q - 1 \<and> (\<forall>j < length (responses inp). answers_sent q m j (responses inp ! j))"

lemma loop_forever_ends:
  assumes b0: "fresh b0" "unat (qdepth b0) = q" "unat (max_requests b0) = m" "1 \<le> q" "q \<le> 2147483647" "1 \<le> m"
    "q + m < 4294967296" and inp: "served q m inp"
  shows "\<exists>ds b. loop_forever inp b0 = Some (Inr b) \<and> client_run b0 ds b \<and> length ds = m + q - 1"
proof -
  obtain now env where c: "connection inp = Some (now, env)" "\<forall>i. snd (env i) = Write_Done"
    using inp by (auto simp: served_def)
  from starts [OF c(2), of b0 now] b0(2,5) obtain b where b: "start_benchmark now env b0 = Inr b" by auto
  have "client_run b0 [] b" by (rule client_run.connected [OF b])
  from event_loop_ends [OF b0 this, of "responses inp"] inp show ?thesis
    by (simp add: loop_forever_def c(1) connectSuccess_def b served_def)
qed

lemma client_run_qdepth:
  assumes "client_run b0 ds b" and "unat (qdepth b0) \<le> 2147483647"
  shows "qdepth b = qdepth b0"
  using assms(1)
proof (induction rule: client_run.induct)
  case (connected now env b)
  then have "foldE (\<lambda>i. send_one (env i)) [0..<unat (qdepth b0)] (b0\<lparr>start_time := now\<rparr>) = Inr b"
    using assms(2) by (simp add: start_benchmark_def requests_send_foldE)
  from sends_frame [OF this] show ?case by simp
next
  case (response ds b r s now env b')
  from response.hyps(3,2) show ?case
    by (cases rule: request_received_cases)
      (use response.IH in \<open>auto simp: count_reply_def stop_benchmark_def dest: send_one_frame\<close>)
qed

section \<open>The program\<close>

text \<open>A line says what it should of a run that measured the latencies \<open>ds\<close>.\<close>

definition row_of :: "u32 \<Rightarrow> int list \<Rightarrow> net_row \<Rightarrow> bool" where
  "row_of q ds row \<longleftrightarrow>
     row_qdepth row = q \<and> row_requests row = 1000000 \<and> length ds = 1000000 + unat q - 1 \<and>
     row_req_time row = of_int (sum_list ds) \<and> row_req_latency row = of_int (sum_list ds) div 1000000 \<and>
     row_latency row = row_time row div 1000000"

lemma bench_run_row:
  assumes q: "1 \<le> unat q" "unat q \<le> 1024" and inp: "served (unat q) 1000000 inp"
  shows "\<exists>row ob ds. bench_run bandwidth fd inp \<lparr>core = Benchmark_new q, socket = None, closed = []\<rparr> = Some (Inr (row, ob)) \<and>
    row_of q ds row \<and> closed (bench_destroy ob) = [fd] \<and> client_run (Benchmark_new q) ds (core ob)"
proof -
  let ?b0 = "Benchmark_new q"
  have b0: "fresh ?b0" "unat (qdepth ?b0) = unat q" "unat (max_requests ?b0) = 1000000" "1 \<le> unat q"
    "unat q \<le> 2147483647" "(1 :: nat) \<le> 1000000" "unat q + 1000000 < 4294967296"
  proof -
    show "fresh ?b0" by (rule fresh_new)
  qed (use q in \<open>simp_all add: Benchmark_new_def\<close>)
  from loop_forever_ends [OF b0 inp] obtain ds b where
    b: "loop_forever inp ?b0 = Some (Inr b)" "client_run ?b0 ds b" "length ds = 1000000 + unat q - 1" by blast
  have "run_counters (unat q) 1000000 ds b"
    by (rule client_run_run_counters [OF b(2) b0]) (simp add: b(3))
  then have tot: "tot_req_latency b = of_int (sum_list ds)" "unat (max_requests b) = 1000000"
    by (simp_all add: run_counters_def Let_def)
  have "qdepth b = q" using client_run_qdepth [OF b(2)] b0(2,5) by (simp add: Benchmark_new_def)
  moreover have "max_requests b = 1000000" using tot(2) by (intro word_unat_eq_iff [THEN iffD2]) simp
  ultimately show ?thesis
    using b tot(1) by (auto simp: bench_run_def Let_def row_of_def printed_latency_def bench_destroy_def)
qed

lemma net_main_rows:
  assumes "\<forall>q \<in> set qs. 1 \<le> unat q \<and> unat q \<le> 1024 \<and> served (unat q) 1000000 (inp q)"
  shows "\<exists>rows. net_main bandwidth fd inp qs = Some (Inr (rows, map fd qs)) \<and>
    list_all2 (\<lambda>q row. \<exists>ds b. client_run (Benchmark_new q) ds b \<and> row_of q ds row) qs rows"
  using assms
proof (induction qs)
  case (Cons q qs)
  then obtain rows where rows: "net_main bandwidth fd inp qs = Some (Inr (rows, map fd qs))"
    "list_all2 (\<lambda>q row. \<exists>ds b. client_run (Benchmark_new q) ds b \<and> row_of q ds row) qs rows" by auto
  from Cons.prems bench_run_row [of q "inp q" bandwidth "fd q"] obtain row ob ds where
    r: "bench_run bandwidth (fd q) (inp q) \<lparr>core = Benchmark_new q, socket = None, closed = []\<rparr> = Some (Inr (row, ob))"
      "row_of q ds row" "closed (bench_destroy ob) = [fd q]" "client_run (Benchmark_new q) ds (core ob)" by auto
  then show ?case using rows by auto
qed simp


text \<open>A server that answers in the order in which it has been sent requests.\<close>

definition echo_input :: "u32 \<Rightarrow> run_input" where
  "echo_input q =
     \<lparr>connection = Some (0, all_done 0),
      responses = map (\<lambda>j. \<lparr>frame_size = sizeof_request,
        frame = map Some (request_bytes \<lparr>requestid = of_nat (Suc j), buf = replicate 4088 0\<rparr>), arrived = int j,
        write_env = all_done (int j)\<rparr>) [0..<1000000 + unat q - 1],
      end_time = 2000000\<rparr>"

lemma echo_served:
  assumes "1 \<le> unat q" and "unat q \<le> 1024"
  shows "served (unat q) 1000000 (echo_input q)"
proof -
  have u: "unat (of_nat (Suc j) :: u64) = Suc j" if "j < 1000000 + unat q - 1" for j
    by (rule unat_of_nat_u64) (use that assms in simp)
  have "answers_sent (unat q) 1000000 j (responses (echo_input q) ! j)" if j: "j < 1000000 + unat q - 1" for j
    using j u [OF j] assms unfolding answers_sent_def echo_input_def
    by (simp add: all_done_def comp_def del: of_nat_Suc)
  then show ?thesis by (auto simp: served_def all_done_def echo_input_def)
qed


end
