(* ===== verification/StrSplit.thy ===== *)
theory StrSplit
  imports Prelude
begin

text \<open>
  The two string splitters of the repository over \<open>std::string\<close>: \<open>Split\<close> of
  \<open>StorageRpc/Client.cpp\<close>, used by the command loop, and \<open>split\<close> of the DB servers, used on the
  list of leaf servers. They differ in one line: where the search position is moved. Both
  are loops whose end is not evident, so they return an option, \<open>None\<close> being a loop that
  never returns. The specification cuts the string at every delimiter (\<open>pieces\<close>).
\<close>

section \<open>The string operations used\<close>

definition npos :: nat where
  "npos = 18446744073709551615"

text \<open>\<open>find(c, i)\<close>: the first position of \<open>c\<close> from \<open>i\<close> on, or \<open>npos\<close>.\<close>

function str_find :: "string \<Rightarrow> char \<Rightarrow> nat \<Rightarrow> nat" where
  "str_find str c i =
     (if i < length str then if str ! i = c then i else str_find str c (Suc i) else npos)"
  by pat_completeness auto
termination
  by (relation "measure (\<lambda>(str, c, i). length str - i)") auto

declare str_find.simps [simp del]

definition substr :: "string \<Rightarrow> nat \<Rightarrow> nat \<Rightarrow> string result" where
  "substr str pos n = (if pos > length str then Inl Out_Of_Range else Inr (take n (drop pos str)))"

section \<open>The two splitters\<close>

partial_function (option) Split_loop ::
  "string \<Rightarrow> char \<Rightarrow> nat \<Rightarrow> string list \<Rightarrow> string list result option" where
  "Split_loop str delim s tokens =
     (let e = str_find str delim s in
      if e \<noteq> npos then
        (case (if e \<noteq> s then bindE (substr str s (e - s)) (\<lambda>t. Inr (tokens @ [t])) else Inr tokens) of
           Inl x \<Rightarrow> Some (Inl x)
         | Inr tokens \<Rightarrow> Split_loop str delim (e + 1) tokens)
      else
        Some (if e \<noteq> s then bindE (substr str s npos) (\<lambda>t. Inr (tokens @ [t])) else Inr tokens))"

definition Split :: "string \<Rightarrow> char \<Rightarrow> string list result option" where
  "Split str delim = Split_loop str delim 0 []"

text \<open>The DB servers' version: the position moves only when a token was taken.\<close>

partial_function (option) db_split_loop ::
  "string \<Rightarrow> char \<Rightarrow> nat \<Rightarrow> string list \<Rightarrow> string list result option" where
  "db_split_loop input delim s v =
     (let e = str_find input delim s in
      if e \<noteq> npos then
        if e \<noteq> s then
          (case substr input s (e - s) of
             Inl x \<Rightarrow> Some (Inl x)
           | Inr t \<Rightarrow> db_split_loop input delim (e + 1) (v @ [t]))
        else db_split_loop input delim s v
      else
        Some (if e \<noteq> s then bindE (substr input s npos) (\<lambda>t. Inr (v @ [t])) else Inr v))"

definition db_split :: "string \<Rightarrow> char \<Rightarrow> string list result option" where
  "db_split input delim = db_split_loop input delim 0 []"

section \<open>Specification\<close>

fun pieces :: "char \<Rightarrow> string \<Rightarrow> string list" where
  "pieces d [] = [[]]"
| "pieces d (c # cs) =
     (if c = d then [] # pieces d cs
      else (case pieces d cs of [] \<Rightarrow> [[c]] | p # ps \<Rightarrow> (c # p) # ps))"

lemma pieces_nonempty [simp]: "pieces d str \<noteq> []"
  by (induction str) (auto split: list.splits)

lemma pieces_none: "d \<notin> set str \<Longrightarrow> pieces d str = [str]"
  by (induction str) auto

lemma pieces_delim: "d \<notin> set p \<Longrightarrow> pieces d (p @ d # rest) = p # pieces d rest"
  by (induction p) auto

text \<open>What \<open>Split\<close> returns: the non-empty pieces, and the last piece whatever it is.\<close>

definition Split_spec :: "char \<Rightarrow> string \<Rightarrow> string list" where
  "Split_spec d str = filter (\<lambda>p. p \<noteq> []) (butlast (pieces d str)) @ [last (pieces d str)]"

lemma Split_spec_none: "d \<notin> set str \<Longrightarrow> Split_spec d str = [str]"
  by (simp add: Split_spec_def pieces_none)

lemma Split_spec_delim:
  "d \<notin> set p \<Longrightarrow> Split_spec d (p @ d # rest) = (if p = [] then [] else [p]) @ Split_spec d rest"
  by (simp add: Split_spec_def pieces_delim)

lemma Split_spec_delim_first: "Split_spec d (d # rest) = Split_spec d rest"
  using Split_spec_delim [of d "[]" rest] by simp

section \<open>Searching\<close>

lemma str_find_absent:
  "d \<notin> set (drop s str) \<Longrightarrow> str_find str d s = npos"
proof (induction str d s rule: str_find.induct)
  case (1 str d s)
  then show ?case
    by (subst str_find.simps) (auto simp: Cons_nth_drop_Suc [symmetric])
qed

lemma str_find_present:
  "drop s str = p @ d # rest \<Longrightarrow> d \<notin> set p \<Longrightarrow> str_find str d s = s + length p"
proof (induction p arbitrary: s)
  case Nil
  then have "s < length str" "str ! s = d"
    by (auto simp: nth_via_drop intro: ccontr [where P = "s < length str"])
  then show ?case by (simp add: str_find.simps [of str d s])
next
  case (Cons c p)
  then have s: "s < length str" "str ! s = c"
    by (auto simp: nth_via_drop intro: ccontr [where P = "s < length str"])
  have "drop (Suc s) str = p @ d # rest"
    using Cons.prems(1) by (metis append_Cons drop_Suc list.sel(3) tl_drop)
  with Cons s show ?case by (auto simp: str_find.simps [of str d s])
qed

lemma drop_piece:
  assumes "drop s str = p @ d # rest"
  shows "take (length p) (drop s str) = p" and "drop (s + length p + 1) str = rest"
    and "s + length p < length str" and "s \<le> length str"
proof -
  have len: "length str - s = length p + 1 + length rest"
    using arg_cong [OF assms, of length] by simp
  then show "s + length p < length str" "s \<le> length str" by arith+
  show "take (length p) (drop s str) = p" by (simp add: assms)
  have "drop (length p + 1) (drop s str) = rest" by (simp add: assms)
  then show "drop (s + length p + 1) str = rest" by (simp add: add.commute add.left_commute)
qed

text \<open>The two cases of one search.\<close>

lemma search_cases:
  obtains (absent) "d \<notin> set (drop s str)"
  | (present) p rest where "drop s str = p @ d # rest" "d \<notin> set p"
  by (meson split_list_first)

section \<open>Split always returns\<close>

lemma Split_loop_spec:
  assumes "length str < npos" and "s \<le> length str"
  shows "Split_loop str d s tokens = Some (Inr (tokens @ Split_spec d (drop s str)))"
  using assms(2)
proof (induction "length str - s" arbitrary: s tokens rule: less_induct)
  case less
  show ?case
  proof (cases d s str rule: search_cases)
    case absent
    then show ?thesis
      using less(2) assms(1)
      by (simp add: Split_loop.simps [of str d s] str_find_absent Let_def substr_def Split_spec_none)
  next
    case (present p rest)
    note dp = drop_piece [OF present(1)]
    have find: "str_find str d s = s + length p" by (rule str_find_present [OF present])
    have "Split_loop str d (s + length p + 1) toks =
        Some (Inr (toks @ Split_spec d (drop (s + length p + 1) str)))" for toks
      by (rule less(1)) (use dp(3) in simp_all)
    note rec = this [unfolded dp(2)]
    have "s + length p \<noteq> npos" using dp(3) assms(1) by simp
    then show ?thesis
      using rec less(2) dp(1)
      by (cases "p = []")
        (simp_all add: Split_loop.simps [of str d s] find Let_def substr_def present(1)
          Split_spec_delim [OF present(2)] Split_spec_delim_first)
  qed
qed

text \<open>
  \<open>Split\<close> returns on every string (shorter than \<open>npos\<close>, as every C++ string is), never
  raises, and its result is the non-empty pieces followed by the last piece, empty or not. In
  particular it is never an empty list, so the test \<open>tokens.size() == 0\<close> of the
  command loop never holds, not even on an empty line.
\<close>

theorem Split_returns:
  "length str < npos \<Longrightarrow>
     Split str d = Some (Inr (filter (\<lambda>p. p \<noteq> []) (butlast (pieces d str)) @ [last (pieces d str)]))"
  using Split_loop_spec [of str 0 d "[]"] by (simp add: Split_def Split_spec_def)

theorem Split_returns_witness:
  "Split ''  client_add x '' (CHR '' '') = Some (Inr [''client_add'', ''x'', []])"
  using Split_returns [of "''  client_add x ''" "CHR '' ''"] by (simp add: npos_def)

section \<open>The DB servers' splitter\<close>

lemma db_split_loop_returns:
  assumes "length str < npos" and "s \<le> length str" and "[] \<notin> set (butlast (pieces d (drop s str)))"
  shows "db_split_loop str d s v = Some (Inr (v @ pieces d (drop s str)))"
  using assms(2,3)
proof (induction "length str - s" arbitrary: s v rule: less_induct)
  case less
  show ?case
  proof (cases d s str rule: search_cases)
    case absent
    then show ?thesis
      using less(2) assms(1)
      by (simp add: db_split_loop.simps [of str d s] str_find_absent Let_def substr_def pieces_none)
  next
    case (present p rest)
    note dp = drop_piece [OF present(1)]
    have find: "str_find str d s = s + length p" by (rule str_find_present [OF present])
    have ne: "p \<noteq> []" and rest: "[] \<notin> set (butlast (pieces d rest))"
      using less(3) by (auto simp: present(1) pieces_delim [OF present(2)])
    have "db_split_loop str d (s + length p + 1) w =
        Some (Inr (w @ pieces d (drop (s + length p + 1) str)))" for w
      by (rule less(1)) (use dp rest in simp_all)
    note rec = this [unfolded dp(2)]
    have "s + length p \<noteq> npos" using dp(3) assms(1) by simp
    then show ?thesis
      using rec less(2) dp(1) ne
      by (simp add: db_split_loop.simps [of str d s] find Let_def substr_def present(1)
          pieces_delim [OF present(2)])
  qed
qed

text \<open>If it returns, no piece but the last was empty: on an empty piece the position stays.\<close>

lemma db_split_loop_hangs:
  assumes ret: "db_split_loop str d s v = Some r" and "length str < npos"
  shows "[] \<notin> set (butlast (pieces d (drop s str)))"
proof -
  have "length str < npos \<longrightarrow> [] \<notin> set (butlast (pieces d (drop s str)))"
  proof (rule db_split_loop.raw_induct
    [where P = "\<lambda>str d s v r. length str < npos \<longrightarrow> [] \<notin> set (butlast (pieces d (drop s str)))",
      OF _ ret], rule impI)
    fix f str d s v r
    assume IH: "\<And>str d s v r. f str d s v = Some r \<Longrightarrow>
        length str < npos \<longrightarrow> [] \<notin> set (butlast (pieces d (drop s str)))"
      and eq: "(let e = str_find str d s in
        if e \<noteq> npos then
          if e \<noteq> s then
            (case substr str s (e - s) of
               Inl x \<Rightarrow> Some (Inl x)
             | Inr t \<Rightarrow> f str d (e + 1) (v @ [t]))
          else f str d s v
        else Some (if e \<noteq> s then bindE (substr str s npos) (\<lambda>t. Inr (v @ [t])) else Inr v)) = Some r"
      and len: "length str < npos"
    show "[] \<notin> set (butlast (pieces d (drop s str)))"
    proof (cases d s str rule: search_cases)
      case absent
      then show ?thesis by (simp add: pieces_none)
    next
      case (present p rest)
      note dp = drop_piece [OF present(1)]
      have find: "str_find str d s = s + length p" by (rule str_find_present [OF present])
      have nn: "s + length p \<noteq> npos" using dp(3) len by simp
      show ?thesis
      proof (cases "p = []")
        case True
        with eq nn have "f str d s v = Some r" by (simp add: find Let_def)
        then show ?thesis using IH len by blast
      next
        case False
        with eq nn dp(4) have "f str d (s + length p + 1) (v @ [p]) = Some r"
          by (simp add: find Let_def substr_def dp(1))
        then have "[] \<notin> set (butlast (pieces d (drop (s + length p + 1) str)))"
          using IH len by blast
        with False show ?thesis
          unfolding dp(2) by (simp add: present(1) pieces_delim [OF present(2)])
      qed
    qed
  qed
  with assms(2) show ?thesis by blast
qed

text \<open>
  C39. The servers' \<open>split\<close>: it returns exactly when no piece except possibly the last is
  empty, and then returns the pieces as they are; on a leading delimiter or two
  delimiters in a row it loops for ever.
\<close>

theorem db_split_returns_iff:
  "length str < npos \<Longrightarrow>
     db_split str d =
       (if [] \<in> set (butlast (pieces d str)) then None else Some (Inr (pieces d str)))"
  using db_split_loop_returns [of str 0 d "[]"] db_split_loop_hangs [of str d 0 "[]"]
  by (cases "db_split_loop str d 0 []") (auto simp: db_split_def)

theorem db_split_returns_iff_witness:
  "db_split ''a:1,b:2'' (CHR '','') = Some (Inr [''a:1'', ''b:2'']) \<and>
   db_split ''a:1,,b:2'' (CHR '','') = None"
  using db_split_returns_iff [of "''a:1,b:2''" "CHR '',''"]
    db_split_returns_iff [of "''a:1,,b:2''" "CHR '',''"] by (simp add: npos_def)

text \<open>
  The two splitters agree on every string on which the servers' one returns.
\<close>

lemma splitters_agree:
  assumes "length str < npos" and "db_split str d = Some r"
  shows "Split str d = Some r"
proof -
  have "[] \<notin> set (butlast (pieces d str))" and r: "r = Inr (pieces d str)"
    using assms db_split_loop_returns [of str 0 d "[]"] db_split_loop_hangs [of str d 0 "[]"]
    by (auto simp: db_split_def)
  then have "filter (\<lambda>p. p \<noteq> []) (butlast (pieces d str)) = butlast (pieces d str)"
    by (intro filter_True) auto
  then show ?thesis
    using assms(1) r Split_loop_spec [of str 0 d "[]"] by (simp add: Split_def Split_spec_def)
qed

end
