(* ===== verification/StatsCollector.thy ===== *)
theory StatsCollector
  imports Prelude "HOL-Library.Signed_Division"
begin

text \<open>
  The class \<open>StatsCollector\<close> of \<open>StorageRpc/Client.cpp\<close>: a table of per-client statistics that the
  benchmark threads update and a dump thread prints. Every operation holds the mutex for its
  whole body, so a run of the threads is a sequence of atomic operations. The hash
  table is a list of entries with distinct keys in its iteration order, which C++ leaves open:
  what \<open>DumpInfo\<close> prints in total is shown not to depend on it.
\<close>

section \<open>State\<close>

record Stats =
  start :: int
  current_queue_depth :: u64
  current_iops :: u64
  total_ios :: u64
  total_updates :: u64

definition Stats_new :: "int \<Rightarrow> Stats" where
  "Stats_new now = \<lparr>start = now, current_queue_depth = 0, current_iops = 0, total_ios = 0, total_updates = 0\<rparr>"

record StatsCollector =
  stats :: "(u64 \<times> Stats) list"
  stop :: bool
  thread_started :: bool

definition StatsCollector_new :: StatsCollector where
  "StatsCollector_new = \<lparr>stats = [], stop = False, thread_started = False\<rparr>"

section \<open>Operations\<close>

definition StartDumpThread :: "StatsCollector \<Rightarrow> StatsCollector" where
  "StartDumpThread sc = sc\<lparr>thread_started := True\<rparr>"

text \<open>The destructor joins the dump thread; joining a thread that was never started throws.\<close>

definition StatsCollector_delete :: "StatsCollector \<Rightarrow> StatsCollector result" where
  "StatsCollector_delete sc =
     (let sc = sc\<lparr>stop := True\<rparr> in if thread_started sc then Inr sc else Inl Std_Terminate)"

definition ClientAdd :: "u64 \<Rightarrow> int \<Rightarrow> StatsCollector \<Rightarrow> StatsCollector result" where
  "ClientAdd client_id now sc =
     assertE (map_of (stats sc) client_id = None)
       (Inr (sc\<lparr>stats := (client_id, Stats_new now) # stats sc\<rparr>))"

definition update_entry :: "u64 \<Rightarrow> u64 \<Rightarrow> u64 \<Rightarrow> Stats \<Rightarrow> Stats" where
  "update_entry queue_depth iops new_ios st =
     st\<lparr>current_queue_depth := queue_depth, current_iops := iops,
        total_ios := total_ios st + new_ios, total_updates := total_updates st + 1\<rparr>"

definition Update :: "u64 \<Rightarrow> u64 \<Rightarrow> u64 \<Rightarrow> u64 \<Rightarrow> StatsCollector \<Rightarrow> StatsCollector result" where
  "Update client_id queue_depth iops new_ios sc =
     assertE (map_of (stats sc) client_id \<noteq> None)
       (Inr (sc\<lparr>stats := map (\<lambda>(i, st). (i, if i = client_id then update_entry queue_depth iops new_ios st
                                        else st)) (stats sc)\<rparr>))"

text \<open>
  \<open>DumpInfo\<close>. The sums are \<open>int\<close>: adding a 64-bit counter converts the sum to 64 bits, adds and
  truncates back to 32. The averages are signed divisions by the number of clients.
\<close>

record dump =
  dump_lines :: "(u64 \<times> int \<times> u64 \<times> u64 \<times> u64 \<times> u64) list"
  dump_averages :: "(int \<times> int) option"   \<comment> \<open>IOPS and queue depth, when there are clients\<close>

definition add_int :: "u32 \<Rightarrow> u64 \<Rightarrow> u32" where
  "add_int a x = ucast ((scast a :: u64) + x)"

definition seconds_between :: "int \<Rightarrow> int \<Rightarrow> int" where
  "seconds_between e s = (e - s) sdiv 1000000000"

definition dump_line :: "int \<Rightarrow> u64 \<times> Stats \<Rightarrow> u64 \<times> int \<times> u64 \<times> u64 \<times> u64 \<times> u64" where
  "dump_line now c =
     (fst c, seconds_between now (start (snd c)), current_queue_depth (snd c), current_iops (snd c),
      total_ios (snd c), total_updates (snd c))"

definition DumpInfo :: "int \<Rightarrow> StatsCollector \<Rightarrow> dump" where
  "DumpInfo now sc =
     (let cur_iops = fold (\<lambda>c a. add_int a (current_iops (snd c))) (stats sc) 0;
          cur_depth = fold (\<lambda>c a. add_int a (current_queue_depth (snd c))) (stats sc) 0;
          clients = (of_nat (length (stats sc)) :: u32) in
      \<lparr>dump_lines = map (dump_line now) (stats sc),
       dump_averages = (if clients \<noteq> 0 then Some (sint cur_iops sdiv sint clients, sint cur_depth sdiv sint clients)
                        else None)\<rparr>)"

text \<open>
  The dump thread: at the head of each round it reads \<open>stop\<close>, sleeps, and dumps what it
  finds then. The argument lists what the rounds see.
\<close>

fun Run :: "(bool \<times> int \<times> StatsCollector) list \<Rightarrow> dump list" where
  "Run [] = []"
| "Run ((stopped, now, sc) # rest) = (if stopped then [] else DumpInfo now sc # Run rest)"

section \<open>The operations as atomic steps\<close>

datatype stats_op = Add u64 int | Upd u64 u64 u64 u64

definition stats_step :: "stats_op \<Rightarrow> StatsCollector \<Rightarrow> StatsCollector result" where
  "stats_step op sc =
     (case op of Add i now \<Rightarrow> ClientAdd i now sc | Upd i qd iops n \<Rightarrow> Update i qd iops n sc)"

definition keys_distinct :: "StatsCollector \<Rightarrow> bool" where
  "keys_distinct sc \<longleftrightarrow> distinct (map fst (stats sc))"

lemma map_of_update_all:
  "map_of (map (\<lambda>(i, st). (i, if i = k then f st else st)) xs) j =
     (if j = k then map_option f (map_of xs j) else map_of xs j)"
  by (induction xs) auto

lemma stats_step_distinct: "stats_step op sc = Inr sc' \<Longrightarrow> keys_distinct sc \<Longrightarrow> keys_distinct sc'"
  by (auto simp: stats_step_def ClientAdd_def Update_def keys_distinct_def map_of_eq_None_iff
      comp_def split_beta result_simps split: stats_op.splits)

lemma stats_step_lookup:
  assumes "stats_step op sc = Inr sc'"
  shows "map_of (stats sc') j =
    (case op of
       Add i now \<Rightarrow> if j = i then Some (Stats_new now) else map_of (stats sc) j
     | Upd i qd iops n \<Rightarrow> if j = i then map_option (update_entry qd iops n) (map_of (stats sc) j)
                          else map_of (stats sc) j)"
  using assms
  by (auto simp: stats_step_def ClientAdd_def Update_def result_simps map_of_update_all split: stats_op.splits)

section \<open>Accounting under any interleaving\<close>

text \<open>What one client's own operations make of its entry.\<close>

fun own :: "u64 \<Rightarrow> stats_op \<Rightarrow> bool" where
  "own j (Add i _) = (i = j)"
| "own j (Upd i _ _ _) = (i = j)"

fun new_ios_of :: "stats_op \<Rightarrow> u64" where
  "new_ios_of (Add _ _) = 0"
| "new_ios_of (Upd _ _ _ n) = n"

definition is_upd :: "stats_op \<Rightarrow> bool" where
  "is_upd op \<longleftrightarrow> (\<exists>i qd iops n. op = Upd i qd iops n)"

lemma is_upd_simps [simp]: "\<not> is_upd (Add i now)" "is_upd (Upd i qd iops n)"
  by (simp_all add: is_upd_def)

lemma accounting_from:
  assumes "foldE stats_step ops sc = Inr sc'" and "map_of (stats sc) j = Some st"
  shows "\<exists>st'. map_of (stats sc') j = Some st' \<and> start st' = start st \<and>
    total_ios st' = total_ios st + sum_list (map new_ios_of (filter (own j) ops)) \<and>
    total_updates st' = total_updates st + of_nat (length (filter (\<lambda>op. own j op \<and> is_upd op) ops))"
  using assms
proof (induction ops arbitrary: sc st)
  case (Cons op ops)
  then obtain sc1 where s: "stats_step op sc = Inr sc1" "foldE stats_step ops sc1 = Inr sc'"
    by (auto simp: result_simps)
  show ?case
  proof (cases op)
    case (Add i now)
    with s(1) Cons.prems(2) have "i \<noteq> j"
      by (auto simp: stats_step_def ClientAdd_def result_simps)
    moreover from this have "map_of (stats sc1) j = Some st"
      using stats_step_lookup [OF s(1), of j] Cons.prems(2) Add by simp
    ultimately show ?thesis using Cons.IH [OF s(2)] Add by simp
  next
    case (Upd i qd iops n)
    show ?thesis
    proof (cases "i = j")
      case True
      then have "map_of (stats sc1) j = Some (update_entry qd iops n st)"
        using stats_step_lookup [OF s(1), of j] Cons.prems(2) Upd by simp
      with Cons.IH [OF s(2)] True Upd show ?thesis
        by (fastforce simp: update_entry_def algebra_simps)
    next
      case False
      then have "map_of (stats sc1) j = Some st"
        using stats_step_lookup [OF s(1), of j] Cons.prems(2) Upd by simp
      with Cons.IH [OF s(2)] False Upd show ?thesis by simp
    qed
  qed
qed simp

lemma added_entry:
  assumes "foldE stats_step (Add j now # ops) sc = Inr sc'"
  shows "\<exists>st. map_of (stats sc') j = Some st \<and> start st = now \<and>
    total_ios st = sum_list (map new_ios_of (filter (own j) ops)) \<and>
    total_updates st = of_nat (length (filter (\<lambda>op. own j op \<and> is_upd op) ops))"
proof -
  from assms obtain sc1 where s: "stats_step (Add j now) sc = Inr sc1" "foldE stats_step ops sc1 = Inr sc'"
    by (auto simp: result_simps)
  have "map_of (stats sc1) j = Some (Stats_new now)"
    using stats_step_lookup [OF s(1), of j] by simp
  from accounting_from [OF s(2) this] show ?thesis by (simp add: Stats_new_def)
qed

text \<open>
  Accounting. However the operations of the benchmark threads interleave, the entry of a
  client counts exactly its own updates since it was added and sums exactly its own new
  IOs (modulo 2 to the 64): nothing another thread does is lost into or added to it.
\<close>

theorem client_accounting:
  assumes "foldE stats_step (Add j now # ops) sc = Inr sc'"
  shows "\<exists>st. map_of (stats sc') j = Some st \<and> start st = now \<and>
    total_ios st = sum_list (map new_ios_of (filter (own j) ops)) \<and>
    total_updates st = of_nat (length (filter (\<lambda>op. own j op \<and> is_upd op) ops))"
  by (rule added_entry [OF assms])

theorem client_accounting_witness:
  "\<exists>sc' st. foldE stats_step [Add 1 0, Add 2 0, Upd 1 1 5 5, Upd 2 1 9 9, Upd 1 2 7 7] StatsCollector_new = Inr sc' \<and>
     map_of (stats sc') 1 = Some st \<and> total_ios st = 12 \<and> total_updates st = 2"
proof -
  have "\<exists>sc'. foldE stats_step [Add 1 0, Add 2 0, Upd 1 1 5 5, Upd 2 1 9 9, Upd 1 2 7 7] StatsCollector_new = Inr sc'"
    by (simp add: stats_step_def ClientAdd_def Update_def StatsCollector_new_def)
  then show ?thesis
    using client_accounting [of 1 0 "[Add 2 0, Upd 1 1 5 5, Upd 2 1 9 9, Upd 1 2 7 7]" StatsCollector_new]
    by auto
qed

section \<open>All clients and their collector\<close>

text \<open>
  The operations of several clients, each client's in its order: every operation is one of a client of
  \<open>cs\<close>, and those of a client \<open>c\<close> are \<open>trace c\<close>.
\<close>

definition interleaves :: "(u64 \<Rightarrow> stats_op list) \<Rightarrow> u64 set \<Rightarrow> stats_op list \<Rightarrow> bool" where
  "interleaves trace cs ops \<longleftrightarrow> (\<forall>op \<in> set ops. \<exists>c \<in> cs. own c op) \<and> (\<forall>c \<in> cs. filter (own c) ops = trace c)"

text \<open>A client that follows the protocol of the collector adds itself once, and only then updates its entry.\<close>

definition orderly :: "u64 \<Rightarrow> stats_op list \<Rightarrow> bool" where
  "orderly c ops \<longleftrightarrow> filter (own c) ops = [] \<or> (\<exists>a us. filter (own c) ops = Add c a # us \<and> (\<forall>u \<in> set us. is_upd u))"

lemma orderly_butlast: "orderly c (ops @ [op]) \<Longrightarrow> orderly c ops"
  by (cases "filter (own c) ops") (auto simp: orderly_def split: if_splits)

lemma own_cases: "own c op \<longleftrightarrow> (\<exists>a. op = Add c a) \<or> (\<exists>qd iops n. op = Upd c qd iops n)"
  by (cases op) auto

lemma orderly_run:
  assumes "\<And>c. orderly c ops" and "stats sc0 = []"
  shows "\<exists>sc. foldE stats_step ops sc0 = Inr sc \<and> keys_distinct sc \<and> (\<forall>c. c \<in> fst ` set (stats sc) \<longleftrightarrow> filter (own c) ops \<noteq> [])"
  using assms(1)
proof (induction ops rule: rev_induct)
  case Nil
  with assms(2) show ?case by (simp add: keys_distinct_def)
next
  case (snoc op ops)
  from snoc.IH [OF orderly_butlast [OF snoc.prems]] obtain sc where sc: "foldE stats_step ops sc0 = Inr sc"
    "keys_distinct sc" "\<And>c. c \<in> fst ` set (stats sc) \<longleftrightarrow> filter (own c) ops \<noteq> []" by blast
  have "\<exists>sc'. stats_step op sc = Inr sc' \<and> (\<forall>c. c \<in> fst ` set (stats sc') \<longleftrightarrow> c \<in> fst ` set (stats sc) \<or> own c op)"
  proof (cases op)
    case (Add i now)
    have "filter (own i) ops = []" using snoc.prems [of i] by (cases "filter (own i) ops") (auto simp: Add orderly_def)
    then have "i \<notin> fst ` set (stats sc)" by (simp add: sc(3))
    then have "map_of (stats sc) i = None" by (simp add: map_of_eq_None_iff)
    then show ?thesis by (auto simp: Add stats_step_def ClientAdd_def)
  next
    case (Upd i qd iops n)
    have "filter (own i) ops \<noteq> []" using snoc.prems [of i] by (auto simp: Upd orderly_def)
    then have "i \<in> fst ` set (stats sc)" by (simp add: sc(3))
    then have "map_of (stats sc) i \<noteq> None" by (simp add: map_of_eq_None_iff)
    with \<open>i \<in> fst ` set (stats sc)\<close> show ?thesis
      by (auto simp: Upd stats_step_def Update_def image_image split_beta)
  qed
  then obtain sc' where sc': "stats_step op sc = Inr sc'"
    "\<And>c. c \<in> fst ` set (stats sc') \<longleftrightarrow> c \<in> fst ` set (stats sc) \<or> own c op" by blast
  then show ?case
    using sc(1,3) stats_step_distinct [OF sc'(1) sc(2)] by (auto simp: foldE_append)
qed

text \<open>
  What a benchmark thread promises: the operations on the collector of a run are its own, an addition and then
  updates, whose new IOs add up, with those not reported yet, to what it has sent.
\<close>

locale reporting_client =
  fixes valid :: "'inp \<Rightarrow> bool"
    and run :: "u64 \<Rightarrow> int \<Rightarrow> 'inp \<Rightarrow> 's option"
    and trace :: "'s \<Rightarrow> stats_op list"
    and unreported :: "'s \<Rightarrow> u64"
    and sent :: "'s \<Rightarrow> u64"
  assumes reports: "valid inp \<Longrightarrow> run c a inp = Some s \<Longrightarrow>
    \<exists>us. trace s = Add c a # us \<and> (\<forall>u \<in> set us. own c u \<and> is_upd u) \<and>
      sum_list (map new_ios_of us) + unreported s = sent s"
begin

lemma orderly_trace:
  assumes "valid inp" and "run c a inp = Some s" and "filter (own c) ops = trace s"
  shows "orderly c ops"
  using reports [OF assms(1,2)] assms(3) by (auto simp: orderly_def)

lemma entry:
  assumes r: "valid inp" "run c a inp = Some s" and f: "filter (own c) ops = trace s"
    and sc: "foldE stats_step ops sc0 = Inr sc"
  shows "\<exists>st. map_of (stats sc) c = Some st \<and> start st = a \<and> total_ios st + unreported s = sent s \<and>
    total_updates st = of_nat (length (trace s) - 1)"
proof -
  obtain us where us: "trace s = Add c a # us" "\<forall>u \<in> set us. own c u \<and> is_upd u"
    "sum_list (map new_ios_of us) + unreported s = sent s" using reports [OF r] by blast
  from f us(1) have "filter (own c) ops = Add c a # us" by simp
  then obtain pre post where ops: "ops = pre @ Add c a # post" "filter (own c) post = us"
    by (auto simp: filter_eq_Cons_iff)
  from sc obtain sc1 where "foldE stats_step (Add c a # post) sc1 = Inr sc"
    by (auto simp: ops(1) foldE_append result_simps simp del: foldE.simps)
  from added_entry [OF this] obtain st where st: "map_of (stats sc) c = Some st" "start st = a"
    "total_ios st = sum_list (map new_ios_of us)"
    "total_updates st = of_nat (length (filter (\<lambda>op. own c op \<and> is_upd op) post))"
    by (auto simp: ops(2))
  have "filter (\<lambda>op. own c op \<and> is_upd op) post = filter is_upd us"
    by (simp add: ops(2) [symmetric] filter_filter conj_commute)
  also have "\<dots> = us" using us(2) by (simp add: filter_id_conv)
  finally show ?thesis using st us by simp
qed

text \<open>However the clients of a process interleave, no assertion of the collector fails, and it counts each of them exactly.\<close>

lemma process:
  assumes runs: "\<And>c. c \<in> cs \<Longrightarrow> valid (inp c) \<and> run c (a c) (inp c) = Some (s c)"
    and ops: "interleaves (\<lambda>c. trace (s c)) cs ops" and empty: "stats sc0 = []"
  shows "\<exists>sc. foldE stats_step ops sc0 = Inr sc \<and> fst ` set (stats sc) = cs \<and> distinct (map fst (stats sc)) \<and>
    (\<forall>c \<in> cs. \<exists>st. map_of (stats sc) c = Some st \<and> start st = a c \<and> total_ios st + unreported (s c) = sent (s c) \<and>
       total_updates st = of_nat (length (trace (s c)) - 1))"
proof -
  have own: "filter (own c) ops = trace (s c)" if "c \<in> cs" for c using ops that by (simp add: interleaves_def)
  have other: "filter (own c) ops = []" if "c \<notin> cs" for c
    using ops that by (auto simp: interleaves_def own_cases filter_empty_conv)
  have "orderly c ops" for c
  proof (cases "c \<in> cs")
    case True
    with orderly_trace [of "inp c" c "a c" "s c" ops] runs own show ?thesis by simp
  qed (simp add: orderly_def other)
  from orderly_run [OF this empty] obtain sc where sc: "foldE stats_step ops sc0 = Inr sc" "keys_distinct sc"
    "\<And>c. c \<in> fst ` set (stats sc) \<longleftrightarrow> filter (own c) ops \<noteq> []" by blast
  have "trace (s c) \<noteq> []" if "c \<in> cs" for c using reports [of "inp c" c "a c" "s c"] runs that by auto
  then have "fst ` set (stats sc) = cs" using own other sc(3) by fastforce
  moreover have "\<forall>c \<in> cs. \<exists>st. map_of (stats sc) c = Some st \<and> start st = a c \<and>
      total_ios st + unreported (s c) = sent (s c) \<and> total_updates st = of_nat (length (trace (s c)) - 1)"
    using entry [OF _ _ own sc(1)] runs by blast
  ultimately show ?thesis using sc(1,2) by (auto simp: keys_distinct_def)
qed

end

section \<open>What DumpInfo prints\<close>

lemma add_int_arith:
  "((a + 2147483648) mod 4294967296 - 2147483648 + x) mod 18446744073709551616 mod 4294967296 =
    (a + x mod 18446744073709551616) mod (4294967296 :: int)"
proof -
  have "(4294967296 :: int) dvd 18446744073709551616" by simp
  note cancel = mod_mod_cancel [OF this]
  have "(a + x mod 18446744073709551616) mod (4294967296 :: int) =
      (a + x mod 18446744073709551616 mod 4294967296) mod 4294967296"
    by (simp only: mod_add_right_eq)
  also have "\<dots> = (a + x) mod 4294967296" by (simp only: cancel mod_add_right_eq)
  finally have r: "(a + x mod 18446744073709551616) mod (4294967296 :: int) = (a + x) mod 4294967296" .
  have "((a + 2147483648) mod 4294967296 - 2147483648 + x) mod 4294967296 =
      ((a + 2147483648) mod 4294967296 + (x - 2147483648)) mod (4294967296 :: int)"
    by (simp add: algebra_simps)
  also have "\<dots> = (a + x) mod 4294967296" by (simp add: mod_add_left_eq)
  finally show ?thesis by (simp only: cancel r)
qed

lemma add_int_eq: "add_int a x = a + ucast x"
  unfolding add_int_def
  by transfer (simp add: take_bit_eq_mod signed_take_bit_eq_take_bit_shift add_int_arith)

lemma fold_add_int:
  "fold (\<lambda>c a. add_int a (f c)) xs a = a + of_nat (sum_list (map (\<lambda>c. unat (f c)) xs))"
  by (induction xs arbitrary: a) (simp_all add: add_int_eq algebra_simps)

definition sum_iops :: "StatsCollector \<Rightarrow> nat" where
  "sum_iops sc = sum_list (map (\<lambda>c. unat (current_iops (snd c))) (stats sc))"

definition sum_depth :: "StatsCollector \<Rightarrow> nat" where
  "sum_depth sc = sum_list (map (\<lambda>c. unat (current_queue_depth (snd c))) (stats sc))"

lemma sdiv_of_nat: "int a sdiv int b = int (a div b)"
  by (cases "a = 0"; cases "b = 0") (simp_all add: signed_divide_int_def zdiv_int)

lemma averages_eq:
  assumes "0 < length (stats sc)" and "length (stats sc) < 2 ^ 31"
  shows "dump_averages (DumpInfo now sc) =
    Some (sint (of_nat (sum_iops sc) :: u32) sdiv int (length (stats sc)),
          sint (of_nat (sum_depth sc) :: u32) sdiv int (length (stats sc)))"
proof -
  have u: "unat (of_nat (length (stats sc)) :: u32) = length (stats sc)"
    by (rule unat_of_nat_u32) (use assms in simp)
  then have "(of_nat (length (stats sc)) :: u32) \<noteq> 0"
    using assms(1) by (metis unat_0 less_irrefl)
  moreover have "sint (of_nat (length (stats sc)) :: u32) = int (length (stats sc))"
    using assms(2) by (simp add: sint_of_nat_lt31)
  ultimately show ?thesis by (simp add: DumpInfo_def Let_def fold_add_int sum_iops_def sum_depth_def)
qed

text \<open>
  The printed averages are the averages, rounded down, as long as the sums over all
  clients stay below 2 to the 31; and the totals do not depend on the order in which the
  hash table is iterated.
\<close>

theorem dump_averages_exact:
  assumes "mset (stats sc) = mset (stats sc')"
    and "0 < length (stats sc)" and "length (stats sc) < 2 ^ 31"
    and "sum_iops sc < 2 ^ 31" and "sum_depth sc < 2 ^ 31"
  shows "dump_averages (DumpInfo now sc') =
    Some (int (sum_iops sc div length (stats sc)), int (sum_depth sc div length (stats sc)))"
proof -
  have len: "length (stats sc') = length (stats sc)" using assms(1) by (metis size_mset)
  have sums: "sum_iops sc' = sum_iops sc" "sum_depth sc' = sum_depth sc"
    unfolding sum_iops_def sum_depth_def by (rule sum_list_perm, simp add: assms(1))+
  show ?thesis
    using averages_eq [of sc' now] assms(2-5) sums len
    by (simp add: sint_of_nat_lt31 sdiv_of_nat)
qed

definition two_clients :: StatsCollector where
  "two_clients = \<lparr>stats = [(1, (Stats_new 0)\<lparr>current_iops := 10\<rparr>), (2, (Stats_new 0)\<lparr>current_iops := 15\<rparr>)],
                  stop = False, thread_started = True\<rparr>"

theorem dump_averages_exact_witness:
  "dump_averages (DumpInfo 5 (two_clients\<lparr>stats := rev (stats two_clients)\<rparr>)) = Some (12, 0)"
  using dump_averages_exact [of two_clients "two_clients\<lparr>stats := rev (stats two_clients)\<rparr>" 5]
  by (simp add: two_clients_def sum_iops_def sum_depth_def Stats_new_def flip: numeral_2_eq_2)

text \<open>
  Overflow of the sums. The sums are 32-bit: with no bound on the counters the printed
  average of IOPS is the two's complement value of the sum modulo 2 to the 32 divided
  towards zero, so three clients with a thousand million IOPS each print a negative average.
\<close>

theorem dump_averages_wrap:
  assumes "0 < length (stats sc)" and "length (stats sc) < 2 ^ 31"
  shows "map_option fst (dump_averages (DumpInfo now sc)) =
    Some (sint (of_nat (sum_iops sc) :: u32) sdiv int (length (stats sc)))"
  using averages_eq [OF assms, of now] by simp

theorem dump_averages_wrap_witness:
  "map_option fst (dump_averages (DumpInfo 0
     \<lparr>stats = map (\<lambda>i. (i, (Stats_new 0)\<lparr>current_iops := 1000000000\<rparr>)) [1, 2, 3],
      stop = False, thread_started = True\<rparr>)) = Some (- 431655765)"
  by (subst dump_averages_wrap) (simp_all add: sum_iops_def Stats_new_def signed_divide_int_def)

end
