(* ===== verification/RpcServer.thy ===== *)
theory RpcServer
  imports Prelude
begin

text \<open>
  \<open>StorageRpc/Server.cpp\<close>: the storage service. A handler gets a callback that must be completed with one
  result; a handler is the function from the call to that result. The interface that clients
  rely on, that a reply carries the identifier of its request, is the locale \<open>rpc_service\<close>.
\<close>

section \<open>The interface\<close>

locale rpc_service =
  fixes serve :: "'req \<Rightarrow> 'resp"
    and rid :: "'req \<Rightarrow> u64"
    and resp_rid :: "'resp \<Rightarrow> u64"
  assumes answers: "resp_rid (serve r) = rid r"
begin

text \<open>
  Calls may be completed in any order: whatever the order, the identifiers of the
  replies are those of the calls, each as often as it was used.
\<close>

lemma replies_answer_calls:
  assumes "mset replies = image_mset serve (mset calls)"
  shows "image_mset resp_rid (mset replies) = image_mset rid (mset calls)"
  unfolding assms by (simp add: answers image_mset.compositionality comp_def)

lemma distinct_calls_matched:
  assumes "mset replies = image_mset serve (mset calls)" and "distinct (map rid calls)"
    and "resp \<in> set replies"
  shows "\<exists>!c. c \<in> set calls \<and> rid c = resp_rid resp"
proof -
  have "resp \<in> serve ` set calls"
    using assms(1,3) by (metis set_image_mset set_mset_mset)
  then obtain c where c: "c \<in> set calls" "resp = serve c" by blast
  have "c' = c" if "c' \<in> set calls" "rid c' = resp_rid resp" for c'
    using assms(2) c that by (auto simp: answers distinct_map inj_on_def)
  with c show ?thesis by (intro ex1I [of _ c]) (simp_all add: answers)
qed

end

section \<open>The service\<close>

datatype rpc_call =
    Call_Echo u64 bytes
  | Call_Send u64 bytes
  | Call_SendNoData u64

record EchoResult =
  echo_request_id :: u64
  echo_data :: bytes

record SendResult =
  send_request_id :: u64

text \<open>\<open>data\<close> is moved out of the argument into the result, not copied or changed.\<close>

definition async_tm_Echo :: "u64 \<Rightarrow> bytes \<Rightarrow> EchoResult" where
  "async_tm_Echo request_id data = (let d1 = data in \<lparr>echo_request_id = request_id, echo_data = d1\<rparr>)"

definition async_tm_Send :: "u64 \<Rightarrow> bytes \<Rightarrow> SendResult" where
  "async_tm_Send request_id data = \<lparr>send_request_id = request_id\<rparr>"

definition async_tm_SendNoData :: "u64 \<Rightarrow> SendResult" where
  "async_tm_SendNoData request_id = \<lparr>send_request_id = request_id\<rparr>"

datatype rpc_result = Result_Echo EchoResult | Result_Send SendResult

text \<open>The dispatch of the generated processor: each call of the service goes to its handler.\<close>

fun storage_serve :: "rpc_call \<Rightarrow> rpc_result" where
  "storage_serve (Call_Echo i d) = Result_Echo (async_tm_Echo i d)"
| "storage_serve (Call_Send i d) = Result_Send (async_tm_Send i d)"
| "storage_serve (Call_SendNoData i) = Result_Send (async_tm_SendNoData i)"

fun call_id :: "rpc_call \<Rightarrow> u64" where
  "call_id (Call_Echo i _) = i"
| "call_id (Call_Send i _) = i"
| "call_id (Call_SendNoData i) = i"

fun result_id :: "rpc_result \<Rightarrow> u64" where
  "result_id (Result_Echo r) = echo_request_id r"
| "result_id (Result_Send r) = send_request_id r"

text \<open>The length that the echo client checks; a send result has no data.\<close>

fun result_data_length :: "rpc_result \<Rightarrow> nat" where
  "result_data_length (Result_Echo r) = length (echo_data r)"
| "result_data_length (Result_Send r) = 0"

interpretation storage: rpc_service storage_serve call_id result_id
proof
  show "result_id (storage_serve r) = call_id r" for r
    by (cases r) (simp_all add: async_tm_Echo_def async_tm_Send_def async_tm_SendNoData_def)
qed

text \<open>
  The storage service: completing calls in any order answers every identifier as
  often as it was called, and an echo returns the very bytes that were sent.
\<close>

theorem storage_service_replies:
  assumes "mset replies = image_mset storage_serve (mset calls)"
  shows "image_mset result_id (mset replies) = image_mset call_id (mset calls) \<and>
    storage_serve (Call_Echo i d) = Result_Echo \<lparr>echo_request_id = i, echo_data = d\<rparr>"
  using storage.replies_answer_calls [OF assms] by (simp add: async_tm_Echo_def)

theorem storage_service_replies_witness:
  "image_mset result_id (mset [Result_Send \<lparr>send_request_id = 2\<rparr>, Result_Echo \<lparr>echo_request_id = 1, echo_data = [7]\<rparr>]) =
     {#1, 2#}"
  using storage_service_replies
    [of "[Result_Send \<lparr>send_request_id = 2\<rparr>, Result_Echo \<lparr>echo_request_id = 1, echo_data = [7]\<rparr>]"
        "[Call_Echo 1 [7], Call_SendNoData 2]"]
  by (simp add: async_tm_Echo_def async_tm_SendNoData_def add_mset_commute)

end
