(* ===== verification/RpcClient.thy ===== *)
theory RpcClient
  imports RpcServer Window StatsCollector StrSplit
begin

text \<open>
  \<open>StorageRpc/Client.cpp\<close>: the RPC benchmark client. \<open>BenchmarkEcho\<close> adapts its queue depth to an
  IOPS limit once a second (the other benchmarks and the command loop are in \<open>RpcSend\<close>). The event loop is an environment: each \<open>loopOnce\<close> delivers some replies,
  listed in the input of that round with the clock reading after it. The counters are
  64-bit words; the send loop's index is 32 bits wide as in the source.
\<close>

section \<open>Flags and state\<close>

record rpc_flags =
  queue_depth :: u64
  block_size :: u64
  requests :: u64
  unlimited :: bool
  iops_rate_limit :: u64

definition default_flags :: rpc_flags where
  "default_flags = \<lparr>queue_depth = 128, block_size = 4096, requests = 262144, unlimited = True,
                    iops_rate_limit = 1024\<rparr>"

record rpc_state =
  to_send :: u64
  rpc_id :: u64
  rpc_sent :: u64
  rpc_complete :: u64
  rpc_out :: u64
  calls :: "rpc_call list"          \<comment> \<open>the calls made on the client object, in order\<close>

record echo_state = rpc_state +
  current_depth :: u64
  ios_in_last_second :: u64
  iops_timer :: int
  stat_ops :: "stats_op list"       \<comment> \<open>the operations on the shared collector, in order\<close>

text \<open>Sending one request: the identifier is incremented, the call made, both counters incremented.\<close>

definition rpc_issue :: "(u64 \<Rightarrow> rpc_call) \<Rightarrow> 'a rpc_state_scheme \<Rightarrow> 'a rpc_state_scheme" where
  "rpc_issue call s =
     (let s = s\<lparr>rpc_id := rpc_id s + 1\<rparr>;
          s = s\<lparr>calls := calls s @ [call (rpc_id s)]\<rparr> in
      s\<lparr>rpc_out := rpc_out s + 1, rpc_sent := rpc_sent s + 1\<rparr>)"

text \<open>The continuation of a reply.\<close>

definition rpc_reply :: "'a rpc_state_scheme \<Rightarrow> 'a rpc_state_scheme" where
  "rpc_reply s = s\<lparr>rpc_complete := rpc_complete s + 1, rpc_out := rpc_out s - 1\<rparr>"

interpretation rpc: request_window rpc_sent rpc_out rpc_complete
  "\<lambda>s t. \<exists>call. t = rpc_issue call s" "\<lambda>s t. t = rpc_reply s"
  by unfold_locales (auto simp: rpc_issue_def rpc_reply_def Let_def)

lemma rpc_issue_frame:
  "to_send (rpc_issue call s) = to_send s"
  "calls (rpc_issue call s) = calls s @ [call (rpc_id s + 1)]"
  "rpc_id (rpc_issue call s) = rpc_id s + 1"
  "rpc_state.more (rpc_issue call s) = rpc_state.more s"
  by (simp_all add: rpc_issue_def Let_def)

lemma rpc_reply_frame:
  "to_send (rpc_reply s) = to_send s"
  "calls (rpc_reply s) = calls s"
  "rpc_id (rpc_reply s) = rpc_id s"
  "rpc_state.more (rpc_reply s) = rpc_state.more s"
  by (simp_all add: rpc_reply_def)

section \<open>BenchmarkEcho\<close>

definition echo_call :: "rpc_flags \<Rightarrow> u64 \<Rightarrow> rpc_call" where
  "echo_call fl i = Call_Echo i (replicate (unat (block_size fl)) 65)"

definition echo_start :: "u64 \<Rightarrow> int \<Rightarrow> int \<Rightarrow> echo_state" where
  "echo_start client_id add_time now =
     \<lparr>to_send = 1, rpc_id = 0, rpc_sent = 0, rpc_complete = 0, rpc_out = 0, calls = [],
      current_depth = 1, ios_in_last_second = 0, iops_timer = now,
      stat_ops = [Add client_id add_time]\<rparr>"

text \<open>The echo continuation first checks the length of the data that came back.\<close>

definition echo_reply :: "rpc_flags \<Rightarrow> nat \<Rightarrow> echo_state \<Rightarrow> echo_state result" where
  "echo_reply fl len s = assertE (len = unat (block_size fl)) (Inr (rpc_reply s))"

definition rate_control :: "rpc_flags \<Rightarrow> u64 \<Rightarrow> int \<Rightarrow> echo_state \<Rightarrow> echo_state" where
  "rate_control fl client_id e s =
     (let c = seconds_between e (iops_timer s) in
      if c \<ge> 1 then
        let new_ios = ios_in_last_second s;
            s = s\<lparr>stat_ops := stat_ops s @ [Upd client_id (current_depth s) new_ios new_ios]\<rparr>;
            s = (if ios_in_last_second s < iops_rate_limit fl
                 then s\<lparr>current_depth := current_depth s + 1\<rparr>
                 else if ios_in_last_second s > iops_rate_limit fl
                 then s\<lparr>current_depth := current_depth s - 1\<rparr> else s);
            s = (if current_depth s > queue_depth fl
                 then s\<lparr>current_depth := queue_depth fl\<rparr>
                 else if current_depth s = 0 then s\<lparr>current_depth := 1\<rparr> else s) in
        s\<lparr>ios_in_last_second := 0, iops_timer := e\<rparr>
      else s)"

definition next_to_send :: "rpc_flags \<Rightarrow> echo_state \<Rightarrow> echo_state" where
  "next_to_send fl s =
     (let s = (if current_depth s \<ge> rpc_out s
               then s\<lparr>to_send := current_depth s - rpc_out s\<rparr> else s\<lparr>to_send := 1\<rparr>) in
      if rpc_sent s > requests fl \<and> \<not> unlimited fl then s\<lparr>to_send := 0\<rparr> else s)"

text \<open>What the environment contributes to one round: data lengths of the replies, clock.\<close>

record echo_input =
  reply_lengths :: "nat list"
  clock :: int

definition echo_guard :: "rpc_flags \<Rightarrow> echo_state \<Rightarrow> bool" where
  "echo_guard fl s \<longleftrightarrow> rpc_complete s < requests fl \<or> unlimited fl"

definition echo_body ::
  "rpc_flags \<Rightarrow> u64 \<Rightarrow> echo_input \<Rightarrow> echo_state \<Rightarrow> echo_state result option" where
  "echo_body fl client_id inp s =
     (case for_u32 (to_send s) 0 (rpc_issue (echo_call fl)) s of
        None \<Rightarrow> None
      | Some s \<Rightarrow>
          let s = s\<lparr>ios_in_last_second := ios_in_last_second s + to_send s\<rparr> in
          Some (bindE (foldE (echo_reply fl) (reply_lengths inp) s)
                  (\<lambda>s. Inr (next_to_send fl (rate_control fl client_id (clock inp) s)))))"

text \<open>
  The while loop, over the inputs of its rounds: it ends when its guard fails, and is
  still running when the inputs are used up.
\<close>

fun echo_loop ::
  "rpc_flags \<Rightarrow> u64 \<Rightarrow> echo_input list \<Rightarrow> echo_state \<Rightarrow> echo_state result option" where
  "echo_loop fl client_id [] s = Some (Inr s)"
| "echo_loop fl client_id (inp # inps) s =
     (if echo_guard fl s then
        (case echo_body fl client_id inp s of
           None \<Rightarrow> None
         | Some (Inl x) \<Rightarrow> Some (Inl x)
         | Some (Inr s) \<Rightarrow> echo_loop fl client_id inps s)
      else Some (Inr s))"

definition BenchmarkEcho ::
  "rpc_flags \<Rightarrow> u64 \<Rightarrow> int \<Rightarrow> int \<Rightarrow> echo_input list \<Rightarrow> echo_state result option" where
  "BenchmarkEcho fl client_id add_time now inps =
     echo_loop fl client_id inps (echo_start client_id add_time now)"

section \<open>Its invariant\<close>

definition flags_ok :: "rpc_flags \<Rightarrow> bool" where
  "flags_ok fl \<longleftrightarrow> 1 \<le> queue_depth fl \<and> unat (queue_depth fl) < 4294967296"

definition calls_numbered :: "'a rpc_state_scheme \<Rightarrow> bool" where
  "calls_numbered s \<longleftrightarrow>
     map call_id (calls s) = map (\<lambda>i. of_nat i + 1) [0..<length (calls s)] \<and>
     rpc_id s = of_nat (length (calls s)) \<and> rpc_sent s = of_nat (length (calls s))"

definition echo_inv :: "rpc_flags \<Rightarrow> echo_state \<Rightarrow> bool" where
  "echo_inv fl s \<longleftrightarrow>
     rpc_sent s = rpc_complete s + rpc_out s \<and> calls_numbered s \<and>
     1 \<le> current_depth s \<and> current_depth s \<le> queue_depth fl \<and>
     to_send s \<le> queue_depth fl"

lemma calls_numbered_issue:
  "(\<And>i. call_id (call i) = i) \<Longrightarrow> calls_numbered s \<Longrightarrow> calls_numbered (rpc_issue call s)"
  by (simp add: calls_numbered_def rpc_issue_def Let_def add.commute)

lemma calls_numbered_reply: "calls_numbered (rpc_reply s) = calls_numbered s"
  by (simp add: calls_numbered_def rpc_reply_def)

text \<open>Sending \<open>n\<close> requests and receiving replies, as iterations.\<close>

lemma issues_pow:
  "((\<lambda>s t. \<exists>call. t = rpc_issue call s) ^^ n) s ((rpc_issue call ^^ n) s)"
proof (induction n)
  case (Suc n)
  then show ?case by (auto intro!: relcomppI)
qed simp

lemma issues_frame:
  "to_send ((rpc_issue call ^^ n) s) = to_send s \<and>
   rpc_state.more ((rpc_issue call ^^ n) s) = rpc_state.more s \<and>
   length (calls ((rpc_issue call ^^ n) s)) = length (calls s) + n"
  by (induction n) (simp_all add: rpc_issue_frame)

lemma issues_conserve:
  assumes "rpc_sent s = rpc_complete s + rpc_out s" and "calls_numbered s"
    and "\<And>i. call_id (call i) = i"
  shows "rpc_sent ((rpc_issue call ^^ n) s) = rpc_complete ((rpc_issue call ^^ n) s) + rpc_out ((rpc_issue call ^^ n) s)"
    and "calls_numbered ((rpc_issue call ^^ n) s)"
proof -
  show "calls_numbered ((rpc_issue call ^^ n) s)"
    by (induction n) (use assms in \<open>auto intro: calls_numbered_issue\<close>)
  show "rpc_sent ((rpc_issue call ^^ n) s) =
      rpc_complete ((rpc_issue call ^^ n) s) + rpc_out ((rpc_issue call ^^ n) s)"
    using rpc.issues [OF issues_pow [of n s call]] assms(1) by (simp add: algebra_simps)
qed

lemma echo_replies:
  assumes "\<forall>l \<in> set ls. l = unat (block_size fl)"
  shows "foldE (echo_reply fl) ls s = Inr ((rpc_reply ^^ length ls) s)"
  using assms
  by (induction ls arbitrary: s) (simp_all add: echo_reply_def funpow_swap1)

lemma echo_replies_Inr:
  "foldE (echo_reply fl) ls s = Inr t \<Longrightarrow> t = (rpc_reply ^^ length ls) s"
  by (induction ls arbitrary: s) (simp_all add: echo_reply_def funpow_swap1 result_simps)

lemma replies_frame:
  "to_send ((rpc_reply ^^ n) s) = to_send s \<and> calls ((rpc_reply ^^ n) s) = calls s \<and>
   rpc_state.more ((rpc_reply ^^ n) s) = rpc_state.more s \<and>
   calls_numbered ((rpc_reply ^^ n) s) = calls_numbered s"
  by (induction n) (simp_all add: rpc_reply_frame calls_numbered_reply)

lemma replies_conserve:
  "rpc_sent s = rpc_complete s + rpc_out s \<Longrightarrow>
     rpc_sent ((rpc_reply ^^ n) s) = rpc_complete ((rpc_reply ^^ n) s) + rpc_out ((rpc_reply ^^ n) s)"
  by (induction n) (simp_all add: rpc_reply_def)


lemma rate_control_frame:
  "rpc_sent (rate_control fl c e s) = rpc_sent s \<and> rpc_complete (rate_control fl c e s) = rpc_complete s \<and>
   rpc_out (rate_control fl c e s) = rpc_out s \<and> rpc_id (rate_control fl c e s) = rpc_id s \<and>
   calls (rate_control fl c e s) = calls s \<and> to_send (rate_control fl c e s) = to_send s"
  by (simp add: rate_control_def Let_def)

lemma next_to_send_frame:
  "rpc_sent (next_to_send fl s) = rpc_sent s \<and> rpc_complete (next_to_send fl s) = rpc_complete s \<and>
   rpc_out (next_to_send fl s) = rpc_out s \<and> rpc_id (next_to_send fl s) = rpc_id s \<and>
   calls (next_to_send fl s) = calls s \<and> current_depth (next_to_send fl s) = current_depth s"
  by (simp add: next_to_send_def Let_def)

text \<open>The rate controller keeps the depth between 1 and the maximum.\<close>

lemma rate_control_depth:
  assumes "flags_ok fl" and "1 \<le> current_depth s" and "current_depth s \<le> queue_depth fl"
  shows "1 \<le> current_depth (rate_control fl c e s) \<and> current_depth (rate_control fl c e s) \<le> queue_depth fl"
proof -
  have pos: "x = 0 \<or> 1 \<le> x" for x :: u64
    by (cases "x = 0") (simp_all add: word_le_nat_alt Suc_le_eq unat_gt_0)
  show ?thesis
    using assms pos [of "current_depth s + 1"] pos [of "current_depth s - 1"]
    by (auto simp: rate_control_def Let_def flags_ok_def)
qed

lemma next_to_send_bound:
  assumes "1 \<le> current_depth s" and "current_depth s \<le> q"
  shows "to_send (next_to_send fl s) \<le> q"
proof -
  have "current_depth s - rpc_out s \<le> current_depth s" if "rpc_out s \<le> current_depth s"
    using that by (simp add: word_sub_le)
  with assms show ?thesis
    by (auto simp: next_to_send_def Let_def intro: order_trans)
qed

text \<open>One round, written out: the requests, the replies, the controller.\<close>

definition after_sends :: "rpc_flags \<Rightarrow> echo_state \<Rightarrow> echo_state" where
  "after_sends fl s =
     (rpc_issue (echo_call fl) ^^ unat (to_send s)) s
       \<lparr>ios_in_last_second := ios_in_last_second s + to_send s\<rparr>"

lemma issues_ios:
  "ios_in_last_second ((rpc_issue call ^^ n) s) = ios_in_last_second (s :: echo_state) \<and>
   current_depth ((rpc_issue call ^^ n) s) = current_depth s"
  by (induction n) (simp_all add: rpc_issue_def Let_def)

lemma replies_depth:
  "current_depth ((rpc_reply ^^ n) s) = current_depth (s :: echo_state)"
  by (induction n) (simp_all add: rpc_reply_def)

lemma echo_body_eq:
  assumes "flags_ok fl" and "to_send s \<le> queue_depth fl"
  shows "echo_body fl cid inp s =
    Some (bindE (foldE (echo_reply fl) (reply_lengths inp) (after_sends fl s))
      (\<lambda>s. Inr (next_to_send fl (rate_control fl cid (clock inp) s))))"
proof -
  have "unat (to_send s) < 4294967296"
    using assms by (simp add: flags_ok_def word_le_nat_alt)
  then show ?thesis
    by (simp add: echo_body_def for_u32_returns issues_frame issues_ios after_sends_def Let_def)
qed


lemma after_sends_counters:
  "rpc_sent (after_sends fl s) = rpc_sent s + to_send s \<and>
   rpc_out (after_sends fl s) = rpc_out s + to_send s \<and>
   rpc_complete (after_sends fl s) = rpc_complete s \<and>
   current_depth (after_sends fl s) = current_depth s \<and>
   to_send (after_sends fl s) = to_send s"
  using rpc.issues [OF issues_pow [of "unat (to_send s)" s "echo_call fl"]]
  by (simp add: after_sends_def issues_frame issues_ios)

lemma after_sends_numbered: "calls_numbered s \<Longrightarrow> calls_numbered (after_sends fl s)"
proof -
  assume "calls_numbered s"
  then have "calls_numbered ((rpc_issue (echo_call fl) ^^ n) s)" for n
    by (induction n) (auto intro: calls_numbered_issue simp: echo_call_def)
  then show ?thesis by (simp add: after_sends_def calls_numbered_def)
qed

lemma replies_counters:
  "rpc_sent ((rpc_reply ^^ n) s) = rpc_sent s \<and>
   rpc_out ((rpc_reply ^^ n) s) = rpc_out s - of_nat n \<and>
   rpc_complete ((rpc_reply ^^ n) s) = rpc_complete s + of_nat n"
  by (rule rpc.replies) (simp add: relpowp_fun)

lemmas echo_frames = rate_control_frame next_to_send_frame after_sends_counters replies_counters
  replies_depth

text \<open>What a round leaves, in terms of the counters before it.\<close>

lemma echo_body_Inr:
  assumes "flags_ok fl" and "to_send s \<le> queue_depth fl"
    and "echo_body fl cid inp s = Some (Inr t)"
  shows "t = next_to_send fl (rate_control fl cid (clock inp)
      ((rpc_reply ^^ length (reply_lengths inp)) (after_sends fl s)))"
  using assms(3) by (auto simp: echo_body_eq [OF assms(1,2)] result_simps dest!: echo_replies_Inr)

lemma echo_round_counters:
  assumes "flags_ok fl" and "to_send s \<le> queue_depth fl"
    and "echo_body fl cid inp s = Some (Inr t)"
  shows "rpc_sent t = rpc_sent s + to_send s \<and>
    rpc_complete t = rpc_complete s + of_nat (length (reply_lengths inp)) \<and>
    rpc_out t = rpc_out s + to_send s - of_nat (length (reply_lengths inp))"
  by (simp add: echo_body_Inr [OF assms] echo_frames)

lemma echo_inv_step:
  assumes fl: "flags_ok fl" and inv: "echo_inv fl s"
    and body: "echo_body fl cid inp s = Some (Inr t)"
  shows "echo_inv fl t"
proof -
  have ts: "to_send s \<le> queue_depth fl" using inv by (simp add: echo_inv_def)
  let ?r = "(rpc_reply ^^ length (reply_lengths inp)) (after_sends fl s)"
  let ?c = "rate_control fl cid (clock inp) ?r"
  have t: "t = next_to_send fl ?c" by (rule echo_body_Inr [OF fl ts body])
  have depth: "1 \<le> current_depth ?c \<and> current_depth ?c \<le> queue_depth fl"
    by (rule rate_control_depth [OF fl]) (use inv in \<open>simp_all add: echo_inv_def echo_frames\<close>)
  have "calls_numbered ?r"
    using inv after_sends_numbered by (simp add: replies_frame echo_inv_def)
  then have num: "calls_numbered t" by (simp add: t calls_numbered_def echo_frames)
  show ?thesis
    unfolding echo_inv_def
  proof (intro conjI)
    show "rpc_sent t = rpc_complete t + rpc_out t"
      using echo_round_counters [OF fl ts body] inv by (simp add: echo_inv_def)
    show "to_send t \<le> queue_depth fl"
      unfolding t by (rule next_to_send_bound) (use depth in simp_all)
  qed (use depth num in \<open>simp_all add: t next_to_send_frame\<close>)
qed

lemma echo_inv_start: "flags_ok fl \<Longrightarrow> echo_inv fl (echo_start cid a now)"
  by (simp add: echo_inv_def echo_start_def flags_ok_def calls_numbered_def)

text \<open>A round returns, and the only thing that stops it is the length check.\<close>

lemma echo_body_total:
  assumes fl: "flags_ok fl" and inv: "echo_inv fl s"
    and ok: "\<forall>l \<in> set (reply_lengths inp). l = unat (block_size fl)"
  shows "\<exists>t. echo_body fl cid inp s = Some (Inr t) \<and> echo_inv fl t"
proof -
  have ts: "to_send s \<le> queue_depth fl" using inv by (simp add: echo_inv_def)
  have "\<exists>t. echo_body fl cid inp s = Some (Inr t)"
    by (simp add: echo_body_eq [OF fl ts] echo_replies [OF ok])
  then show ?thesis using echo_inv_step [OF fl inv] by blast
qed

lemma echo_loop_total:
  assumes "flags_ok fl" and "echo_inv fl s"
    and "\<forall>inp \<in> set inps. \<forall>l \<in> set (reply_lengths inp). l = unat (block_size fl)"
  shows "\<exists>t. echo_loop fl cid inps s = Some (Inr t) \<and> echo_inv fl t"
  using assms
proof (induction inps arbitrary: s)
  case (Cons inp inps)
  from Cons.prems echo_body_total [OF Cons.prems(1,2), of inp cid]
  obtain u where u: "echo_body fl cid inp s = Some (Inr u)" "echo_inv fl u" by auto
  have "\<exists>t. echo_loop fl cid inps u = Some (Inr t) \<and> echo_inv fl t"
    by (rule Cons.IH) (use u Cons.prems in simp_all)
  with u Cons.prems show ?case by simp
qed simp


section \<open>BenchmarkEcho: properties\<close>

text \<open>The replies of the storage service pass the length check.\<close>

lemma service_reply_length:
  "result_data_length (storage_serve (echo_call fl i)) = unat (block_size fl)"
  by (simp add: echo_call_def async_tm_Echo_def)

lemma BenchmarkEcho_total:
  assumes "flags_ok fl"
    and "\<forall>inp \<in> set inps. \<forall>l \<in> set (reply_lengths inp).
           \<exists>i. l = result_data_length (storage_serve (echo_call fl i))"
  shows "\<exists>t. BenchmarkEcho fl cid a now inps = Some (Inr t) \<and> echo_inv fl t"
  unfolding BenchmarkEcho_def
  by (rule echo_loop_total [OF assms(1) echo_inv_start [OF assms(1)]])
    (use assms(2) in \<open>auto simp: service_reply_length\<close>)

lemma echo_loop_inv:
  assumes "flags_ok fl"
  shows "echo_loop fl cid inps s = Some (Inr t) \<Longrightarrow> echo_inv fl s \<Longrightarrow> echo_inv fl t"
proof (induction inps arbitrary: s)
  case (Cons inp inps)
  then show ?case
    by (auto split: if_splits option.splits sum.splits dest: echo_inv_step [OF assms])
qed simp

text \<open>
  C19. With the storage service as its server and a queue depth from 1 to 2 to the 32 less 1, the
  echo benchmark never fails and no round hangs, whatever the sizes of the rounds and
  the clock: what it sent is what completed plus what is outstanding, the calls are numbered
  1, 2, 3, ... in the order they were made, and the depth stays between 1 and the maximum.
\<close>

theorem echo_accounting:
  assumes "flags_ok fl"
    and "\<forall>inp \<in> set inps. \<forall>l \<in> set (reply_lengths inp).
           \<exists>i. l = result_data_length (storage_serve (echo_call fl i))"
  shows "\<exists>t. BenchmarkEcho fl cid a now inps = Some (Inr t) \<and>
    rpc_sent t = rpc_complete t + rpc_out t \<and> rpc_sent t = of_nat (length (calls t)) \<and>
    map call_id (calls t) = map (\<lambda>i. of_nat i + 1) [0..<length (calls t)] \<and>
    1 \<le> current_depth t \<and> current_depth t \<le> queue_depth fl"
  using BenchmarkEcho_total [OF assms, of cid a now] by (auto simp: echo_inv_def calls_numbered_def)

theorem echo_accounting_witness:
  "\<exists>t. BenchmarkEcho default_flags 1 0 0 [\<lparr>reply_lengths = [], clock = 1000000000\<rparr>,
      \<lparr>reply_lengths = [4096], clock = 1500000000\<rparr>] = Some (Inr t) \<and> rpc_sent t = rpc_complete t + rpc_out t"
proof -
  have "\<exists>i. 4096 = result_data_length (storage_serve (echo_call default_flags i))"
    by (simp add: service_reply_length default_flags_def)
  then show ?thesis
    using echo_accounting [of default_flags "[\<lparr>reply_lengths = [], clock = 1000000000\<rparr>,
      \<lparr>reply_lengths = [4096], clock = 1500000000\<rparr>]" 1 0 0]
    by (auto simp: flags_ok_def default_flags_def)
qed

text \<open>
  An environment that answers only outstanding requests, as far as the loop goes.
\<close>

fun echo_env :: "rpc_flags \<Rightarrow> u64 \<Rightarrow> echo_input list \<Rightarrow> echo_state \<Rightarrow> bool" where
  "echo_env fl cid [] s = True"
| "echo_env fl cid (inp # inps) s =
     (echo_guard fl s \<longrightarrow>
        length (reply_lengths inp) \<le> unat (rpc_out s) + unat (to_send s) \<and>
        (case echo_body fl cid inp s of Some (Inr t) \<Rightarrow> echo_env fl cid inps t | _ \<Rightarrow> True))"

text \<open>The counters of a limited run, read as numbers.\<close>

definition echo_lim :: "rpc_flags \<Rightarrow> echo_state \<Rightarrow> bool" where
  "echo_lim fl s \<longleftrightarrow>
     unat (rpc_sent s) = unat (rpc_complete s) + unat (rpc_out s) \<and>
     unat (rpc_sent s) \<le> unat (requests fl) + unat (queue_depth fl) \<and>
     (to_send s = 0 \<or> rpc_sent s \<le> requests fl)"

definition limited :: "rpc_flags \<Rightarrow> bool" where
  "limited fl \<longleftrightarrow> flags_ok fl \<and> \<not> unlimited fl \<and>
     unat (requests fl) + unat (queue_depth fl) < 18446744073709551616"


lemma echo_loop_round:
  "echo_loop fl cid (inp # inps) s = Some (Inr t) \<Longrightarrow> echo_guard fl s \<Longrightarrow>
     \<exists>u. echo_body fl cid inp s = Some (Inr u) \<and> echo_loop fl cid inps u = Some (Inr t)"
  by (auto split: option.splits sum.splits)

lemma echo_to_send:
  assumes "flags_ok fl" and "to_send s \<le> queue_depth fl"
    and "echo_body fl cid inp s = Some (Inr t)" and "\<not> unlimited fl"
  shows "to_send t = 0 \<or> rpc_sent t \<le> requests fl"
  using assms(4) by (auto simp: echo_body_Inr [OF assms(1-3)] next_to_send_def Let_def not_less)

lemma echo_lim_step:
  assumes lim: "limited fl" and inv: "echo_inv fl s" and ls: "echo_lim fl s"
    and body: "echo_body fl cid inp s = Some (Inr t)"
    and env: "length (reply_lengths inp) \<le> unat (rpc_out s) + unat (to_send s)"
  shows "echo_lim fl t \<and> unat (rpc_complete t) = unat (rpc_complete s) + length (reply_lengths inp)"
proof -
  have fl: "flags_ok fl" and ul: "\<not> unlimited fl"
    and small: "unat (requests fl) + unat (queue_depth fl) < 18446744073709551616"
    using lim by (simp_all add: limited_def)
  have ts: "to_send s \<le> queue_depth fl" using inv by (simp add: echo_inv_def)
  note c = echo_round_counters [OF fl ts body]
  have ts': "unat (to_send s) \<le> unat (queue_depth fl)" using ts by (simp add: word_le_nat_alt)
  have bound: "unat (rpc_sent s) + unat (to_send s) \<le> unat (requests fl) + unat (queue_depth fl)"
    using ls ts' by (auto simp: echo_lim_def word_le_nat_alt)
  have eq: "unat (rpc_sent s) = unat (rpc_complete s) + unat (rpc_out s)"
    using ls by (simp add: echo_lim_def)
  have sent: "unat (rpc_sent t) = unat (rpc_sent s) + unat (to_send s)"
    using c bound small by (simp add: unat_add_u64)
  have out1: "unat (rpc_out s + to_send s) = unat (rpc_out s) + unat (to_send s)"
    by (rule unat_add_u64) (use eq bound small in linarith)
  have out: "unat (rpc_out t) = unat (rpc_out s) + unat (to_send s) - length (reply_lengths inp)"
    using c unat_sub_of_nat [of "length (reply_lengths inp)" "rpc_out s + to_send s"] out1 env by simp
  have comp: "unat (rpc_complete t) = unat (rpc_complete s) + length (reply_lengths inp)"
    using c unat_add_of_nat [of "rpc_complete s" "length (reply_lengths inp)"] eq bound small env
    by simp
  show ?thesis
    unfolding echo_lim_def
    using echo_to_send [OF fl ts body ul] sent out comp eq bound env by auto
qed

lemma echo_loop_limited:
  assumes lim: "limited fl"
  shows "echo_inv fl s \<Longrightarrow> echo_lim fl s \<Longrightarrow> echo_loop fl cid inps s = Some (Inr t) \<Longrightarrow>
    echo_env fl cid inps s \<Longrightarrow> echo_lim fl t \<and>
    (unat (requests fl) \<le> unat (rpc_complete t) \<or>
     unat (rpc_complete t) = unat (rpc_complete s) + sum_list (map (\<lambda>i. length (reply_lengths i)) inps))"
proof (induction inps arbitrary: s)
  case (Cons inp inps)
  show ?case
  proof (cases "echo_guard fl s")
    case True
    with Cons.prems obtain u where u: "echo_body fl cid inp s = Some (Inr u)"
      "echo_loop fl cid inps u = Some (Inr t)"
      using echo_loop_round by blast
    have env: "length (reply_lengths inp) \<le> unat (rpc_out s) + unat (to_send s)"
      "echo_env fl cid inps u"
      using Cons.prems(4) True u(1) by simp_all
    note step = echo_lim_step [OF lim Cons.prems(1,2) u(1) env(1)]
    have fl: "flags_ok fl" using lim by (simp add: limited_def)
    have "echo_lim fl t \<and> (unat (requests fl) \<le> unat (rpc_complete t) \<or>
        unat (rpc_complete t) = unat (rpc_complete u) + sum_list (map (\<lambda>i. length (reply_lengths i)) inps))"
      by (rule Cons.IH [OF echo_inv_step [OF fl Cons.prems(1) u(1)] _ u(2) env(2)]) (use step in simp)
    with step show ?thesis by (simp add: add.assoc)
  next
    case False
    with Cons.prems(3) have "t = s" by simp
    with False Cons.prems(2) lim show ?thesis
      by (simp add: echo_guard_def limited_def not_less word_le_nat_alt)
  qed
qed simp

lemma echo_lim_start: "limited fl \<Longrightarrow> echo_lim fl (echo_start cid a now)"
  by (simp add: echo_lim_def echo_start_def)

lemma limited_run:
  assumes "limited fl" and "BenchmarkEcho fl cid a now inps = Some (Inr t)"
    and "echo_env fl cid inps (echo_start cid a now)"
  shows "echo_lim fl t \<and>
    (unat (requests fl) \<le> unat (rpc_complete t) \<or>
     unat (rpc_complete t) = sum_list (map (\<lambda>i. length (reply_lengths i)) inps))"
proof -
  have "flags_ok fl" using assms(1) by (simp add: limited_def)
  from echo_loop_limited [OF assms(1) echo_inv_start [OF this] echo_lim_start [OF assms(1)],
      where cid = cid and inps = inps and t = t]
  show ?thesis using assms(2,3) by (simp add: BenchmarkEcho_def echo_start_def)
qed

definition small_flags :: rpc_flags where
  "small_flags = \<lparr>queue_depth = 2, block_size = 4, requests = 2, unlimited = False, iops_rate_limit = 2\<rparr>"

definition small_inputs :: "echo_input list" where
  "small_inputs = [\<lparr>reply_lengths = [4], clock = 1000000000\<rparr>, \<lparr>reply_lengths = [], clock = 1100000000\<rparr>,
                   \<lparr>reply_lengths = [4, 4], clock = 1200000000\<rparr>]"

lemmas small_evals = BenchmarkEcho_def small_inputs_def small_flags_def echo_start_def echo_guard_def
  echo_body_def for_u32.simps rpc_issue_def rpc_reply_def echo_reply_def rate_control_def
  next_to_send_def seconds_between_def signed_divide_int_def Let_def

text \<open>
  A limited echo run never sends more than the requested number plus one queue depth,
  and keeps no more outstanding than it sent beyond what completed. The overshoot is real: the
  send loop compares \<open>req_sent > kRequests\<close> before a whole batch.
\<close>

theorem echo_overshoot:
  assumes "limited fl" and "BenchmarkEcho fl cid a now inps = Some (Inr t)"
    and "echo_env fl cid inps (echo_start cid a now)"
  shows "unat (rpc_sent t) = unat (rpc_complete t) + unat (rpc_out t) \<and>
    unat (rpc_sent t) \<le> unat (requests fl) + unat (queue_depth fl)"
  using limited_run [OF assms] by (simp add: echo_lim_def)

theorem echo_overshoot_witness:
  "\<exists>t. BenchmarkEcho small_flags 1 0 0 small_inputs = Some (Inr t) \<and> unat (rpc_sent t) \<le> 4 \<and>
     rpc_sent t = 3 \<and> rpc_complete t = 3"
proof -
  have env: "echo_env small_flags 1 small_inputs (echo_start 1 0 0)" and
    "\<exists>t. BenchmarkEcho small_flags 1 0 0 small_inputs = Some (Inr t) \<and> rpc_sent t = 3 \<and> rpc_complete t = 3"
    by (simp_all add: small_evals)
  then obtain t where t: "BenchmarkEcho small_flags 1 0 0 small_inputs = Some (Inr t)"
    "rpc_sent t = 3 \<and> rpc_complete t = 3" by blast
  have "limited small_flags" by (simp add: limited_def flags_ok_def small_flags_def)
  from echo_overshoot [OF this t(1) env] t show ?thesis by (simp add: small_flags_def)
qed


text \<open>
  A limited echo run ends: once the server has answered as many requests as were asked
  for, in whatever rounds, the loop's guard is false. (No round hangs, by the theorem above.)
\<close>

theorem echo_terminates:
  assumes "limited fl" and "BenchmarkEcho fl cid a now inps = Some (Inr t)"
    and "echo_env fl cid inps (echo_start cid a now)"
    and "unat (requests fl) \<le> sum_list (map (\<lambda>i. length (reply_lengths i)) inps)"
  shows "\<not> echo_guard fl t"
proof -
  have "unat (requests fl) \<le> unat (rpc_complete t)"
    using limited_run [OF assms(1-3)] assms(4) by auto
  with assms(1) show ?thesis by (simp add: echo_guard_def limited_def not_less word_le_nat_alt)
qed

theorem echo_terminates_witness:
  "\<exists>t. BenchmarkEcho small_flags 1 0 0 small_inputs = Some (Inr t) \<and> \<not> echo_guard small_flags t"
proof -
  have env: "echo_env small_flags 1 small_inputs (echo_start 1 0 0)" and
    "\<exists>t. BenchmarkEcho small_flags 1 0 0 small_inputs = Some (Inr t)"
    by (simp_all add: small_evals)
  then obtain t where t: "BenchmarkEcho small_flags 1 0 0 small_inputs = Some (Inr t)" by blast
  have "limited small_flags" by (simp add: limited_def flags_ok_def small_flags_def)
  from echo_terminates [OF this t env] t show ?thesis by (simp add: small_flags_def small_inputs_def)
qed

text \<open>A round never waits with nothing outstanding, so the server always owes a reply.\<close>

lemma echo_never_idle_step:
  assumes fl: "flags_ok fl" and inv: "echo_inv fl s"
    and body: "echo_body fl cid inp s = Some (Inr t)" and g: "echo_guard fl t"
  shows "to_send t \<noteq> 0 \<or> rpc_out t \<noteq> 0"
proof -
  have inv': "echo_inv fl t" by (rule echo_inv_step [OF fl inv body])
  have ts: "to_send s \<le> queue_depth fl" using inv by (simp add: echo_inv_def)
  have "rpc_out t \<noteq> 0" if "to_send t = 0"
  proof
    assume out: "rpc_out t = 0"
    then have sc: "rpc_sent t = rpc_complete t" using inv' by (simp add: echo_inv_def)
    have "current_depth t \<noteq> 0" using inv' by (auto simp: echo_inv_def)
    with that out have "requests fl < rpc_sent t \<and> \<not> unlimited fl"
      by (auto simp: echo_body_Inr [OF fl ts body] next_to_send_def Let_def split: if_splits)
    with sc g show False by (auto simp: echo_guard_def dest: less_asym)
  qed
  then show ?thesis by blast
qed

lemma echo_loop_never_idle:
  assumes "flags_ok fl"
  shows "echo_loop fl cid inps s = Some (Inr t) \<Longrightarrow> echo_inv fl s \<Longrightarrow>
    to_send s \<noteq> 0 \<or> rpc_out s \<noteq> 0 \<Longrightarrow> echo_guard fl t \<Longrightarrow> to_send t \<noteq> 0 \<or> rpc_out t \<noteq> 0"
proof (induction inps arbitrary: s)
  case (Cons inp inps)
  show ?case
  proof (cases "echo_guard fl s")
    case True
    with Cons.prems(1) obtain u where u: "echo_body fl cid inp s = Some (Inr u)"
      "echo_loop fl cid inps u = Some (Inr t)"
      using echo_loop_round by blast
    show ?thesis
    proof (cases "echo_guard fl u")
      case True
      with Cons.IH [OF u(2) echo_inv_step [OF assms Cons.prems(2) u(1)]]
        echo_never_idle_step [OF assms Cons.prems(2) u(1)] Cons.prems(4)
      show ?thesis by simp
    next
      case False
      with u(2) have "t = u" by (cases inps) simp_all
      with False Cons.prems(4) show ?thesis by simp
    qed
  qed (use Cons.prems in simp)
qed simp

text \<open>
  The echo loop never starves itself: whenever it goes round again it sends something or
  has a reply outstanding, so \<open>loopOnce\<close> does not wait for an event that cannot come.
\<close>

theorem echo_never_idle:
  assumes "flags_ok fl" and "BenchmarkEcho fl cid a now inps = Some (Inr t)" and "echo_guard fl t"
  shows "to_send t \<noteq> 0 \<or> rpc_out t \<noteq> 0"
  using echo_loop_never_idle [OF assms(1), of cid inps "echo_start cid a now" t] assms
  by (simp add: BenchmarkEcho_def echo_inv_start) (simp add: echo_start_def)

theorem echo_never_idle_witness:
  "\<exists>t. BenchmarkEcho small_flags 1 0 0 (take 2 small_inputs) = Some (Inr t) \<and> echo_guard small_flags t \<and>
     (to_send t \<noteq> 0 \<or> rpc_out t \<noteq> 0)"
proof -
  have "\<exists>t. BenchmarkEcho small_flags 1 0 0 (take 2 small_inputs) = Some (Inr t) \<and> echo_guard small_flags t"
    by (simp add: small_evals)
  then obtain t where t: "BenchmarkEcho small_flags 1 0 0 (take 2 small_inputs) = Some (Inr t)"
    "echo_guard small_flags t" by blast
  have "flags_ok small_flags" by (simp add: flags_ok_def small_flags_def)
  from echo_never_idle [OF this t] t show ?thesis by blast
qed


section \<open>BenchmarkEcho and the collector\<close>

definition stat_inv :: "u64 \<Rightarrow> int \<Rightarrow> echo_state \<Rightarrow> bool" where
  "stat_inv cid a s \<longleftrightarrow>
     (\<exists>us. stat_ops s = Add cid a # us \<and> (\<forall>u \<in> set us. own cid u \<and> is_upd u) \<and>
        sum_list (map new_ios_of us) + ios_in_last_second s = rpc_sent s)"

lemma rate_control_stats:
  "stat_inv cid a s \<Longrightarrow> stat_inv cid a (rate_control fl cid e s)"
  by (auto simp: stat_inv_def rate_control_def Let_def)

lemma next_to_send_stats: "stat_inv cid a (next_to_send fl s) = stat_inv cid a s"
  by (simp add: stat_inv_def next_to_send_def Let_def)

lemma issues_stats: "stat_ops ((rpc_issue call ^^ n) s) = stat_ops (s :: echo_state)"
  by (induction n) (simp_all add: rpc_issue_def Let_def)

lemma after_sends_stats: "stat_inv cid a s \<Longrightarrow> stat_inv cid a (after_sends fl s)"
  using after_sends_counters [of fl s]
  by (auto simp: stat_inv_def issues_stats after_sends_def)

lemma replies_stats:
  "stat_ops ((rpc_reply ^^ n) s) = stat_ops (s :: echo_state) \<and>
   ios_in_last_second ((rpc_reply ^^ n) s) = ios_in_last_second s"
  by (induction n) (simp_all add: rpc_reply_def)

lemma stat_inv_step:
  assumes "flags_ok fl" and "echo_inv fl s" and "echo_body fl cid inp s = Some (Inr t)"
    and "stat_inv cid a s"
  shows "stat_inv cid a t"
proof -
  have ts: "to_send s \<le> queue_depth fl" using assms(2) by (simp add: echo_inv_def)
  have "stat_inv cid a ((rpc_reply ^^ n) (after_sends fl s))" for n
    using after_sends_stats [OF assms(4), of fl]
    by (simp add: stat_inv_def replies_stats replies_counters)
  then show ?thesis
    by (simp add: echo_body_Inr [OF assms(1) ts assms(3)] next_to_send_stats rate_control_stats)
qed

text \<open>Whatever rounds keep, a run keeps.\<close>

lemma echo_loop_induct:
  assumes "flags_ok fl" and "echo_loop fl cid inps s = Some (Inr t)" and "echo_inv fl s" and "P s"
    and "\<And>s u inp. echo_inv fl s \<Longrightarrow> P s \<Longrightarrow> echo_body fl cid inp s = Some (Inr u) \<Longrightarrow> P u"
  shows "P t"
  using assms(2-4)
proof (induction inps arbitrary: s)
  case (Cons inp inps)
  show ?case
  proof (cases "echo_guard fl s")
    case True
    with Cons.prems(1) obtain u where u: "echo_body fl cid inp s = Some (Inr u)"
      "echo_loop fl cid inps u = Some (Inr t)"
      using echo_loop_round by blast
    show ?thesis
      by (rule Cons.IH [OF u(2) echo_inv_step [OF assms(1) Cons.prems(2) u(1)]
            assms(5) [OF Cons.prems(2,3) u(1)]])
  qed (use Cons.prems in simp)
qed simp

text \<open>A run of the benchmark as a client of the collector.\<close>

definition echo_run :: "u64 \<Rightarrow> int \<Rightarrow> rpc_flags \<times> int \<times> echo_input list \<Rightarrow> echo_state option" where
  "echo_run cid a inp =
     (case inp of (fl, now, inps) \<Rightarrow>
        case BenchmarkEcho fl cid a now inps of Some (Inr t) \<Rightarrow> Some t | _ \<Rightarrow> None)"

lemma echo_run_Some: "echo_run cid a (fl, now, inps) = Some t \<longleftrightarrow> BenchmarkEcho fl cid a now inps = Some (Inr t)"
  by (auto simp: echo_run_def split: option.splits sum.splits)

interpretation echo_reports: reporting_client "\<lambda>inp. flags_ok (fst inp)" echo_run stat_ops ios_in_last_second rpc_sent
proof
  fix inp :: "rpc_flags \<times> int \<times> echo_input list" and c a t
  assume fl: "flags_ok (fst inp)" and r: "echo_run c a inp = Some t"
  obtain now inps where inp: "inp = (fst inp, now, inps)" by (metis prod.collapse)
  from r have b: "BenchmarkEcho (fst inp) c a now inps = Some (Inr t)" by (subst (asm) inp) (simp only: echo_run_Some)
  have "stat_inv c a (echo_start c a now)" by (simp add: stat_inv_def echo_start_def)
  then have "stat_inv c a t"
    by (rule echo_loop_induct [OF fl b [unfolded BenchmarkEcho_def] echo_inv_start [OF fl]]) (rule stat_inv_step [OF fl])
  then show "\<exists>us. stat_ops t = Add c a # us \<and> (\<forall>u \<in> set us. own c u \<and> is_upd u) \<and>
      sum_list (map new_ios_of us) + ios_in_last_second t = rpc_sent t"
    by (simp add: stat_inv_def)
qed

text \<open>
  A running client and the collector it shares with the others agree: in any interleaving
  of all clients' operations that contains this client's in its order, its entry's total is what
  the client sent less what it sent since its last update, and no update is missed.
\<close>

theorem collector_counts_sent:
  assumes "flags_ok fl" and "BenchmarkEcho fl cid a now inps = Some (Inr t)"
    and "filter (own cid) ops = stat_ops t" and "foldE stats_step ops StatsCollector_new = Inr sc"
  shows "\<exists>st. map_of (stats sc) cid = Some st \<and> start st = a \<and>
    total_ios st + ios_in_last_second t = rpc_sent t \<and>
    total_updates st = of_nat (length (stat_ops t) - 1)"
  by (rule echo_reports.entry [OF _ _ assms(3,4), of "(fl, now, inps)"]) (use assms(1,2) in \<open>simp_all add: echo_run_Some\<close>)


theorem collector_counts_sent_witness:
  "\<exists>t sc st. BenchmarkEcho small_flags 1 5 5 [\<lparr>reply_lengths = [4], clock = 1000000005\<rparr>] = Some (Inr t) \<and>
     foldE stats_step [Add 2 0, Add 1 5, Upd 2 9 9 9, Upd 1 1 1 1] StatsCollector_new = Inr sc \<and>
     map_of (stats sc) 1 = Some st \<and> total_ios st + ios_in_last_second t = rpc_sent t"
proof -
  have "\<exists>t. BenchmarkEcho small_flags 1 5 5 [\<lparr>reply_lengths = [4], clock = 1000000005\<rparr>] = Some (Inr t) \<and>
      filter (own 1) [Add 2 0, Add 1 5, Upd 2 9 9 9, Upd 1 1 1 1] = stat_ops t"
    by (simp add: small_evals)
  then obtain t where t: "BenchmarkEcho small_flags 1 5 5 [\<lparr>reply_lengths = [4], clock = 1000000005\<rparr>] = Some (Inr t)"
    "filter (own 1) [Add 2 0, Add 1 5, Upd 2 9 9 9, Upd 1 1 1 1] = stat_ops t" by blast
  have "\<exists>sc. foldE stats_step [Add 2 0, Add 1 5, Upd 2 9 9 9, Upd 1 1 1 1] StatsCollector_new = Inr sc"
    by (simp add: stats_step_def ClientAdd_def Update_def StatsCollector_new_def)
  then obtain sc where sc: "foldE stats_step [Add 2 0, Add 1 5, Upd 2 9 9 9, Upd 1 1 1 1]
      StatsCollector_new = Inr sc" by blast
  have "flags_ok small_flags" by (simp add: flags_ok_def small_flags_def)
  from collector_counts_sent [OF this t sc] t(1) sc show ?thesis by blast
qed

section \<open>The rate controller overruns the queue depth\<close>

definition idle_input :: "echo_state \<Rightarrow> echo_input" where
  "idle_input s = \<lparr>reply_lengths = [], clock = iops_timer s\<rparr>"

lemma echo_loop_append:
  "echo_loop fl cid xs s = Some (Inr u) \<Longrightarrow> unlimited fl \<Longrightarrow>
     echo_loop fl cid (xs @ ys) s = echo_loop fl cid ys u"
  by (induction xs arbitrary: s) (auto simp: echo_guard_def split: option.splits sum.splits)

lemma overrun_round:
  assumes fl: "flags_ok fl" "unlimited fl" and s: "to_send s = 1" "current_depth s < rpc_out s"
    and small: "unat (rpc_out s) + 1 < 18446744073709551616"
  shows "\<exists>t. echo_body fl cid (idle_input s) s = Some (Inr t) \<and> to_send t = 1 \<and>
    current_depth t = current_depth s \<and> iops_timer t = iops_timer s \<and>
    unat (rpc_out t) = unat (rpc_out s) + 1"
proof -
  have ts: "to_send s \<le> queue_depth fl" using fl(1) s(1) by (simp add: flags_ok_def)
  have out: "unat (rpc_out s + 1) = unat (rpc_out s) + 1"
    using unat_add_u64 [of "rpc_out s" 1] small by simp
  have timer: "iops_timer (after_sends fl s) = iops_timer s"
  proof -
    have "iops_timer ((rpc_issue call ^^ n) s) = iops_timer s" for call n
      by (induction n) (simp_all add: rpc_issue_def Let_def)
    then show ?thesis by (simp add: after_sends_def)
  qed
  have "rate_control fl cid (iops_timer s) (after_sends fl s) = after_sends fl s"
    by (simp add: rate_control_def timer seconds_between_def signed_divide_int_def)
  moreover have "\<not> rpc_out s + 1 \<le> current_depth s"
    using s(2) out by (simp add: word_le_nat_alt word_less_nat_alt)
  ultimately show ?thesis
    using after_sends_counters [of fl s] s fl timer out
    by (simp add: echo_body_eq [OF fl(1) ts] idle_input_def next_to_send_def Let_def)
qed

lemma overrun_rounds:
  assumes fl: "flags_ok fl" "unlimited fl"
  shows "to_send s = 1 \<Longrightarrow> current_depth s < rpc_out s \<Longrightarrow>
    unat (rpc_out s) + n < 18446744073709551616 \<Longrightarrow>
    \<exists>t. echo_loop fl cid (replicate n (idle_input s)) s = Some (Inr t) \<and> unat (rpc_out t) = unat (rpc_out s) + n"
proof (induction n arbitrary: s)
  case (Suc n)
  from overrun_round [OF fl Suc.prems(1,2), of cid] Suc.prems(3)
  obtain u where u: "echo_body fl cid (idle_input s) s = Some (Inr u)" "to_send u = 1"
    "current_depth u = current_depth s" "iops_timer u = iops_timer s"
    "unat (rpc_out u) = unat (rpc_out s) + 1" by auto
  have "current_depth u < rpc_out u" using Suc.prems(2) u(3,5) by (simp add: word_less_nat_alt)
  moreover have "idle_input u = idle_input s" by (simp add: idle_input_def u(4))
  ultimately show ?case
    using Suc.IH [of u] u Suc.prems(3) fl(2) by (auto simp: echo_guard_def)
qed simp

lemma overrun_to_send:
  assumes "flags_ok fl" and "unlimited fl" and "BenchmarkEcho fl cid a now inps = Some (Inr s)"
    and "current_depth s < rpc_out s"
  shows "to_send s = 1"
proof -
  have "current_depth s < rpc_out s \<longrightarrow> to_send s = 1"
  proof (rule echo_loop_induct [OF assms(1) assms(3) [unfolded BenchmarkEcho_def]])
    show "echo_inv fl (echo_start cid a now)" by (rule echo_inv_start [OF assms(1)])
    show "current_depth u < rpc_out u \<longrightarrow> to_send u = 1"
      if "echo_inv fl s" "echo_body fl cid inp s = Some (Inr u)" for s u inp
      using that assms(2)
      by (auto simp: echo_inv_def next_to_send_def Let_def not_less dest!: echo_body_Inr [OF assms(1)] split: if_splits)
  qed (simp add: echo_start_def)
  with assms(4) show ?thesis by blast
qed

text \<open>
  The overrun. When the controller has lowered the depth below what is outstanding, every
  round sends one more request instead of none: while no reply arrives the outstanding count
  grows by one a round, past the maximum queue depth and any other bound below 2 to the 64.
\<close>

theorem echo_overrun:
  assumes "flags_ok fl" and "unlimited fl" and "BenchmarkEcho fl cid a now inps = Some (Inr s)"
    and "current_depth s < rpc_out s" and "unat (rpc_out s) + n < 18446744073709551616"
  shows "\<exists>t. BenchmarkEcho fl cid a now (inps @ replicate n (idle_input s)) = Some (Inr t) \<and>
    unat (rpc_out t) = unat (rpc_out s) + n"
proof -
  have "BenchmarkEcho fl cid a now (inps @ replicate n (idle_input s)) =
      echo_loop fl cid (replicate n (idle_input s)) s"
    using assms(2,3) by (simp add: BenchmarkEcho_def echo_loop_append)
  then show ?thesis
    using overrun_rounds [OF assms(1,2) overrun_to_send [OF assms(1-4)] assms(4,5)] by simp
qed

definition overrun_flags :: rpc_flags where
  "overrun_flags = \<lparr>queue_depth = 2, block_size = 1, requests = 0, unlimited = True, iops_rate_limit = 2\<rparr>"

definition overrun_inputs :: "echo_input list" where
  "overrun_inputs = [\<lparr>reply_lengths = [], clock = 1000000000\<rparr>, \<lparr>reply_lengths = [1, 1], clock = 1000000000\<rparr>,
                     \<lparr>reply_lengths = [], clock = 2000000000\<rparr>]"

theorem echo_overrun_witness:
  "\<exists>s t. BenchmarkEcho overrun_flags 1 0 0 (overrun_inputs @ replicate 1000 (idle_input s)) = Some (Inr t) \<and>
     unat (rpc_out t) = 1002 \<and> queue_depth overrun_flags = 2"
proof -
  have "\<exists>s. BenchmarkEcho overrun_flags 1 0 0 overrun_inputs = Some (Inr s) \<and> current_depth s = 1 \<and> rpc_out s = 2"
    by (simp add: small_evals overrun_flags_def overrun_inputs_def)
  then obtain s where s: "BenchmarkEcho overrun_flags 1 0 0 overrun_inputs = Some (Inr s)"
    "current_depth s = 1" "rpc_out s = 2" by blast
  have "flags_ok overrun_flags" "unlimited overrun_flags" by (simp_all add: flags_ok_def overrun_flags_def)
  from echo_overrun [OF this s(1), of 1000] s(2,3) show ?thesis
    by (auto simp: overrun_flags_def)
qed

end
