(* ===== verification/RpcSend.thy ===== *)
theory RpcSend
  imports RpcClient
begin

text \<open>
  The rest of \<open>StorageRpc/Client.cpp\<close>: the fixed-depth benchmarks \<open>BenchmarkSend\<close> and
  \<open>BenchmarkSendNoData\<close>, which have one loop and differ in the call they make, and the command
  loop of \<open>main\<close>. A round of a benchmark is described by the number of replies its \<open>loopOnce\<close>
  delivers.
\<close>

section \<open>The fixed-depth loop\<close>

definition send_start :: "rpc_flags \<Rightarrow> rpc_state" where
  "send_start fl =
     \<lparr>to_send = queue_depth fl, rpc_id = 0, rpc_sent = 0, rpc_complete = 0, rpc_out = 0, calls = []\<rparr>"

definition send_next :: "rpc_flags \<Rightarrow> rpc_state \<Rightarrow> rpc_state" where
  "send_next fl s =
     (let s = s\<lparr>to_send := queue_depth fl - rpc_out s\<rparr> in
      if rpc_sent s > requests fl then s\<lparr>to_send := 0\<rparr> else s)"

definition send_body :: "(u64 \<Rightarrow> rpc_call) \<Rightarrow> rpc_flags \<Rightarrow> nat \<Rightarrow> rpc_state \<Rightarrow> rpc_state option" where
  "send_body call fl replies s =
     (case for_u32 (to_send s) 0 (rpc_issue call) s of
        None \<Rightarrow> None
      | Some s \<Rightarrow> Some (send_next fl ((rpc_reply ^^ replies) s)))"

fun send_loop :: "(u64 \<Rightarrow> rpc_call) \<Rightarrow> rpc_flags \<Rightarrow> nat list \<Rightarrow> rpc_state \<Rightarrow> rpc_state option" where
  "send_loop call fl [] s = Some s"
| "send_loop call fl (n # ns) s =
     (if rpc_complete s < requests fl then
        (case send_body call fl n s of None \<Rightarrow> None | Some s \<Rightarrow> send_loop call fl ns s)
      else Some s)"

definition send_call :: "rpc_flags \<Rightarrow> u64 \<Rightarrow> rpc_call" where
  "send_call fl i = Call_Send i (replicate (unat (block_size fl)) 65)"

definition BenchmarkSend :: "rpc_flags \<Rightarrow> nat list \<Rightarrow> rpc_state option" where
  "BenchmarkSend fl ns = send_loop (send_call fl) fl ns (send_start fl)"

definition BenchmarkSendNoData :: "rpc_flags \<Rightarrow> nat list \<Rightarrow> rpc_state option" where
  "BenchmarkSendNoData fl ns = send_loop Call_SendNoData fl ns (send_start fl)"

text \<open>What \<open>BenchmarkSend\<close> prints as the total data sent.\<close>

definition reported_bytes :: "rpc_flags \<Rightarrow> u64" where
  "reported_bytes fl = requests fl * block_size fl"

section \<open>Its invariant\<close>

definition send_ok :: "rpc_flags \<Rightarrow> bool" where
  "send_ok fl \<longleftrightarrow> flags_ok fl \<and> unat (requests fl) + unat (queue_depth fl) < 18446744073709551616"

definition send_inv :: "rpc_flags \<Rightarrow> rpc_state \<Rightarrow> bool" where
  "send_inv fl s \<longleftrightarrow>
     unat (rpc_sent s) = unat (rpc_complete s) + unat (rpc_out s) \<and>
     unat (rpc_sent s) \<le> unat (requests fl) + unat (queue_depth fl) \<and>
     unat (rpc_out s) \<le> unat (queue_depth fl) \<and>
     (if rpc_sent s \<le> requests fl then unat (rpc_out s) + unat (to_send s) = unat (queue_depth fl)
      else to_send s = 0)"

text \<open>The server answers only what is outstanding.\<close>

fun send_env :: "(u64 \<Rightarrow> rpc_call) \<Rightarrow> rpc_flags \<Rightarrow> nat list \<Rightarrow> rpc_state \<Rightarrow> bool" where
  "send_env call fl [] s = True"
| "send_env call fl (n # ns) s =
     (rpc_complete s < requests fl \<longrightarrow>
        n \<le> unat (rpc_out s) + unat (to_send s) \<and>
        (case send_body call fl n s of None \<Rightarrow> True | Some t \<Rightarrow> send_env call fl ns t))"

lemma send_next_frame:
  "rpc_sent (send_next fl s) = rpc_sent s \<and> rpc_complete (send_next fl s) = rpc_complete s \<and>
   rpc_out (send_next fl s) = rpc_out s \<and> calls (send_next fl s) = calls s \<and>
   rpc_id (send_next fl s) = rpc_id s"
  by (simp add: send_next_def Let_def)

lemma send_body_Some:
  assumes "unat (to_send s) < 4294967296"
  shows "send_body call fl n s =
    Some (send_next fl ((rpc_reply ^^ n) ((rpc_issue call ^^ unat (to_send s)) s)))"
  using assms by (simp add: send_body_def for_u32_returns)

lemma send_round_counters:
  assumes "unat (to_send s) < 4294967296" and "send_body call fl n s = Some t"
  shows "rpc_sent t = rpc_sent s + to_send s \<and> rpc_complete t = rpc_complete s + of_nat n \<and>
    rpc_out t = rpc_out s + to_send s - of_nat n \<and>
    to_send t = (if rpc_sent t > requests fl then 0 else queue_depth fl - rpc_out t)"
  using assms rpc.issues [OF issues_pow [of "unat (to_send s)" s call]]
  by (auto simp: send_body_Some replies_counters send_next_def Let_def)

lemma send_inv_start: "send_inv fl (send_start fl)"
  by (simp add: send_inv_def send_start_def)

lemma send_inv_bound: "send_ok fl \<Longrightarrow> send_inv fl s \<Longrightarrow> unat (to_send s) < 4294967296"
  by (auto simp: send_ok_def flags_ok_def send_inv_def split: if_splits)

lemma send_inv_step:
  assumes ok: "send_ok fl" and inv: "send_inv fl s" and body: "send_body call fl n s = Some t"
    and env: "n \<le> unat (rpc_out s) + unat (to_send s)"
  shows "send_inv fl t \<and> unat (rpc_complete t) = unat (rpc_complete s) + n"
proof -
  note c = send_round_counters [OF send_inv_bound [OF ok inv] body]
  have small: "unat (requests fl) + unat (queue_depth fl) < 18446744073709551616"
    using ok by (simp add: send_ok_def)
  have eq: "unat (rpc_sent s) = unat (rpc_complete s) + unat (rpc_out s)"
    using inv by (simp add: send_inv_def)
  have win: "unat (rpc_out s) + unat (to_send s) \<le> unat (queue_depth fl)"
    using inv by (auto simp: send_inv_def split: if_splits)
  have bound: "unat (rpc_sent s) + unat (to_send s) \<le> unat (requests fl) + unat (queue_depth fl)"
    using inv by (auto simp: send_inv_def word_le_nat_alt split: if_splits)
  have sent: "unat (rpc_sent t) = unat (rpc_sent s) + unat (to_send s)"
    using c bound small by (simp add: unat_add_u64)
  have "unat (rpc_out s + to_send s) = unat (rpc_out s) + unat (to_send s)"
    by (rule unat_add_u64) (use win small in linarith)
  then have out: "unat (rpc_out t) = unat (rpc_out s) + unat (to_send s) - n"
    using c unat_sub_of_nat [of n "rpc_out s + to_send s"] env by simp
  have comp: "unat (rpc_complete t) = unat (rpc_complete s) + n"
    using c unat_add_of_nat [of "rpc_complete s" n] eq bound small env by simp
  have "unat (queue_depth fl - rpc_out t) = unat (queue_depth fl) - unat (rpc_out t)"
    by (rule unat_sub) (use out win in \<open>simp add: word_le_nat_alt\<close>)
  then show ?thesis
    unfolding send_inv_def using c sent out comp eq bound win env by (auto simp: not_le)
qed


lemma send_loop_inv:
  assumes ok: "send_ok fl"
  shows "send_inv fl s \<Longrightarrow> send_env call fl ns s \<Longrightarrow>
    \<exists>t. send_loop call fl ns s = Some t \<and> send_inv fl t \<and>
      (requests fl \<le> rpc_complete t \<or> unat (rpc_complete t) = unat (rpc_complete s) + sum_list ns)"
proof (induction ns arbitrary: s)
  case (Cons n ns)
  show ?case
  proof (cases "rpc_complete s < requests fl")
    case True
    obtain u where u: "send_body call fl n s = Some u"
      using send_body_Some [OF send_inv_bound [OF ok Cons.prems(1)]] by blast
    have env: "n \<le> unat (rpc_out s) + unat (to_send s)" "send_env call fl ns u"
      using Cons.prems(2) True u by simp_all
    note step = send_inv_step [OF ok Cons.prems(1) u env(1)]
    from step have "send_inv fl u" by simp
    from Cons.IH [OF this env(2)] step True u show ?thesis by (auto simp: add.assoc)
  next
    case False
    with Cons.prems show ?thesis by (auto simp: not_less)
  qed
qed simp

lemma send_run:
  assumes "send_ok fl" and "send_env call fl ns (send_start fl)"
  shows "\<exists>t. send_loop call fl ns (send_start fl) = Some t \<and> send_inv fl t \<and>
    (requests fl \<le> rpc_complete t \<or> unat (rpc_complete t) = sum_list ns)"
  using send_loop_inv [OF assms(1) send_inv_start assms(2)] by (simp add: send_start_def)


lemma twice: "(f ^^ 2) x = f (f x)"
  by (simp add: numeral_2_eq_2)

lemmas send_evals = send_start_def send_body_def send_next_def for_u32.simps rpc_issue_def rpc_reply_def
  Let_def small_flags_def twice


text \<open>
  The send benchmark ends when the server has answered as many requests as were asked for;
  then at least that many were sent, so the total it prints is not more than what it sent.
\<close>

theorem send_terminates:
  assumes "send_ok fl" and "send_env (send_call fl) fl ns (send_start fl)"
    and "unat (requests fl) \<le> sum_list ns"
  shows "\<exists>t. BenchmarkSend fl ns = Some t \<and> requests fl \<le> rpc_complete t \<and>
    (unat (rpc_sent t) * unat (block_size fl) < 18446744073709551616 \<longrightarrow>
       unat (reported_bytes fl) \<le> unat (rpc_sent t) * unat (block_size fl))"
proof -
  obtain t where t: "BenchmarkSend fl ns = Some t" "send_inv fl t"
    "requests fl \<le> rpc_complete t \<or> unat (rpc_complete t) = sum_list ns"
    using send_run [OF assms(1,2)] by (auto simp: BenchmarkSend_def)
  then have c: "unat (requests fl) \<le> unat (rpc_complete t)"
    using assms(3) by (auto simp: word_le_nat_alt)
  then have s: "unat (requests fl) \<le> unat (rpc_sent t)" using t(2) by (simp add: send_inv_def)
  have "unat (reported_bytes fl) \<le> unat (requests fl) * unat (block_size fl)"
    by (simp add: reported_bytes_def unat_word_ariths mod_less_eq_dividend)
  also have "\<dots> \<le> unat (rpc_sent t) * unat (block_size fl)" using s by (rule mult_le_mono1)
  finally show ?thesis using t(1) c by (auto simp: word_le_nat_alt)
qed

theorem send_terminates_witness:
  "\<exists>t. BenchmarkSend small_flags [1, 0, 2] = Some t \<and> 2 \<le> rpc_complete t \<and>
     unat (reported_bytes small_flags) = 8"
proof -
  have env: "send_env (send_call small_flags) small_flags [1, 0, 2] (send_start small_flags)"
    by (simp add: send_evals)
  have "send_ok small_flags" by (simp add: send_ok_def flags_ok_def small_flags_def)
  from send_terminates [OF this env] show ?thesis by (auto simp: small_flags_def reported_bytes_def)
qed

section \<open>The two benchmarks do the same apart from the data\<close>

text \<open>Two states with the same counters and the same identifiers called.\<close>

definition same_counters :: "rpc_state \<Rightarrow> rpc_state \<Rightarrow> bool" where
  "same_counters s t \<longleftrightarrow>
     to_send s = to_send t \<and> rpc_id s = rpc_id t \<and> rpc_sent s = rpc_sent t \<and>
     rpc_complete s = rpc_complete t \<and> rpc_out s = rpc_out t \<and>
     map call_id (calls s) = map call_id (calls t)"

lemma same_issues:
  assumes "\<And>i. call_id (c i) = i" and "\<And>i. call_id (d i) = i" and "same_counters s t"
  shows "same_counters ((rpc_issue c ^^ n) s) ((rpc_issue d ^^ n) t)"
  by (induction n) (use assms in \<open>simp_all add: same_counters_def rpc_issue_def Let_def\<close>)

lemma same_replies:
  "same_counters s t \<Longrightarrow> same_counters ((rpc_reply ^^ n) s) ((rpc_reply ^^ n) t)"
  by (induction n) (simp_all add: same_counters_def rpc_reply_def)

lemma same_body:
  assumes ids: "\<And>i. call_id (c i) = i" "\<And>i. call_id (d i) = i" and st: "same_counters s t"
    and small: "unat (to_send s) < 4294967296"
  shows "\<exists>u v. send_body c fl n s = Some u \<and> send_body d fl n t = Some v \<and> same_counters u v"
proof -
  have ts: "to_send t = to_send s" using st by (simp add: same_counters_def)
  have "same_counters ((rpc_reply ^^ n) ((rpc_issue c ^^ unat (to_send s)) s))
      ((rpc_reply ^^ n) ((rpc_issue d ^^ unat (to_send s)) t))"
    by (intro same_replies same_issues ids st)
  then show ?thesis
    using small by (simp add: send_body_Some ts send_next_def same_counters_def Let_def)
qed


lemma same_loop:
  assumes ids: "\<And>i. call_id (c i) = i" "\<And>i. call_id (d i) = i" and ok: "send_ok fl"
  shows "same_counters s t \<Longrightarrow> send_inv fl s \<Longrightarrow> send_env c fl ns s \<Longrightarrow>
    \<exists>u v. send_loop c fl ns s = Some u \<and> send_loop d fl ns t = Some v \<and> same_counters u v"
proof (induction ns arbitrary: s t)
  case (Cons n ns)
  have eq: "rpc_complete t = rpc_complete s" using Cons.prems(1) by (simp add: same_counters_def)
  show ?case
  proof (cases "rpc_complete s < requests fl")
    case True
    from same_body [OF ids Cons.prems(1) send_inv_bound [OF ok Cons.prems(2)], where fl = fl and n = n]
    obtain u v where uv: "send_body c fl n s = Some u" "send_body d fl n t = Some v" "same_counters u v"
      by blast
    have env: "n \<le> unat (rpc_out s) + unat (to_send s)" "send_env c fl ns u"
      using Cons.prems(3) True uv(1) by simp_all
    have "send_inv fl u" using send_inv_step [OF ok Cons.prems(2) uv(1) env(1)] by simp
    from Cons.IH [OF uv(3) this env(2)] uv True eq show ?thesis by simp
  next
    case False
    with Cons.prems(1) eq show ?thesis by auto
  qed
qed simp

text \<open>
  \<open>BenchmarkSend\<close> and \<open>BenchmarkSendNoData\<close>, given the same replies, run through the same
  counters and call the same identifiers: the data is the only difference.
\<close>

theorem send_benchmarks_agree:
  assumes "send_ok fl" and "send_env (send_call fl) fl ns (send_start fl)"
  shows "\<exists>u v. BenchmarkSend fl ns = Some u \<and> BenchmarkSendNoData fl ns = Some v \<and>
    (rpc_sent u, rpc_complete u, rpc_out u, to_send u) = (rpc_sent v, rpc_complete v, rpc_out v, to_send v) \<and>
    map call_id (calls u) = map call_id (calls v)"
proof -
  have "same_counters (send_start fl) (send_start fl)" by (simp add: same_counters_def)
  from same_loop [OF _ _ assms(1) this send_inv_start assms(2), where d = Call_SendNoData]
  show ?thesis
    by (auto simp: BenchmarkSend_def BenchmarkSendNoData_def same_counters_def send_call_def)
qed

theorem send_benchmarks_agree_witness:
  "\<exists>u v. BenchmarkSend small_flags [1, 0, 2] = Some u \<and> BenchmarkSendNoData small_flags [1, 0, 2] = Some v \<and>
     rpc_sent u = rpc_sent v"
proof -
  have env: "send_env (send_call small_flags) small_flags [1, 0, 2] (send_start small_flags)"
    by (simp add: send_evals)
  have "send_ok small_flags" by (simp add: send_ok_def flags_ok_def small_flags_def)
  from send_benchmarks_agree [OF this env] show ?thesis by auto
qed

section \<open>The command loop\<close>

text \<open>
  The map of threads is the list of its keys; every thread in it stays joinable, since nothing
  joins or detaches one. Leaving the block destroys the map first: the destructor of a joinable
  thread calls \<open>std::terminate\<close>. Inserting a key that is present destroys the new thread.
\<close>

record repl =
  last_client_id :: u64
  client_threads :: "u64 list"
  collector :: StatsCollector

datatype repl_outcome = Prompting repl | Exited | Failed cpp_error

definition repl_start :: repl where
  "repl_start = \<lparr>last_client_id = 0, client_threads = [], collector = StartDumpThread StatsCollector_new\<rparr>"

definition repl_add :: "repl \<Rightarrow> repl result" where
  "repl_add s =
     (let i = last_client_id s + 1; s = s\<lparr>last_client_id := i\<rparr> in
      if i \<in> set (client_threads s) then Inl Std_Terminate
      else Inr (s\<lparr>client_threads := client_threads s @ [i]\<rparr>))"

definition repl_leave :: "repl \<Rightarrow> repl_outcome" where
  "repl_leave s =
     (if client_threads s \<noteq> [] then Failed Std_Terminate
      else case StatsCollector_delete (collector s) of Inl e \<Rightarrow> Failed e | Inr _ \<Rightarrow> Exited)"

definition kQuit :: string where "kQuit = ''quit''"
definition kAddClient :: string where "kAddClient = ''client_add''"
definition kStopClient :: string where "kStopClient = ''client_stop''"

text \<open>The lines typed so far; at the end of the input \<open>getline\<close> leaves the line empty.\<close>

fun repl_main :: "string list \<Rightarrow> repl \<Rightarrow> repl_outcome option" where
  "repl_main [] s = Some (Prompting s)"
| "repl_main (command # lines) s =
     (case Split command (CHR '' '') of
        None \<Rightarrow> None
      | Some (Inl e) \<Rightarrow> Some (Failed e)
      | Some (Inr tokens) \<Rightarrow>
          if tokens = [] then repl_main lines s
          else
            (let cmd = hd tokens in
             if cmd = kQuit then Some (repl_leave s)
             else if cmd = kAddClient then
               (case repl_add s of Inl e \<Rightarrow> Some (Failed e) | Inr s \<Rightarrow> repl_main lines s)
             else if cmd = kStopClient then repl_main lines s
             else repl_main lines s))"

text \<open>The command of a line.\<close>

definition first_word :: "string \<Rightarrow> string" where
  "first_word l = hd (Split_spec (CHR '' '') l)"

lemma Split_Some: "length l < npos \<Longrightarrow> Split l d = Some (Inr (Split_spec d l))"
  using Split_loop_spec [of l 0 d "[]"] by (simp add: Split_def)

lemma Split_spec_nonempty [simp]: "Split_spec d l \<noteq> []"
  by (simp add: Split_spec_def)

definition adds :: "string list \<Rightarrow> nat" where
  "adds ls = length (filter (\<lambda>l. first_word l = kAddClient) ls)"

definition repl_after :: "nat \<Rightarrow> repl" where
  "repl_after k = repl_start\<lparr>last_client_id := of_nat k, client_threads := map of_nat [1..<Suc k]\<rparr>"

lemma repl_add_after:
  assumes "k < 18446744073709551615"
  shows "repl_add (repl_after k) = Inr (repl_after (Suc k))"
proof -
  have "(of_nat k + 1 :: u64) \<noteq> of_nat i" if "i \<le> k" for i
  proof
    assume "(of_nat k + 1 :: u64) = of_nat i"
    then have "unat (of_nat (Suc k) :: u64) = unat (of_nat i :: u64)" by (simp add: add.commute)
    with that assms show False by (simp add: unat_of_nat_u64 del: of_nat_Suc)
  qed
  then have fresh: "(of_nat k + 1 :: u64) \<notin> of_nat ` {1..<Suc k}"
    by (metis atLeastLessThan_iff image_iff less_Suc_eq_le)
  have "[1..<Suc (Suc k)] = [1..<Suc k] @ [Suc k]" by simp
  with fresh show ?thesis
    by (simp add: repl_add_def repl_after_def Let_def add.commute [of 1] del: upt_Suc)
qed

lemma repl_main_after:
  assumes "\<forall>l \<in> set ls. length l < npos \<and> first_word l \<noteq> kQuit"
    and "k + length ls < 18446744073709551615"
  shows "repl_main (ls @ later) (repl_after k) = repl_main later (repl_after (k + adds ls))"
  using assms
proof (induction ls arbitrary: k)
  case (Cons l ls)
  then have l: "Split l (CHR '' '') = Some (Inr (Split_spec (CHR '' '') l))" "first_word l \<noteq> kQuit"
    by (simp_all add: Split_Some)
  show ?case
  proof (cases "first_word l = kAddClient")
    case True
    have "repl_add (repl_after k) = Inr (repl_after (Suc k))"
      by (rule repl_add_after) (use Cons.prems(2) in simp)
    with True l Cons.IH [of "Suc k"] Cons.prems show ?thesis
      by (simp add: first_word_def [symmetric] adds_def)
  next
    case False
    with l Cons.IH [of k] Cons.prems show ?thesis
      by (simp add: first_word_def [symmetric] adds_def)
  qed
qed (simp add: adds_def)


text \<open>
  The command loop: as long as no line's command is quit, the loop prompts on, and after a
  list of lines with k \<open>client_add\<close> commands exactly the clients 1 to k run. Stopping a
  client and unknown commands change nothing; neither does an empty line, so at the end of
  the input, where every further line is empty, the loop never ends.
\<close>

theorem repl_clients:
  assumes "\<forall>l \<in> set ls. length l < npos \<and> first_word l \<noteq> kQuit"
    and "length ls < 18446744073709551615"
  shows "\<exists>s. repl_main ls repl_start = Some (Prompting s) \<and>
    client_threads s = map of_nat [1..<Suc (adds ls)] \<and> last_client_id s = of_nat (adds ls)"
  using repl_main_after [OF assms(1), of 0 "[]"] assms(2)
  by (simp add: repl_after_def [of 0] repl_start_def) (simp add: repl_after_def)

theorem repl_clients_witness:
  "\<exists>s. repl_main [''client_add'', '''', ''client_stop 1'', ''client_add''] repl_start = Some (Prompting s) \<and>
     client_threads s = [1, 2]"
  using repl_clients [of "[''client_add'', '''', ''client_stop 1'', ''client_add'']"]
  by (auto simp: first_word_def Split_spec_def adds_def kQuit_def kAddClient_def npos_def simp del: repl_main.simps)

text \<open>
  Quitting: the program exits normally if no client was added; otherwise leaving the block
  destroys a joinable thread and the program is terminated.
\<close>

theorem repl_quit:
  assumes "\<forall>l \<in> set ls. length l < npos \<and> first_word l \<noteq> kQuit"
    and "length ls < 18446744073709551615" and "length q < npos" and "first_word q = kQuit"
  shows "repl_main (ls @ [q]) repl_start =
    Some (if adds ls = 0 then Exited else Failed Std_Terminate)"
proof -
  have start: "repl_after 0 = repl_start" by (simp add: repl_after_def repl_start_def)
  have "repl_main (ls @ [q]) (repl_after 0) = repl_main [q] (repl_after (adds ls))"
    using repl_main_after [OF assms(1), of 0 "[q]"] assms(2) by simp
  also have "\<dots> = Some (repl_leave (repl_after (adds ls)))"
    using assms(3,4) by (simp add: Split_Some first_word_def [symmetric])
  finally show ?thesis
    by (auto simp: start repl_leave_def repl_after_def repl_start_def StatsCollector_delete_def
        StartDumpThread_def)
qed

theorem repl_quit_witness:
  "repl_main [''client_add'', '' quit''] repl_start = Some (Failed Std_Terminate) \<and>
   repl_main [''quit now''] repl_start = Some Exited"
  using repl_quit [of "[''client_add'']" "'' quit''"] repl_quit [of "[]" "''quit now''"]
  by (simp add: first_word_def Split_spec_def adds_def kQuit_def kAddClient_def npos_def del: repl_main.simps)

section \<open>The process: command loop, clients and collector\<close>

lemma inj_small_ids:
  assumes "k < 18446744073709551616"
  shows "inj_on (of_nat :: nat \<Rightarrow> u64) {1..k}"
proof (rule inj_onI)
  fix x y assume "x \<in> {1..k}" "y \<in> {1..k}" and eq: "(of_nat x :: u64) = of_nat y"
  then have "x < 18446744073709551616" "y < 18446744073709551616" using assms by simp_all
  with arg_cong [OF eq, of unat] show "x = y" by (simp add: unat_of_nat_u64)
qed

lemma small_id: "i \<in> {1..k} \<Longrightarrow> k < 18446744073709551616 \<Longrightarrow> unat (of_nat i :: u64) = i"
  by (simp add: unat_of_nat_u64)

lemma length_ids:
  assumes "distinct (map fst xs)" and "fst ` set xs = (of_nat :: nat \<Rightarrow> u64) ` {1..k}" and "k < 18446744073709551616"
  shows "length xs = k"
proof -
  have "length xs = card (fst ` set xs)" using distinct_card [OF assms(1)] by simp
  also have "\<dots> = k" unfolding assms(2) using card_image [OF inj_small_ids [OF assms(3)]] by simp
  finally show ?thesis .
qed

lemma repl_state_after:
  assumes "\<forall>l \<in> set ls. length l < npos \<and> first_word l \<noteq> kQuit" and "length ls < 18446744073709551615"
  shows "repl_main ls repl_start = Some (Prompting (repl_after (adds ls)))"
    and "set (client_threads (repl_after (adds ls))) = of_nat ` {1..adds ls}" and "stats (collector (repl_after (adds ls))) = []"
    and "adds ls < 18446744073709551616"
proof -
  show "repl_main ls repl_start = Some (Prompting (repl_after (adds ls)))"
    using repl_main_after [OF assms(1), of 0 "[]"] assms(2) by (simp add: repl_after_def [of 0] repl_start_def)
  show "set (client_threads (repl_after (adds ls))) = of_nat ` {1..adds ls}"
    by (simp add: repl_after_def atLeastLessThanSuc_atLeastAtMost del: upt_Suc)
  show "stats (collector (repl_after (adds ls))) = []"
    by (simp add: repl_after_def repl_start_def StartDumpThread_def StatsCollector_new_def)
  show "adds ls < 18446744073709551616" using assms(2) by (simp add: adds_def le_less_trans [OF length_filter_le])
qed



end
