(* ===== verification/CompletionTable.thy ===== *)
theory CompletionTable
  imports Prelude
begin

text \<open>
  Two programs of the repository keep operations that are under way in a table and take an entry
  out when its completion arrives: the leaf server's vector of IOs in flight, and the
  message client's map of promises. Their common interface is the locale \<open>completion_table\<close>: what
  is pending after an operation is entered or completed, and that a completion succeeds exactly
  when it is pending. The lemmas follow whole sequences of operations.
\<close>

datatype ('x, 'f) table_op = Enter 'x | Finish 'f

definition table_step ::
  "('x \<Rightarrow> 's \<Rightarrow> 's) \<Rightarrow> ('f \<Rightarrow> 's \<Rightarrow> 's result) \<Rightarrow> ('x, 'f) table_op \<Rightarrow> 's \<Rightarrow> 's result" where
  "table_step enter finish op s = (case op of Enter x \<Rightarrow> Inr (enter x s) | Finish f \<Rightarrow> finish f s)"

lemma table_step_simps [simp]:
  "table_step enter finish (Enter x) s = Inr (enter x s)"
  "table_step enter finish (Finish f) s = finish f s"
  by (simp_all add: table_step_def)

text \<open>The keys pending after a sequence, and whether each operation is allowed when it comes.\<close>

fun pending_after :: "('x \<Rightarrow> 'k) \<Rightarrow> ('f \<Rightarrow> 'k) \<Rightarrow> ('x, 'f) table_op list \<Rightarrow> 'k set \<Rightarrow> 'k set" where
  "pending_after key fkey [] P = P"
| "pending_after key fkey (Enter x # ops) P = pending_after key fkey ops (insert (key x) P)"
| "pending_after key fkey (Finish f # ops) P = pending_after key fkey ops (P - {fkey f})"

fun allowed :: "('x \<Rightarrow> 'k) \<Rightarrow> ('f \<Rightarrow> 'k) \<Rightarrow> ('x, 'f) table_op list \<Rightarrow> 'k set \<Rightarrow> bool" where
  "allowed key fkey [] P = True"
| "allowed key fkey (Enter x # ops) P = (key x \<notin> P \<and> allowed key fkey ops (insert (key x) P))"
| "allowed key fkey (Finish f # ops) P = (fkey f \<in> P \<and> allowed key fkey ops (P - {fkey f}))"

locale completion_table =
  fixes enter :: "'x \<Rightarrow> 's \<Rightarrow> 's"
    and key :: "'x \<Rightarrow> 'k"
    and finish :: "'f \<Rightarrow> 's \<Rightarrow> 's result"
    and fkey :: "'f \<Rightarrow> 'k"
    and pending :: "'s \<Rightarrow> 'k set"
    and ok :: "'s \<Rightarrow> bool"
  assumes enter_law: "ok s \<Longrightarrow> key x \<notin> pending s \<Longrightarrow>
      ok (enter x s) \<and> pending (enter x s) = insert (key x) (pending s)"
    and finish_law: "ok s \<Longrightarrow> fkey f \<in> pending s \<Longrightarrow>
      \<exists>t. finish f s = Inr t \<and> ok t \<and> pending t = pending s - {fkey f}"
    and finish_absent: "ok s \<Longrightarrow> fkey f \<notin> pending s \<Longrightarrow> \<exists>e. finish f s = Inl e"
begin

lemma allowed_run:
  "ok s \<Longrightarrow> allowed key fkey ops (pending s) \<Longrightarrow>
     \<exists>t. foldE (table_step enter finish) ops s = Inr t \<and> ok t \<and>
       pending t = pending_after key fkey ops (pending s)"
proof (induction ops arbitrary: s)
  case (Cons op ops)
  show ?case
  proof (cases op)
    case (Enter x)
    with Cons.prems have e: "ok (enter x s)" "pending (enter x s) = insert (key x) (pending s)"
      using enter_law by auto
    have "allowed key fkey ops (pending (enter x s))" using Cons.prems Enter e(2) by simp
    from Cons.IH [OF e(1) this] Enter e(2) show ?thesis by simp
  next
    case (Finish f)
    with Cons.prems obtain u where u: "finish f s = Inr u" "ok u" "pending u = pending s - {fkey f}"
      using finish_law [OF Cons.prems(1), of f] by auto
    have "allowed key fkey ops (pending u)" using Cons.prems Finish u(3) by simp
    from Cons.IH [OF u(2) this] Finish u show ?thesis by simp
  qed
qed simp

lemma foldE_allowed:
  "ok s \<Longrightarrow> foldE finish fs s = Inr t \<Longrightarrow> distinct (map fkey fs) \<and> fkey ` set fs \<subseteq> pending s \<and>
     ok t \<and> pending t = pending s - fkey ` set fs"
proof (induction fs arbitrary: s)
  case (Cons f fs)
  from Cons.prems(2) obtain u where u: "finish f s = Inr u" "foldE finish fs u = Inr t"
    by (auto simp: result_simps)
  have mem: "fkey f \<in> pending s" using finish_absent [OF Cons.prems(1), of f] u(1) by auto
  with finish_law [OF Cons.prems(1) mem] u(1)
  have "ok u" "pending u = pending s - {fkey f}" by auto
  with Cons.IH [OF _ u(2)] mem show ?case by auto
qed simp

lemma foldE_succeeds:
  "ok s \<Longrightarrow> distinct (map fkey fs) \<Longrightarrow> fkey ` set fs \<subseteq> pending s \<Longrightarrow> \<exists>t. foldE finish fs s = Inr t"
proof (induction fs arbitrary: s)
  case (Cons f fs)
  with finish_law [of s f] obtain u where u: "finish f s = Inr u" "ok u" "pending u = pending s - {fkey f}"
    by auto
  have "fkey ` set fs \<subseteq> pending u"
    using Cons.prems(2,3) u(3) by (simp add: subset_Diff_insert)
  with Cons.IH [OF u(2)] Cons.prems(2) u(1) show ?case by simp
qed simp

text \<open>A key that no completion names stays pending, whatever else completes.\<close>

lemma never_finished:
  "k \<in> P \<Longrightarrow> \<forall>f. Finish f \<in> set ops \<longrightarrow> fkey f \<noteq> k \<Longrightarrow> k \<in> pending_after key fkey ops P"
proof (induction ops arbitrary: P)
  case (Cons op ops)
  then show ?case by (cases op) auto
qed simp

end

end
