(* ===== verification/LeafAsyncIO.thy ===== *)
theory LeafAsyncIO
  imports CompletionTable "HOL-Library.Signed_Division"
begin

text \<open>
  \<open>fbthrift/exp3/LEAF/AsyncIO.h\<close> and \<open>AsyncIO.cpp\<close>: asynchronous IO of the leaf server over libaio.
  An \<open>IO\<close> object is identified by its address; \<open>AsyncIO\<close> keeps the objects it has submitted in a vector
  and hands each back through its promise when the kernel reports it. The kernel is outside:
  what it reports, what it has put into a buffer by then, and whether memory could be
  allocated are inputs.
\<close>

section \<open>IO objects\<close>

datatype IOType = READ | WRITE

datatype iocb_command = IO_CMD_PREAD | IO_CMD_PWRITE

record iocb =
  cb_command :: iocb_command
  cb_fd :: int
  cb_nbytes :: u64
  cb_offset :: u64
  cb_data :: "nat option"       \<comment> \<open>the address stored by the submitter\<close>
  cb_eventfd :: "int option"

record IO =
  io_addr :: nat
  bufp :: bytes
  io_offset :: u64
  io_size :: u64
  io_result :: int
  io_fd :: int
  io_type :: IOType
  io_cb :: iocb
  fulfilled :: bool

definition prepare :: "IOType \<Rightarrow> int \<Rightarrow> u64 \<Rightarrow> u64 \<Rightarrow> iocb" where
  "prepare ty fd sz off =
     \<lparr>cb_command = (case ty of READ \<Rightarrow> IO_CMD_PREAD | WRITE \<Rightarrow> IO_CMD_PWRITE), cb_fd = fd, cb_nbytes = sz,
      cb_offset = off, cb_data = None, cb_eventfd = None\<rparr>"

text \<open>
  The allocator is a parameter: for a size it fails, or gives memory with some contents. The
  field \<open>result_\<close> has no initial value in the source; the parameter \<open>r0\<close> stands for what is there.
\<close>

definition allocBuffer :: "(u64 \<Rightarrow> bytes option) \<Rightarrow> u64 \<Rightarrow> bytes result" where
  "allocBuffer memalign sz = (case memalign sz of None \<Rightarrow> Inl Assert_Failed | Some b \<Rightarrow> Inr b)"

definition IO_new ::
  "(u64 \<Rightarrow> bytes option) \<Rightarrow> nat \<Rightarrow> int \<Rightarrow> int \<Rightarrow> u64 \<Rightarrow> u64 \<Rightarrow> IOType \<Rightarrow> IO result" where
  "IO_new memalign addr r0 fd sz off ty =
     bindE (allocBuffer memalign sz) (\<lambda>b.
       Inr \<lparr>io_addr = addr, bufp = b, io_offset = off, io_size = sz, io_result = r0, io_fd = fd,
            io_type = ty, io_cb = prepare ty fd sz off, fulfilled = False\<rparr>)"

definition setResult :: "int \<Rightarrow> IO \<Rightarrow> IO result" where
  "setResult r io = assertE (\<not> fulfilled io) (Inr (io\<lparr>io_result := r\<rparr>))"

definition getResult :: "IO \<Rightarrow> int" where
  "getResult io = io_result io"

definition completePromise :: "nat \<Rightarrow> IO \<Rightarrow> IO result" where
  "completePromise owner io =
     assertE (\<not> fulfilled io \<and> io_addr io = owner) (Inr (io\<lparr>fulfilled := True\<rparr>))"

section \<open>The AsyncIO object\<close>

record AsyncIO =
  capacity :: u16
  eventfd :: int
  handler_registered :: bool
  inflight :: "IO list"

definition AsyncIO_new :: "int \<Rightarrow> u16 \<Rightarrow> AsyncIO result" where
  "AsyncIO_new setup_rc cap =
     assertE (setup_rc = 0) (Inr \<lparr>capacity = cap, eventfd = 0, handler_registered = False, inflight = []\<rparr>)"

definition AsyncIO_init :: "int \<Rightarrow> AsyncIO \<Rightarrow> AsyncIO result" where
  "AsyncIO_init efd a =
     (let a = a\<lparr>eventfd := efd\<rparr> in
      assertE (eventfd a \<ge> 0) (Inr (a\<lparr>handler_registered := True\<rparr>)))"

text \<open>\<open>ioSubmit\<close>: the kernel gets the control block; the return code of \<open>io_submit\<close> is not looked at.\<close>

definition submitted_iocb :: "AsyncIO \<Rightarrow> IO \<Rightarrow> iocb" where
  "submitted_iocb a io = (io_cb io)\<lparr>cb_data := Some (io_addr io), cb_eventfd := Some (eventfd a)\<rparr>"

definition ioSubmit :: "IO \<Rightarrow> AsyncIO \<Rightarrow> AsyncIO" where
  "ioSubmit io a = a\<lparr>inflight := inflight a @ [io\<lparr>io_cb := submitted_iocb a io\<rparr>]\<rparr>"

text \<open>The destructor uses the handler, which only \<open>init\<close> creates.\<close>

definition AsyncIO_delete :: "AsyncIO \<Rightarrow> AsyncIO result" where
  "AsyncIO_delete a =
     (if handler_registered a then Inr (a\<lparr>handler_registered := False\<rparr>) else Inl Null_Deref)"

section \<open>Completions\<close>

text \<open>
  An event of \<open>io_getevents\<close>; \<open>ev_buffer\<close> is what the buffer of the IO holds by then.
\<close>

record io_event =
  ev_data :: nat
  ev_res :: u64
  ev_res2 :: u64
  ev_buffer :: bytes

definition ioResult :: "io_event \<Rightarrow> int" where
  "ioResult ev = sint (push_bit 32 (ev_res2 ev) OR ev_res ev)"

fun find_index :: "('a \<Rightarrow> bool) \<Rightarrow> 'a list \<Rightarrow> nat option" where
  "find_index p [] = None"
| "find_index p (x # xs) = (if p x then Some 0 else map_option Suc (find_index p xs))"

text \<open>Swapping the found element with the last one and taking the last.\<close>

definition swap_take :: "nat \<Rightarrow> 'a list \<Rightarrow> 'a \<times> 'a list" where
  "swap_take i xs =
     (let xs = (if length xs \<ge> 2 then xs[i := last xs, length xs - 1 := xs ! i] else xs) in
      (last xs, butlast xs))"

definition complete_one :: "io_event \<Rightarrow> AsyncIO \<times> IO list \<Rightarrow> (AsyncIO \<times> IO list) result" where
  "complete_one ev st =
     (case st of (a, fin) \<Rightarrow>
        (case find_index (\<lambda>io. io_addr io = ev_data ev) (inflight a) of
           None \<Rightarrow> Inl Assert_Failed
         | Some i \<Rightarrow>
             (case swap_take i (inflight a) of (io, rest) \<Rightarrow>
                assertE (io_addr io = ev_data ev)
                  (bindE (setResult (ioResult ev) (io\<lparr>bufp := ev_buffer ev\<rparr>)) (\<lambda>io.
                     bindE (completePromise (io_addr io) io) (\<lambda>io.
                       Inr (a\<lparr>inflight := rest\<rparr>, fin @ [io])))))))"

text \<open>
  \<open>iosCompleted\<close>: each round reads the event counter; what the reads and \<open>io_getevents\<close> return is
  the input. A read that succeeds with the count 0 (which an eventfd never gives) fails the assertion
  on \<open>errno\<close> unless an old value happens to be there; it counts as failing. The second component collects the IOs whose promise has been fulfilled.
\<close>

datatype eventfd_read = Events u64 "io_event list" | Would_Block | Read_Error

fun iosCompleted :: "eventfd_read list \<Rightarrow> AsyncIO \<times> IO list \<Rightarrow> (AsyncIO \<times> IO list) result" where
  "iosCompleted [] st = Inr st"
| "iosCompleted (r # rs) st =
     assertE (eventfd (fst st) > 0)
       (case r of
          Read_Error \<Rightarrow> Inl Assert_Failed
        | Would_Block \<Rightarrow> Inr st
        | Events n evs \<Rightarrow>
            if n = 0 then Inl Assert_Failed
            else assertE (unat n = length evs) (bindE (foldE complete_one evs st) (iosCompleted rs)))"

definition handlerReady :: "bool \<Rightarrow> eventfd_read list \<Rightarrow> AsyncIO \<times> IO list \<Rightarrow> (AsyncIO \<times> IO list) result" where
  "handlerReady read_event rs st = assertE read_event (iosCompleted rs st)"


section \<open>The vector as a table\<close>

lemma find_index_Some:
  "find_index p xs = Some i \<Longrightarrow> i < length xs \<and> p (xs ! i)"
  by (induction xs arbitrary: i) (auto split: if_splits)

lemma find_index_None: "find_index p xs = None \<longleftrightarrow> (\<forall>x \<in> set xs. \<not> p x)"
  by (induction xs) auto

lemma swap_take_mset:
  assumes "i < length xs"
  shows "fst (swap_take i xs) = xs ! i \<and> add_mset (xs ! i) (mset (snd (swap_take i xs))) = mset xs"
proof (cases "length xs \<ge> 2")
  case False
  with assms obtain x where "xs = [x]" "i = 0"
    by (cases xs rule: rev_cases) (auto simp: Suc_le_eq)
  then show ?thesis by (simp add: swap_take_def)
next
  case True
  let ?ys = "xs[i := last xs, length xs - 1 := xs ! i]"
  have ne: "xs \<noteq> []" using True by auto
  then have last: "last xs = xs ! (length xs - 1)" by (simp add: last_conv_nth)
  have "mset ?ys = mset xs" unfolding last by (rule mset_swap) (use assms ne in simp_all)
  moreover have "last ?ys = xs ! i" using ne by (simp add: last_conv_nth)
  moreover have "mset ?ys = add_mset (last ?ys) (mset (butlast ?ys))"
    using ne by (metis append_butlast_last_id list_update_nonempty mset.simps(2) mset_append
        union_mset_add_mset_right add_mset_add_single mset.simps(1))
  ultimately show ?thesis using True by (simp add: swap_take_def Let_def)
qed

definition aio_ok :: "AsyncIO \<times> IO list \<Rightarrow> bool" where
  "aio_ok st \<longleftrightarrow> distinct (map io_addr (inflight (fst st))) \<and> (\<forall>io \<in> set (inflight (fst st)). \<not> fulfilled io)"

definition aio_pending :: "AsyncIO \<times> IO list \<Rightarrow> nat set" where
  "aio_pending st = io_addr ` set (inflight (fst st))"

definition aio_enter :: "IO \<Rightarrow> AsyncIO \<times> IO list \<Rightarrow> AsyncIO \<times> IO list" where
  "aio_enter io st = (ioSubmit (io\<lparr>fulfilled := False\<rparr>) (fst st), snd st)"

text \<open>One completion of an IO in flight, written out.\<close>

lemma complete_one_pending:
  assumes ok: "aio_ok (a, fin)" and mem: "ev_data ev \<in> aio_pending (a, fin)"
  shows "\<exists>io rest. io \<in> set (inflight a) \<and> io_addr io = ev_data ev \<and>
    mset (inflight a) = add_mset io (mset rest) \<and>
    complete_one ev (a, fin) =
      Inr (a\<lparr>inflight := rest\<rparr>, fin @ [io\<lparr>bufp := ev_buffer ev, io_result := ioResult ev, fulfilled := True\<rparr>])"
proof -
  from mem have "find_index (\<lambda>io. io_addr io = ev_data ev) (inflight a) \<noteq> None"
    by (auto simp: find_index_None aio_pending_def)
  then obtain i where i: "find_index (\<lambda>io. io_addr io = ev_data ev) (inflight a) = Some i" by blast
  note fi = find_index_Some [OF i]
  obtain io rest where st: "swap_take i (inflight a) = (io, rest)" by fastforce
  with swap_take_mset [of i "inflight a"] fi
  have io: "io = inflight a ! i" "mset (inflight a) = add_mset io (mset rest)" by auto
  have mem': "io \<in> set (inflight a)" "io_addr io = ev_data ev" using fi io(1) by auto
  then have "\<not> fulfilled io" using ok by (simp add: aio_ok_def)
  then have "complete_one ev (a, fin) =
      Inr (a\<lparr>inflight := rest\<rparr>, fin @ [io\<lparr>bufp := ev_buffer ev, io_result := ioResult ev, fulfilled := True\<rparr>])"
    using mem'(2) by (simp add: complete_one_def i st setResult_def completePromise_def)
  with io mem' show ?thesis by blast
qed

lemma addrs_remove:
  assumes "mset xs = add_mset io (mset rest)" and "distinct (map io_addr xs)"
  shows "distinct (map io_addr rest) \<and> io_addr ` set rest = io_addr ` set xs - {io_addr io} \<and> set rest \<subseteq> set xs"
proof -
  have m: "mset (map io_addr xs) = mset (map io_addr (io # rest))" using assms(1) by simp
  have "distinct (map io_addr (io # rest))" by (metis assms(2) m mset_eq_imp_distinct_iff)
  moreover have "set xs = insert io (set rest)"
    using arg_cong [OF assms(1), of set_mset] by simp
  ultimately show ?thesis by auto
qed

interpretation aio: completion_table aio_enter io_addr complete_one ev_data aio_pending aio_ok
proof
  fix s :: "AsyncIO \<times> IO list" and x :: IO
  assume "aio_ok s" "io_addr x \<notin> aio_pending s"
  then show "aio_ok (aio_enter x s) \<and> aio_pending (aio_enter x s) = insert (io_addr x) (aio_pending s)"
    by (auto simp: aio_ok_def aio_pending_def aio_enter_def ioSubmit_def)
next
  fix s :: "AsyncIO \<times> IO list" and f :: io_event
  assume ok: "aio_ok s" and mem: "ev_data f \<in> aio_pending s"
  obtain a fin where s: "s = (a, fin)" by fastforce
  from complete_one_pending [OF ok [unfolded s] mem [unfolded s]] obtain io rest where
    io: "io_addr io = ev_data f" "mset (inflight a) = add_mset io (mset rest)"
    "complete_one f (a, fin) = Inr (a\<lparr>inflight := rest\<rparr>,
      fin @ [io\<lparr>bufp := ev_buffer f, io_result := ioResult f, fulfilled := True\<rparr>])"
    by blast
  with addrs_remove [OF io(2)] ok
  show "\<exists>t. complete_one f s = Inr t \<and> aio_ok t \<and> aio_pending t = aio_pending s - {ev_data f}"
    by (auto simp: s aio_ok_def aio_pending_def)
next
  fix s :: "AsyncIO \<times> IO list" and f :: io_event
  assume "aio_ok s" "ev_data f \<notin> aio_pending s"
  then have "find_index (\<lambda>io. io_addr io = ev_data f) (inflight (fst s)) = None"
    by (auto simp: find_index_None aio_pending_def image_iff)
  then show "\<exists>e. complete_one f s = Inl e" by (cases s) (simp add: complete_one_def)
qed


section \<open>Properties\<close>

text \<open>What has been handed back, as address, result and buffer of each IO.\<close>

definition handed :: "AsyncIO \<times> IO list \<Rightarrow> (nat \<times> int \<times> bytes) list" where
  "handed st = map (\<lambda>io. (io_addr io, getResult io, bufp io)) (snd st)"

definition reported :: "io_event list \<Rightarrow> (nat \<times> int \<times> bytes) list" where
  "reported evs = map (\<lambda>ev. (ev_data ev, ioResult ev, ev_buffer ev)) evs"

fun finishes :: "('x, 'f) table_op list \<Rightarrow> 'f list" where
  "finishes [] = []"
| "finishes (Enter x # ops) = finishes ops"
| "finishes (Finish f # ops) = f # finishes ops"

lemma complete_one_handed:
  assumes "complete_one ev st = Inr st'"
  shows "handed st' = handed st @ reported [ev] \<and> eventfd (fst st') = eventfd (fst st)"
  using assms
  by (auto simp: complete_one_def handed_def reported_def getResult_def setResult_def completePromise_def
      result_simps split: prod.splits option.splits)

lemma completions_handed:
  "foldE complete_one evs st = Inr st' \<Longrightarrow>
     handed st' = handed st @ reported evs \<and> eventfd (fst st') = eventfd (fst st)"
proof (induction evs arbitrary: st)
  case (Cons ev evs)
  then obtain u where u: "complete_one ev st = Inr u" "foldE complete_one evs u = Inr st'"
    by (auto simp: result_simps)
  from Cons.IH [OF u(2)] complete_one_handed [OF u(1)] show ?case by (simp add: reported_def)
qed (simp add: reported_def)

lemma run_handed:
  "foldE (table_step aio_enter complete_one) ops st = Inr st' \<Longrightarrow>
     handed st' = handed st @ reported (finishes ops)"
proof (induction ops arbitrary: st)
  case (Cons op ops)
  show ?case
  proof (cases op)
    case (Enter x)
    with Cons show ?thesis by (simp add: handed_def aio_enter_def)
  next
    case (Finish f)
    with Cons.prems obtain u where u: "complete_one f st = Inr u"
      "foldE (table_step aio_enter complete_one) ops u = Inr st'"
      by (auto simp: result_simps)
    from Cons.IH [OF u(2)] complete_one_handed [OF u(1)] Finish show ?thesis
      by (simp add: reported_def)
  qed
qed (simp add: reported_def)

definition aio_start :: "u16 \<Rightarrow> int \<Rightarrow> AsyncIO \<times> IO list" where
  "aio_start cap efd = (\<lparr>capacity = cap, eventfd = efd, handler_registered = True, inflight = []\<rparr>, [])"

text \<open>
  C26. Submissions and completions in any interleaving: if the kernel reports only IOs in
  flight, each once, no assertion fails, every report is handed to exactly one promise with
  the reported result and buffer, in the order of the reports, and what stays in the vector is what
  has been submitted and not reported.
\<close>

theorem aio_every_completion_once:
  assumes "allowed io_addr ev_data ops {}"
  shows "\<exists>st. foldE (table_step aio_enter complete_one) ops (aio_start cap efd) = Inr st \<and>
    handed st = reported (finishes ops) \<and>
    io_addr ` set (inflight (fst st)) = pending_after io_addr ev_data ops {} \<and>
    distinct (map io_addr (inflight (fst st)))"
proof -
  have start: "aio_ok (aio_start cap efd)" "aio_pending (aio_start cap efd) = {}"
    "handed (aio_start cap efd) = []"
    by (simp_all add: aio_ok_def aio_start_def aio_pending_def handed_def)
  from aio.allowed_run [OF start(1), of ops] assms start(2) obtain st where
    st: "foldE (table_step aio_enter complete_one) ops (aio_start cap efd) = Inr st" "aio_ok st"
      "aio_pending st = pending_after io_addr ev_data ops {}"
    by auto
  from run_handed [OF st(1)] start(3) st show ?thesis
    by (auto simp: aio_pending_def aio_ok_def)
qed

definition demo_io :: "nat \<Rightarrow> IO" where
  "demo_io a = \<lparr>io_addr = a, bufp = [0, 0], io_offset = 0, io_size = 2, io_result = 0, io_fd = 3,
     io_type = READ, io_cb = prepare READ 3 2 0, fulfilled = False\<rparr>"

definition demo_event :: "nat \<Rightarrow> u64 \<Rightarrow> io_event" where
  "demo_event a r = \<lparr>ev_data = a, ev_res = r, ev_res2 = 0, ev_buffer = [65, 66]\<rparr>"

theorem aio_every_completion_once_witness:
  "\<exists>st. foldE (table_step aio_enter complete_one)
      [Enter (demo_io 1), Enter (demo_io 2), Enter (demo_io 3), Finish (demo_event 1 2), Finish (demo_event 3 (- 5))]
      (aio_start 128 7) = Inr st \<and> map fst (handed st) = [1, 3] \<and> io_addr ` set (inflight (fst st)) = {2}"
  using aio_every_completion_once [where ops = "[Enter (demo_io 1), Enter (demo_io 2), Enter (demo_io 3),
      Finish (demo_event 1 2), Finish (demo_event 3 (- 5))]" and cap = 128 and efd = 7]
  by (force simp: demo_io_def demo_event_def reported_def)

text \<open>
  The handler: however the kernel batches its reports, one call of \<open>iosCompleted\<close> takes all of
  them and returns when the counter is drained.
\<close>

theorem iosCompleted_drains:
  assumes "aio_ok st" and "eventfd (fst st) > 0"
    and "\<forall>evs \<in> set batches. evs \<noteq> [] \<and> length evs < 2 ^ 64"
    and "distinct (map ev_data (concat batches))" and "ev_data ` set (concat batches) \<subseteq> aio_pending st"
  shows "\<exists>st'. iosCompleted (map (\<lambda>evs. Events (of_nat (length evs)) evs) batches @ [Would_Block]) st = Inr st' \<and>
    handed st' = handed st @ reported (concat batches) \<and>
    aio_pending st' = aio_pending st - ev_data ` set (concat batches)"
  using assms
proof (induction batches arbitrary: st)
  case (Cons evs batches)
  have "distinct (map ev_data evs)" "ev_data ` set evs \<subseteq> aio_pending st"
    using Cons.prems(4,5) by auto
  from aio.foldE_succeeds [OF Cons.prems(1) this] obtain u where u: "foldE complete_one evs st = Inr u"
    by blast
  from aio.foldE_allowed [OF Cons.prems(1) u] completions_handed [OF u]
  have p: "aio_ok u" "aio_pending u = aio_pending st - ev_data ` set evs"
    "handed u = handed st @ reported evs" "eventfd (fst u) = eventfd (fst st)" by simp_all
  have rest: "\<exists>st'. iosCompleted (map (\<lambda>evs. Events (of_nat (length evs)) evs) batches @ [Would_Block]) u = Inr st' \<and>
      handed st' = handed u @ reported (concat batches) \<and>
      aio_pending st' = aio_pending u - ev_data ` set (concat batches)"
  proof (rule Cons.IH)
    have "ev_data ` set (concat batches) \<inter> ev_data ` set evs = {}"
      using Cons.prems(4) by (simp add: Int_commute)
    moreover have "ev_data ` set (concat batches) \<subseteq> aio_pending st" using Cons.prems(5) by auto
    ultimately show "ev_data ` set (concat batches) \<subseteq> aio_pending u" unfolding p(2) by blast
  qed (use Cons.prems p in auto)
  have n: "unat (of_nat (length evs) :: u64) = length evs"
    using Cons.prems(3) by (simp add: unat_of_nat_u64)
  then have nz: "(of_nat (length evs) :: u64) \<noteq> 0"
    using Cons.prems(3) by (metis length_0_conv list.set_intros(1) unat_0)
  have "aio_pending st - ev_data ` set evs - ev_data ` set (concat batches) =
      aio_pending st - ev_data ` set (concat (evs # batches))"
    by (simp only: concat.simps set_append image_Un Diff_Un) blast
  with rest n nz u p Cons.prems(2) show ?case by (simp add: reported_def)
qed (simp add: reported_def)


theorem iosCompleted_drains_witness:
  "\<exists>st. iosCompleted [Events 2 [demo_event 2 1, demo_event 1 2], Events 1 [demo_event 3 2], Would_Block]
      (aio_enter (demo_io 3) (aio_enter (demo_io 2) (aio_enter (demo_io 1) (aio_start 128 7)))) = Inr st \<and>
     map fst (handed st) = [2, 1, 3] \<and> aio_pending st = {}"
  using iosCompleted_drains [of "aio_enter (demo_io 3) (aio_enter (demo_io 2) (aio_enter (demo_io 1) (aio_start 128 7)))"
      "[[demo_event 2 1, demo_event 1 2], [demo_event 3 2]]"]
  by (force simp: demo_io_def demo_event_def reported_def aio_enter_def aio_start_def ioSubmit_def aio_ok_def
      aio_pending_def handed_def)

text \<open>
  The result of an IO: with the second result word 0, as the kernel leaves it, \<open>ioResult\<close> is
  the signed value of the first, so a byte count and a negative error number come through; and
  it depends on the low half of the second word only.
\<close>

theorem ioResult_value:
  "ioResult (ev\<lparr>ev_res2 := 0\<rparr>) = sint (ev_res ev) \<and>
   ioResult ev = ioResult (ev\<lparr>ev_res2 := take_bit 32 (ev_res2 ev)\<rparr>)"
proof -
  have "push_bit 32 (take_bit 32 (ev_res2 ev)) = push_bit 32 (ev_res2 ev)"
    by (rule bit_word_eqI) (auto simp: bit_simps)
  then show ?thesis by (simp add: ioResult_def)
qed

end
