(* ===== verification/LeafServer.thy ===== *)
theory LeafServer
  imports LeafAsyncIO
begin

text \<open>
  \<open>fbthrift/exp3/LEAF/LeafServer.cpp\<close>: the leaf's handlers on top of \<open>AsyncIO\<close>. A call opens its
  file, submits an IO and leaves a continuation with the IO's promise; a report of the kernel
  runs the continuation; the reply of a read goes through a pool of worker threads. The operating system
  is a parameter: the effect of \<open>open\<close> on the file system \<open>'f\<close>, the allocator, and the
  kernel's reports.
\<close>

datatype open_flag = O_RDONLY | O_WRONLY | O_TRUNC | O_DIRECT | O_CREAT

record LeafBenchmarkData =
  io_latency :: int
  cpu_consumed :: int
  leaf_data :: bytes

text \<open>The callback of a call is identified by a number; what is left to do once its IO is complete:\<close>

datatype leaf_cont =
    Write_Done nat int            \<comment> \<open>callback, descriptor\<close>
  | Read_Reply nat int u32 int    \<comment> \<open>callback, descriptor, size, start time\<close>

datatype leaf_reply = Reply_Done nat | Reply_Data nat LeafBenchmarkData

record leaf_task =
  task_cb :: nat
  task_buffer :: bytes
  task_size :: u32
  task_latency :: int

record 'f leaf_state =
  asyncio :: AsyncIO
  asyncio_inited :: bool
  leaf_path :: string
  files :: 'f
  conts :: "(nat \<times> leaf_cont) list"    \<comment> \<open>by the address of the IO\<close>
  tasks :: "leaf_task list"              \<comment> \<open>queue of the thread manager\<close>
  replies :: "leaf_reply list"
  closed_fds :: "int list"

definition LeafHandler_new :: "int \<Rightarrow> string \<Rightarrow> 'f \<Rightarrow> 'f leaf_state result" where
  "LeafHandler_new setup_rc path f =
     bindE (AsyncIO_new setup_rc 128) (\<lambda>a.
       Inr \<lparr>asyncio = a, asyncio_inited = False, leaf_path = path, files = f, conts = [], tasks = [],
            replies = [], closed_fds = []\<rparr>)"

definition LeafHandler_delete :: "'f leaf_state \<Rightarrow> AsyncIO result" where
  "LeafHandler_delete s = AsyncIO_delete (asyncio s)"

definition filename_to_path :: "string \<Rightarrow> string \<Rightarrow> string" where
  "filename_to_path path filename = path @ ''/'' @ filename"

text \<open>The first call creates the event descriptor; \<open>efd\<close> is what the system returns for it.\<close>

definition leaf_init :: "int \<Rightarrow> 'f leaf_state \<Rightarrow> 'f leaf_state result" where
  "leaf_init efd s =
     (if \<not> asyncio_inited s
      then bindE (AsyncIO_init efd (asyncio s)) (\<lambda>a. Inr (s\<lparr>asyncio := a, asyncio_inited := True\<rparr>))
      else Inr s)"

record 'f leaf_env =
  os_open :: "string \<Rightarrow> open_flag list \<Rightarrow> 'f \<Rightarrow> int \<times> 'f"
  memalign :: "u64 \<Rightarrow> bytes option"
  new_eventfd :: int
  new_addr :: nat
  old_result :: int
  time_now :: int

definition leaf_write :: "'f leaf_env \<Rightarrow> nat \<Rightarrow> string \<Rightarrow> bytes \<Rightarrow> 'f leaf_state \<Rightarrow> 'f leaf_state result" where
  "leaf_write env cb filename data s =
     bindE (leaf_init (new_eventfd env) s) (\<lambda>s.
       (case os_open env (filename_to_path (leaf_path s) filename) [O_WRONLY, O_TRUNC, O_DIRECT, O_CREAT] (files s) of
          (fd, f) \<Rightarrow>
            assertE (fd \<ge> 0)
              (bindE (IO_new (memalign env) (new_addr env) (old_result env) fd (of_nat (length data)) 0 WRITE) (\<lambda>io.
                 let io = io\<lparr>bufp := data @ drop (length data) (bufp io)\<rparr> in
                 Inr (s\<lparr>files := f, asyncio := ioSubmit io (asyncio s),
                        conts := (io_addr io, Write_Done cb fd) # conts s\<rparr>)))))"

text \<open>\<open>read\<close> opens with \<open>O_RDONLY | O_TRUNC | O_DIRECT\<close> and does not look at the descriptor.\<close>

definition leaf_read :: "'f leaf_env \<Rightarrow> nat \<Rightarrow> string \<Rightarrow> u32 \<Rightarrow> 'f leaf_state \<Rightarrow> 'f leaf_state result" where
  "leaf_read env cb filename size32 s =
     bindE (leaf_init (new_eventfd env) s) (\<lambda>s.
       (case os_open env (filename_to_path (leaf_path s) filename) [O_RDONLY, O_TRUNC, O_DIRECT] (files s) of
          (fd, f) \<Rightarrow>
            bindE (IO_new (memalign env) (new_addr env) (old_result env) fd (scast size32) 0 READ) (\<lambda>io.
              Inr (s\<lparr>files := f, asyncio := ioSubmit io (asyncio s),
                     conts := (io_addr io, Read_Reply cb fd size32 (time_now env)) # conts s\<rparr>))))"

text \<open>The continuations: a write replies, a read closes its file and queues a task.\<close>

definition run_cont :: "int \<Rightarrow> IO \<Rightarrow> leaf_cont \<Rightarrow> 'f leaf_state \<Rightarrow> 'f leaf_state" where
  "run_cont now io k s =
     (case k of
        Write_Done cb fd \<Rightarrow> s\<lparr>closed_fds := closed_fds s @ [fd], replies := replies s @ [Reply_Done cb]\<rparr>
      | Read_Reply cb fd sz t0 \<Rightarrow>
          s\<lparr>closed_fds := closed_fds s @ [fd],
            tasks := tasks s @ [\<lparr>task_cb = cb, task_buffer = bufp io, task_size = sz, task_latency = now - t0\<rparr>]\<rparr>)"

definition leaf_complete :: "int \<Rightarrow> io_event \<Rightarrow> 'f leaf_state \<Rightarrow> 'f leaf_state result" where
  "leaf_complete now ev s =
     bindE (complete_one ev (asyncio s, [])) (\<lambda>(a, ios).
       let io = last ios; s' = s\<lparr>asyncio := a, conts := filter (\<lambda>c. fst c \<noteq> io_addr io) (conts s)\<rparr> in
       (case map_of (conts s) (io_addr io) of
          None \<Rightarrow> Inr s'
        | Some k \<Rightarrow> Inr (run_cont now io k s')))"

text \<open>
  A worker takes any queued task, spins, and the reply is sent; \<open>assign\<close> copies \<open>size\<close> bytes
  out of the buffer.
\<close>

definition leaf_worker :: "nat \<Rightarrow> int \<Rightarrow> 'f leaf_state \<Rightarrow> 'f leaf_state result" where
  "leaf_worker i cpu s =
     (if i < length (tasks s) then
        let t = tasks s ! i; n = unat (scast (task_size t) :: u64) in
        if n > length (task_buffer t) then Inl Out_Of_Bounds
        else Inr (s\<lparr>tasks := take i (tasks s) @ drop (Suc i) (tasks s),
                    replies := replies s @ [Reply_Data (task_cb t)
                      \<lparr>io_latency = task_latency t, cpu_consumed = cpu, leaf_data = take n (task_buffer t)\<rparr>]\<rparr>)
      else Inr s)"

datatype 'f leaf_op =
    Write_Call "'f leaf_env" nat string bytes
  | Read_Call "'f leaf_env" nat string u32
  | Kernel int io_event
  | Worker nat int

definition leaf_step :: "'f leaf_op \<Rightarrow> 'f leaf_state \<Rightarrow> 'f leaf_state result" where
  "leaf_step op s =
     (case op of
        Write_Call env cb fn d \<Rightarrow> leaf_write env cb fn d s
      | Read_Call env cb fn sz \<Rightarrow> leaf_read env cb fn sz s
      | Kernel now ev \<Rightarrow> leaf_complete now ev s
      | Worker i cpu \<Rightarrow> leaf_worker i cpu s)"

section \<open>Every call is accounted for\<close>

fun called :: "'f leaf_op \<Rightarrow> nat multiset" where
  "called (Write_Call env cb fn d) = {#cb#}"
| "called (Read_Call env cb fn sz) = {#cb#}"
| "called _ = {#}"

fun cont_cb :: "leaf_cont \<Rightarrow> nat" where
  "cont_cb (Write_Done cb fd) = cb"
| "cont_cb (Read_Reply cb fd sz t) = cb"

fun reply_cb :: "leaf_reply \<Rightarrow> nat" where
  "reply_cb (Reply_Done cb) = cb"
| "reply_cb (Reply_Data cb d) = cb"

definition accounted :: "'f leaf_state \<Rightarrow> nat multiset" where
  "accounted s = mset (map reply_cb (replies s)) + mset (map task_cb (tasks s)) +
     mset (map (cont_cb \<circ> snd) (conts s))"

definition leaf_ok :: "'f leaf_state \<Rightarrow> bool" where
  "leaf_ok s \<longleftrightarrow> aio_ok (asyncio s, []) \<and>
     mset (map fst (conts s)) = mset (map io_addr (inflight (asyncio s)))"

text \<open>The address of a new object is not that of a live one.\<close>

fun fresh_op :: "'f leaf_op \<Rightarrow> 'f leaf_state \<Rightarrow> bool" where
  "fresh_op (Write_Call env cb fn d) s = (new_addr env \<notin> io_addr ` set (inflight (asyncio s)))"
| "fresh_op (Read_Call env cb fn sz) s = (new_addr env \<notin> io_addr ` set (inflight (asyncio s)))"
| "fresh_op _ s = True"


lemma filter_key:
  "distinct (map fst xs) \<Longrightarrow> map_of xs a = Some k \<Longrightarrow>
     mset xs = add_mset (a, k) (mset (filter (\<lambda>c. fst c \<noteq> a) xs))"
proof (induction xs)
  case (Cons x xs)
  show ?case
  proof (cases "fst x = a")
    case True
    with Cons.prems(1) have "\<forall>c \<in> set xs. fst c \<noteq> a" by (auto simp: image_iff)
    then have "filter (\<lambda>c. fst c \<noteq> a) xs = xs" by (simp add: filter_id_conv)
    with True Cons.prems(2) show ?thesis by (cases x) auto
  next
    case False
    with Cons show ?thesis by (cases x) auto
  qed
qed simp

lemma leaf_ok_keys:
  assumes "leaf_ok s"
  shows "distinct (map fst (conts s))"
    and "fst ` set (conts s) = io_addr ` set (inflight (asyncio s))"
proof -
  have m: "mset (map fst (conts s)) = mset (map io_addr (inflight (asyncio s)))"
    using assms by (simp add: leaf_ok_def)
  have "distinct (map io_addr (inflight (asyncio s)))"
    using assms by (simp add: leaf_ok_def aio_ok_def)
  then show "distinct (map fst (conts s))" using m mset_eq_imp_distinct_iff by blast
  show "fst ` set (conts s) = io_addr ` set (inflight (asyncio s))"
    using arg_cong [OF m, of set_mset] by simp
qed

lemma leaf_init_frame:
  assumes "leaf_init efd s = Inr t"
  shows "inflight (asyncio t) = inflight (asyncio s) \<and> conts t = conts s \<and> tasks t = tasks s \<and>
    replies t = replies s \<and> files t = files s \<and> leaf_path t = leaf_path s"
  using assms by (auto simp: leaf_init_def AsyncIO_init_def Let_def result_simps split: if_splits)

lemma IO_new_Inr:
  "IO_new al addr r0 fd sz off ty = Inr io \<longleftrightarrow>
     (\<exists>b. al sz = Some b \<and> io = \<lparr>io_addr = addr, bufp = b, io_offset = off, io_size = sz, io_result = r0,
       io_fd = fd, io_type = ty, io_cb = prepare ty fd sz off, fulfilled = False\<rparr>)"
  by (auto simp: IO_new_def allocBuffer_def result_simps split: option.splits)

text \<open>What both calls come to: one more IO in flight and one more continuation, with its address.\<close>

lemma leaf_write_Inr:
  assumes "leaf_write env cb fn data s = Inr t"
  shows "\<exists>io fd. io_addr io = new_addr env \<and> \<not> fulfilled io \<and>
    inflight (asyncio t) = inflight (asyncio s) @ [io] \<and>
    conts t = (new_addr env, Write_Done cb fd) # conts s \<and> tasks t = tasks s \<and> replies t = replies s"
proof -
  from assms obtain u where u: "leaf_init (new_eventfd env) s = Inr u"
    by (auto simp: leaf_write_def result_simps)
  obtain fd f where o: "os_open env (filename_to_path (leaf_path s) fn)
      [O_WRONLY, O_TRUNC, O_DIRECT, O_CREAT] (files s) = (fd, f)" by fastforce
  show ?thesis
    using assms leaf_init_frame [OF u]
    by (auto simp: leaf_write_def u o result_simps IO_new_Inr ioSubmit_def Let_def)
qed

lemma leaf_read_Inr:
  assumes "leaf_read env cb fn sz s = Inr t"
  shows "\<exists>io fd f b. os_open env (filename_to_path (leaf_path s) fn) [O_RDONLY, O_TRUNC, O_DIRECT] (files s) = (fd, f) \<and>
    memalign env (scast sz) = Some b \<and> files t = f \<and> bufp io = b \<and>
    io_addr io = new_addr env \<and> \<not> fulfilled io \<and>
    inflight (asyncio t) = inflight (asyncio s) @ [io] \<and>
    conts t = (new_addr env, Read_Reply cb fd sz (time_now env)) # conts s \<and> tasks t = tasks s \<and>
    replies t = replies s"
proof -
  from assms obtain u where u: "leaf_init (new_eventfd env) s = Inr u"
    by (auto simp: leaf_read_def result_simps)
  note fr = leaf_init_frame [OF u]
  obtain fd f where o: "os_open env (filename_to_path (leaf_path s) fn)
      [O_RDONLY, O_TRUNC, O_DIRECT] (files s) = (fd, f)" by fastforce
  show ?thesis
    using assms fr
    by (auto simp: leaf_read_def u o result_simps IO_new_Inr ioSubmit_def Let_def)
qed

lemma call_ok:
  assumes "leaf_ok s" and "io_addr io \<notin> io_addr ` set (inflight (asyncio s))" and "\<not> fulfilled io"
    and "inflight (asyncio t) = inflight (asyncio s) @ [io]" and "conts t = (io_addr io, k) # conts s"
  shows "leaf_ok t"
  using assms by (auto simp: leaf_ok_def aio_ok_def)

lemma leaf_complete_Inr:
  assumes ok: "leaf_ok s" and "leaf_complete now ev s = Inr t"
  shows "\<exists>io k rest. mset (inflight (asyncio s)) = add_mset io (mset rest) \<and> io_addr io = ev_data ev \<and>
    map_of (conts s) (ev_data ev) = Some k \<and>
    t = run_cont now (io\<lparr>bufp := ev_buffer ev, io_result := ioResult ev, fulfilled := True\<rparr>) k
      (s\<lparr>asyncio := (asyncio s)\<lparr>inflight := rest\<rparr>, conts := filter (\<lambda>c. fst c \<noteq> ev_data ev) (conts s)\<rparr>)"
proof -
  have aok: "aio_ok (asyncio s, [])" using ok by (simp add: leaf_ok_def)
  from assms(2) obtain st where "complete_one ev (asyncio s, []) = Inr st"
    by (auto simp: leaf_complete_def result_simps)
  with aio.finish_absent [OF aok, of ev] have mem: "ev_data ev \<in> aio_pending (asyncio s, [])" by auto
  from complete_one_pending [OF aok mem] obtain io rest where
    io: "io_addr io = ev_data ev" "mset (inflight (asyncio s)) = add_mset io (mset rest)"
    "complete_one ev (asyncio s, []) = Inr ((asyncio s)\<lparr>inflight := rest\<rparr>,
      [io\<lparr>bufp := ev_buffer ev, io_result := ioResult ev, fulfilled := True\<rparr>])"
    by auto
  have "ev_data ev \<in> fst ` set (conts s)"
    using mem leaf_ok_keys(2) [OF ok] by (simp add: aio_pending_def)
  then obtain k where k: "map_of (conts s) (ev_data ev) = Some k"
    by (metis map_of_eq_None_iff not_None_eq)
  have "t = run_cont now (io\<lparr>bufp := ev_buffer ev, io_result := ioResult ev, fulfilled := True\<rparr>) k
      (s\<lparr>asyncio := (asyncio s)\<lparr>inflight := rest\<rparr>, conts := filter (\<lambda>c. fst c \<noteq> ev_data ev) (conts s)\<rparr>)"
    using assms(2) k io(1) by (simp add: leaf_complete_def io(3) Let_def)
  with io k show ?thesis by blast
qed


lemma leaf_complete_ok:
  assumes ok: "leaf_ok s" and c: "leaf_complete now ev s = Inr t"
  shows "leaf_ok t \<and> accounted t = accounted s"
proof -
  from leaf_complete_Inr [OF ok c] obtain io k rest where
    io: "mset (inflight (asyncio s)) = add_mset io (mset rest)" "io_addr io = ev_data ev"
      "map_of (conts s) (ev_data ev) = Some k"
    and t: "t = run_cont now (io\<lparr>bufp := ev_buffer ev, io_result := ioResult ev, fulfilled := True\<rparr>) k
      (s\<lparr>asyncio := (asyncio s)\<lparr>inflight := rest\<rparr>, conts := filter (\<lambda>c. fst c \<noteq> ev_data ev) (conts s)\<rparr>)"
    by blast
  define cs where "cs = filter (\<lambda>c. fst c \<noteq> ev_data ev) (conts s)"
  have m: "mset (conts s) = add_mset (ev_data ev, k) (mset cs)"
    unfolding cs_def by (rule filter_key [OF leaf_ok_keys(1) [OF ok] io(3)])
  have frame: "asyncio t = (asyncio s)\<lparr>inflight := rest\<rparr>" "conts t = cs"
    by (auto simp: t run_cont_def cs_def split: leaf_cont.splits)
  have "add_mset (ev_data ev) (mset (map fst cs)) = add_mset (ev_data ev) (mset (map io_addr rest))"
    using ok m io(1,2) by (simp add: leaf_ok_def)
  then have keys: "mset (map fst cs) = mset (map io_addr rest)" by simp
  have aok: "aio_ok (asyncio s, [])" using ok by (simp add: leaf_ok_def)
  then have d: "distinct (map io_addr (inflight (asyncio s)))" "\<forall>x \<in> set (inflight (asyncio s)). \<not> fulfilled x"
    by (simp_all add: aio_ok_def)
  with addrs_remove [OF io(1) d(1)] have "aio_ok (asyncio t, [])"
    by (auto simp: aio_ok_def frame)
  with keys have "leaf_ok t" by (simp add: leaf_ok_def frame)
  moreover have "mset (map (cont_cb \<circ> snd) (conts s)) = add_mset (cont_cb k) (mset (map (cont_cb \<circ> snd) cs))"
    using arg_cong [OF m, of "image_mset (cont_cb \<circ> snd)"] by simp
  then have "accounted t = accounted s"
    by (cases k) (simp_all add: accounted_def t run_cont_def cs_def [symmetric])
  ultimately show ?thesis by blast
qed

lemma mset_take_nth:
  assumes "i < length xs"
  shows "mset (map f xs) = add_mset (f (xs ! i)) (mset (map f (take i xs @ drop (Suc i) xs)))"
proof -
  have "mset (map f xs) = mset (map f (take i xs @ xs ! i # drop (Suc i) xs))"
    using assms by (simp only: id_take_nth_drop [symmetric])
  then show ?thesis by simp
qed

lemma leaf_worker_ok:
  assumes "leaf_worker i cpu s = Inr t"
  shows "asyncio t = asyncio s \<and> conts t = conts s \<and> accounted t = accounted s"
proof (cases "i < length (tasks s)")
  case True
  note mset_take_nth [OF this, of task_cb]
  with True assms show ?thesis
    by (auto simp: leaf_worker_def accounted_def Let_def split: if_splits)
qed (use assms in \<open>simp add: leaf_worker_def\<close>)

lemma leaf_step_ok:
  assumes ok: "leaf_ok s" and fresh: "fresh_op op s" and st: "leaf_step op s = Inr t"
  shows "leaf_ok t \<and> accounted t = accounted s + called op"
proof (cases op)
  case (Write_Call env cb fn d)
  with st have "leaf_write env cb fn d s = Inr t" by (simp add: leaf_step_def)
  from leaf_write_Inr [OF this] obtain io fd where io: "io_addr io = new_addr env" "\<not> fulfilled io"
    "inflight (asyncio t) = inflight (asyncio s) @ [io]"
    "conts t = (io_addr io, Write_Done cb fd) # conts s" "tasks t = tasks s" "replies t = replies s"
    by auto
  have "leaf_ok t" by (rule call_ok [OF ok _ io(2-4)]) (use fresh Write_Call io(1) in simp)
  with io Write_Call show ?thesis by (simp add: accounted_def)
next
  case (Read_Call env cb fn sz)
  with st have "leaf_read env cb fn sz s = Inr t" by (simp add: leaf_step_def)
  from leaf_read_Inr [OF this] obtain io fd where io: "io_addr io = new_addr env" "\<not> fulfilled io"
    "inflight (asyncio t) = inflight (asyncio s) @ [io]"
    "conts t = (io_addr io, Read_Reply cb fd sz (time_now env)) # conts s" "tasks t = tasks s"
    "replies t = replies s"
    by metis
  have "leaf_ok t" by (rule call_ok [OF ok _ io(2-4)]) (use fresh Read_Call io(1) in simp)
  with io Read_Call show ?thesis by (simp add: accounted_def)
next
  case (Kernel now ev)
  with st leaf_complete_ok [OF ok, of now ev t] show ?thesis by (simp add: leaf_step_def)
next
  case (Worker i cpu)
  with st leaf_worker_ok [of i cpu s t] ok show ?thesis by (simp add: leaf_step_def leaf_ok_def)
qed

text \<open>Sequences of steps in which every new object has a fresh address.\<close>

fun leaf_run :: "'f leaf_op list \<Rightarrow> 'f leaf_state \<Rightarrow> 'f leaf_state result" where
  "leaf_run [] s = Inr s"
| "leaf_run (op # ops) s = bindE (leaf_step op s) (leaf_run ops)"

fun fresh_ops :: "'f leaf_op list \<Rightarrow> 'f leaf_state \<Rightarrow> bool" where
  "fresh_ops [] s = True"
| "fresh_ops (op # ops) s =
     (fresh_op op s \<and> (case leaf_step op s of Inl e \<Rightarrow> True | Inr t \<Rightarrow> fresh_ops ops t))"

lemma leaf_run_ok:
  "leaf_ok s \<Longrightarrow> leaf_run ops s = Inr t \<Longrightarrow> fresh_ops ops s \<Longrightarrow>
     leaf_ok t \<and> accounted t = accounted s + sum_list (map called ops)"
proof (induction ops arbitrary: s)
  case (Cons op ops)
  from Cons.prems(2) obtain u where u: "leaf_step op s = Inr u" "leaf_run ops u = Inr t"
    by (auto simp: result_simps)
  from leaf_step_ok [OF Cons.prems(1) _ u(1)] Cons.prems(3)
  have "leaf_ok u" "accounted u = accounted s + called op" by simp_all
  with Cons.IH [OF _ u(2)] Cons.prems(3) u(1) show ?case by (simp add: add.assoc)
qed simp


section \<open>Properties\<close>

lemma LeafHandler_new_ok:
  "LeafHandler_new rc path f = Inr s \<Longrightarrow> leaf_ok s \<and> accounted s = {#}"
  by (auto simp: LeafHandler_new_def AsyncIO_new_def result_simps leaf_ok_def aio_ok_def accounted_def)

text \<open>
  No call of the leaf is lost and none is answered twice: after any sequence of writes, reads, kernel reports and
  worker steps, the calls made are exactly those answered, those queued for a worker
  and those whose IO is in flight, and each IO in flight has one continuation.
\<close>

theorem leaf_calls_accounted:
  assumes "LeafHandler_new rc path f = Inr s" and "leaf_run ops s = Inr t" and "fresh_ops ops s"
  shows "mset (map reply_cb (replies t)) + mset (map task_cb (tasks t)) + mset (map (cont_cb \<circ> snd) (conts t)) =
      sum_list (map called ops) \<and>
    mset (map fst (conts t)) = mset (map io_addr (inflight (asyncio t)))"
proof -
  note new = LeafHandler_new_ok [OF assms(1)]
  from leaf_run_ok [OF conjunct1 [OF new] assms(2,3)] conjunct2 [OF new]
  have "leaf_ok t" "accounted t = sum_list (map called ops)" by simp_all
  then show ?thesis by (simp add: accounted_def leaf_ok_def)
qed

definition toy_env :: "nat \<Rightarrow> (string \<Rightarrow> bytes option) leaf_env" where
  "toy_env a = \<lparr>os_open = (\<lambda>p fl f. (3, if f p = None \<and> O_CREAT \<notin> set fl then f else f(p \<mapsto> []))),
     memalign = (\<lambda>n. Some (replicate (unat n) 170)), new_eventfd = 7, new_addr = a, old_result = 0, time_now = 0\<rparr>"

definition toy_event :: "nat \<Rightarrow> u64 \<Rightarrow> bytes \<Rightarrow> io_event" where
  "toy_event a r b = \<lparr>ev_data = a, ev_res = r, ev_res2 = 0, ev_buffer = b\<rparr>"

lemmas leaf_evals = leaf_step_def leaf_write_def leaf_read_def leaf_complete_def leaf_worker_def
  leaf_init_def AsyncIO_init_def IO_new_def allocBuffer_def ioSubmit_def complete_one_def swap_take_def
  setResult_def completePromise_def run_cont_def toy_env_def toy_event_def Let_def LeafHandler_new_def
  AsyncIO_new_def

theorem leaf_calls_accounted_witness:
  "\<exists>s t. LeafHandler_new 0 ''/mnt'' (Map.empty :: string \<Rightarrow> bytes option) = Inr s \<and>
     leaf_run [Write_Call (toy_env 100) 1 ''f'' [1, 2], Read_Call (toy_env 200) 2 ''f'' 2,
       Kernel 5 (toy_event 200 0 [170, 170]), Kernel 6 (toy_event 100 2 [1, 2])] s = Inr t \<and>
     mset (map reply_cb (replies t)) + mset (map task_cb (tasks t)) + mset (map (cont_cb \<circ> snd) (conts t)) = {#1, 2#} \<and>
     replies t = [Reply_Done 1]"
proof -
  let ?ops = "[Write_Call (toy_env 100) 1 ''f'' [1, 2], Read_Call (toy_env 200) 2 ''f'' 2,
       Kernel 5 (toy_event 200 0 [170, 170]), Kernel 6 (toy_event 100 2 [1, 2])]"
  obtain s where s: "LeafHandler_new 0 ''/mnt'' (Map.empty :: string \<Rightarrow> bytes option) = Inr s"
    by (simp add: LeafHandler_new_def AsyncIO_new_def)
  then have run: "\<exists>t. leaf_run ?ops s = Inr t \<and> replies t = [Reply_Done 1]" "fresh_ops ?ops s"
    by (auto simp: leaf_evals)
  then obtain t where t: "leaf_run ?ops s = Inr t" "replies t = [Reply_Done 1]" by blast
  from leaf_calls_accounted [OF s t(1) run(2)] s t show ?thesis
    by (auto simp: add_mset_commute)
qed

text \<open>What the kernel leaves in the buffer of a read at offset 0.\<close>

definition kernel_pread :: "bytes option \<Rightarrow> bytes \<Rightarrow> bytes" where
  "kernel_pread file buf =
     (case file of None \<Rightarrow> buf | Some d \<Rightarrow> take (length buf) d @ drop (length d) buf)"




text \<open>
  IO errors disappear: whatever result the kernel reports, an error number included, the handler
  goes to the same state and sends the same replies.
\<close>

theorem io_errors_ignored:
  "leaf_complete now (ev\<lparr>ev_res := r, ev_res2 := r2\<rparr>) s = leaf_complete now ev s"
proof (cases "find_index (\<lambda>io. io_addr io = ev_data ev) (inflight (asyncio s))")
  case (Some i)
  obtain io rest where "swap_take i (inflight (asyncio s)) = (io, rest)" by fastforce
  with Some show ?thesis
    by (simp add: leaf_complete_def complete_one_def setResult_def completePromise_def assertE_def
        run_cont_def Let_def split: leaf_cont.splits option.splits)
qed (simp add: leaf_complete_def complete_one_def)

end
