(* ===== verification/DBServer.thy ===== *)
theory DBServer
  imports StrSplit LeafServer
begin

text \<open>
  \<open>fbthrift/exp3/DB/DBServer.cpp\<close>: the database server, which passes a write on to every leaf and a
  read to one leaf in turn. A leaf is a small state machine (connected or not); requests to leaves
  return futures, numbered here in the order in which they are made, and the handlers leave
  continuations with them. A future is resolved by the environment, in any order, with
  the leaf's answer or a failure. The sections are: leaves, handlers, the leaf list of \<open>main\<close>.
\<close>

section \<open>Leaves\<close>

record Leaf =
  port :: u32
  ip :: string
  connected :: bool
  client :: "(string \<times> u32) option"    \<comment> \<open>the peer of the client object, if there is one\<close>

definition Leaf_new :: "string \<Rightarrow> u32 \<Rightarrow> Leaf" where
  "Leaf_new i p = \<lparr>port = p, ip = i, connected = False, client = None\<rparr>"

definition isConnected :: "Leaf \<Rightarrow> bool" where
  "isConnected l = connected l"

text \<open>\<open>in_evb\<close>: the event base is given and the caller runs on its thread.\<close>

definition connect :: "bool \<Rightarrow> Leaf \<Rightarrow> Leaf result" where
  "connect in_evb l =
     assertE (client l = None \<and> \<not> connected l \<and> in_evb)
       (Inr (l\<lparr>client := Some (ip l, port l), connected := True\<rparr>))"

definition setDisconnected :: "Leaf \<Rightarrow> Leaf" where
  "setDisconnected l = l\<lparr>client := None, connected := False\<rparr>"

definition channelClosed :: "Leaf \<Rightarrow> Leaf" where
  "channelClosed l = setDisconnected l"

definition getConnection :: "Leaf \<Rightarrow> (string \<times> u32) option" where
  "getConnection l = client l"

section \<open>Handlers\<close>

datatype leaf_request = Leaf_Write string bytes | Leaf_Read string u32

record DBBenchmarkData =
  db_request_id :: u64
  db_leaf_latency :: int
  db_io_latency :: int
  db_cpu_consumed :: int
  db_data :: bytes

datatype db_reply = DB_Done nat | DB_Data nat DBBenchmarkData

text \<open>
  Continuations: \<open>collectAll\<close> waits for all of its futures, whatever their outcome; the
  continuation of a read waits for one and runs only on success.
\<close>

datatype db_wait = Wait_All nat "nat list" | Wait_Read nat u64 int nat

record db_state =
  leafs :: "Leaf list"
  curLeaf :: u32
  requests_made :: "(nat \<times> leaf_request) list"    \<comment> \<open>leaf index and request; the position is the future\<close>
  waiting :: "db_wait list"
  db_replies :: "db_reply list"

definition DBHandler_new :: "Leaf list \<Rightarrow> db_state" where
  "DBHandler_new ls = \<lparr>leafs = ls, curLeaf = 0, requests_made = [], waiting = [], db_replies = []\<rparr>"

text \<open>The sum wraps at 32 bits; the remainder is taken at 64 bits and stored in 32.\<close>

definition getLeaf :: "db_state \<Rightarrow> (nat \<times> db_state) result" where
  "getLeaf s =
     (if leafs s = [] then Inl Div_By_Zero
      else
        let i = (ucast ((ucast (curLeaf s + 1) :: u64) mod of_nat (length (leafs s))) :: u32) in
        Inr (unat i, s\<lparr>curLeaf := i\<rparr>))"

definition ask_leaf :: "bool \<Rightarrow> leaf_request \<Rightarrow> nat \<Rightarrow> db_state \<Rightarrow> db_state result" where
  "ask_leaf in_evb r i s =
     (let l = leafs s ! i in
      bindE (if \<not> isConnected l then connect in_evb l else Inr l) (\<lambda>l.
        assertE (getConnection l \<noteq> None)
          (Inr (s\<lparr>leafs := (leafs s)[i := l], requests_made := requests_made s @ [(i, r)]\<rparr>))))"

definition db_write :: "bool \<Rightarrow> nat \<Rightarrow> string \<Rightarrow> bytes \<Rightarrow> db_state \<Rightarrow> db_state result" where
  "db_write in_evb cb k d s =
     (let first = length (requests_made s) in
      bindE (foldE (ask_leaf in_evb (Leaf_Write k d)) [0..<length (leafs s)] s) (\<lambda>s.
        let futures = [first..<length (requests_made s)] in
        Inr (if futures = [] then s\<lparr>db_replies := db_replies s @ [DB_Done cb]\<rparr>
             else s\<lparr>waiting := waiting s @ [Wait_All cb futures]\<rparr>)))"

definition db_read :: "bool \<Rightarrow> int \<Rightarrow> nat \<Rightarrow> u64 \<Rightarrow> string \<Rightarrow> u32 \<Rightarrow> db_state \<Rightarrow> db_state result" where
  "db_read in_evb now cb reqid fn sz s =
     bindE (getLeaf s) (\<lambda>(i, s).
       bindE (ask_leaf in_evb (Leaf_Read fn sz) i s) (\<lambda>s.
         Inr (s\<lparr>waiting := waiting s @ [Wait_Read cb reqid now (length (requests_made s) - 1)]\<rparr>)))"

text \<open>Resolving future \<open>f\<close>: what each continuation replies and what of it goes on waiting.\<close>

fun fire :: "int \<Rightarrow> nat \<Rightarrow> LeafBenchmarkData option \<Rightarrow> db_wait \<Rightarrow> db_reply list" where
  "fire now f res (Wait_All cb fs) = (if f \<in> set fs \<and> removeAll f fs = [] then [DB_Done cb] else [])"
| "fire now f res (Wait_Read cb reqid t0 g) =
     (case res of
        None \<Rightarrow> []
      | Some d \<Rightarrow>
          if f = g then [DB_Data cb \<lparr>db_request_id = reqid, db_leaf_latency = now - t0,
            db_io_latency = io_latency d, db_cpu_consumed = cpu_consumed d, db_data = leaf_data d\<rparr>]
          else [])"

fun keep :: "nat \<Rightarrow> db_wait \<Rightarrow> db_wait list" where
  "keep f (Wait_All cb fs) = (if f \<in> set fs \<and> removeAll f fs = [] then [] else [Wait_All cb (removeAll f fs)])"
| "keep f (Wait_Read cb reqid t0 g) = (if f = g then [] else [Wait_Read cb reqid t0 g])"

definition resolve :: "int \<Rightarrow> nat \<Rightarrow> LeafBenchmarkData option \<Rightarrow> db_state \<Rightarrow> db_state" where
  "resolve now f res s =
     s\<lparr>db_replies := db_replies s @ concat (map (fire now f res) (waiting s)),
       waiting := concat (map (keep f) (waiting s))\<rparr>"

definition leaf_closed :: "nat \<Rightarrow> db_state \<Rightarrow> db_state" where
  "leaf_closed i s = s\<lparr>leafs := (leafs s)[i := channelClosed (leafs s ! i)]\<rparr>"

section \<open>The leaf list of main\<close>

definition is_digit :: "char \<Rightarrow> bool" where
  "is_digit c \<longleftrightarrow> 48 \<le> (of_char c :: nat) \<and> (of_char c :: nat) \<le> 57"

definition is_space :: "char \<Rightarrow> bool" where
  "is_space c \<longleftrightarrow> (of_char c :: nat) = 32 \<or> (9 \<le> (of_char c :: nat) \<and> (of_char c :: nat) \<le> 13)"

definition digit_value :: "char \<Rightarrow> nat" where
  "digit_value c = of_char c - 48"

text \<open>\<open>std::stoul\<close> in base 10: white space, a sign, digits; what follows them is ignored.\<close>

definition stoul :: "string \<Rightarrow> u64 result" where
  "stoul str =
     (let str = dropWhile is_space str;
          (neg, str) = (case str of
             [] \<Rightarrow> (False, [])
           | c # cs \<Rightarrow> if c = CHR ''-'' then (True, cs) else if c = CHR ''+'' then (False, cs) else (False, c # cs));
          ds = takeWhile is_digit str;
          n = foldl (\<lambda>a c. 10 * a + digit_value c) 0 ds in
      if ds = [] then Inl (Invalid_Argument ''stoul'')
      else if n \<ge> 18446744073709551616 then Inl Out_Of_Range
      else Inr (if neg then - of_nat n else of_nat n))"

definition parse_leaf :: "string \<Rightarrow> Leaf result" where
  "parse_leaf t =
     (let e = str_find t (CHR '':'') 0 in
      if e = npos then Inl (Invalid_Argument ''Incorrect leaf IP or Port.'')
      else
        bindE (substr t 0 e) (\<lambda>ip.
          bindE (substr t (e + 1) npos) (\<lambda>p.
            bindE (stoul p) (\<lambda>port. Inr (Leaf_new ip (ucast port))))))"

definition parse_leafs :: "string \<Rightarrow> Leaf list result option" where
  "parse_leafs flag =
     (case db_split flag (CHR '','') of
        None \<Rightarrow> None
      | Some (Inl e) \<Rightarrow> Some (Inl e)
      | Some (Inr token) \<Rightarrow>
          Some (if token = [] then Inl (Invalid_Argument ''Please provide list of leaf servers and their port'')
                else foldE (\<lambda>t ls. bindE (parse_leaf t) (\<lambda>l. Inr (ls @ [l]))) token []))"

definition default_leaf_server :: string where
  "default_leaf_server = ''127.0.0.1:9091''"


section \<open>The leaf state machine\<close>

definition leaf_wf :: "Leaf \<Rightarrow> bool" where
  "leaf_wf l \<longleftrightarrow> (connected l \<longleftrightarrow> client l \<noteq> None) \<and> (\<forall>p. client l = Some p \<longrightarrow> p = (ip l, port l))"

definition db_ok :: "db_state \<Rightarrow> bool" where
  "db_ok s \<longleftrightarrow> leafs s \<noteq> [] \<and> length (leafs s) < 4294967296 \<and> (\<forall>l \<in> set (leafs s). leaf_wf l)"

lemma leaf_wf_ops:
  "leaf_wf (Leaf_new i p)" "leaf_wf (setDisconnected l)" "leaf_wf (channelClosed l)"
  by (simp_all add: leaf_wf_def Leaf_new_def setDisconnected_def channelClosed_def)

text \<open>Asking a leaf connects it and makes the request; in bulk, it does so for each leaf in order.\<close>

definition connected_leaf :: "Leaf \<Rightarrow> Leaf" where
  "connected_leaf l = l\<lparr>client := Some (ip l, port l), connected := True\<rparr>"

lemma connected_leaf_id: "leaf_wf l \<Longrightarrow> connected l \<Longrightarrow> connected_leaf l = l"
  by (cases l) (auto simp: leaf_wf_def connected_leaf_def)

lemma connected_leaf_simps [simp]:
  "leaf_wf (connected_leaf l)" "connected (connected_leaf l)"
  "ip (connected_leaf l) = ip l" "port (connected_leaf l) = port l"
  by (simp_all add: leaf_wf_def connected_leaf_def)

lemma connect_unless_connected:
  assumes "leaf_wf l"
  shows "(if \<not> isConnected l then connect True l else Inr l) = Inr (connected_leaf l)"
    and "getConnection (connected_leaf l) \<noteq> None"
proof -
  show "(if \<not> isConnected l then connect True l else Inr l) = Inr (connected_leaf l)"
  proof (cases "connected l")
    case True
    with connected_leaf_id [OF assms True] show ?thesis by (simp add: isConnected_def)
  next
    case False
    with assms have "client l = None" by (cases "client l") (simp_all add: leaf_wf_def)
    with False show ?thesis by (simp add: isConnected_def connect_def connected_leaf_def)
  qed
  show "getConnection (connected_leaf l) \<noteq> None" by (simp add: getConnection_def connected_leaf_def)
qed

lemma ask_leaf_ok:
  assumes "leaf_wf (leafs s ! i)"
  shows "ask_leaf True r i s =
    Inr (s\<lparr>leafs := (leafs s)[i := connected_leaf (leafs s ! i)], requests_made := requests_made s @ [(i, r)]\<rparr>)"
  unfolding ask_leaf_def Let_def connect_unless_connected(1) [OF assms] bindE_simps
  using connect_unless_connected(2) [OF assms] by simp

lemma ask_leafs_ok:
  assumes "\<forall>l \<in> set (leafs s). leaf_wf l" and "n \<le> length (leafs s)"
  shows "foldE (ask_leaf True r) [0..<n] s =
    Inr (s\<lparr>leafs := map connected_leaf (take n (leafs s)) @ drop n (leafs s),
           requests_made := requests_made s @ map (\<lambda>i. (i, r)) [0..<n]\<rparr>)"
  using assms(2)
proof (induction n)
  case (Suc n)
  let ?t = "s\<lparr>leafs := map connected_leaf (take n (leafs s)) @ drop n (leafs s),
           requests_made := requests_made s @ map (\<lambda>i. (i, r)) [0..<n]\<rparr>"
  have n: "n < length (leafs s)" using Suc.prems by simp
  have nth: "leafs ?t ! n = leafs s ! n" using n by (simp add: nth_append)
  then have "ask_leaf True r n ?t = Inr (?t\<lparr>leafs := (leafs ?t)[n := connected_leaf (leafs s ! n)],
      requests_made := requests_made ?t @ [(n, r)]\<rparr>)"
    using ask_leaf_ok [of ?t n r] assms(1) n by simp
  moreover have "(leafs ?t)[n := connected_leaf (leafs s ! n)] =
      map connected_leaf (take (Suc n) (leafs s)) @ drop (Suc n) (leafs s)"
    using n by (simp add: list_update_append take_Suc_conv_app_nth flip: Cons_nth_drop_Suc)
  ultimately show ?case using Suc by (simp add: foldE_append)
qed simp

lemma db_write_eq:
  assumes "db_ok s"
  shows "db_write True cb k d s =
    Inr (s\<lparr>leafs := map connected_leaf (leafs s),
           requests_made := requests_made s @ map (\<lambda>i. (i, Leaf_Write k d)) [0..<length (leafs s)],
           waiting := waiting s @ [Wait_All cb [length (requests_made s)..<length (requests_made s) + length (leafs s)]]\<rparr>)"
  using assms by (simp add: db_write_def ask_leafs_ok db_ok_def Let_def)

section \<open>Choosing a leaf\<close>

text \<open>The index computed in \<open>getLeaf\<close>, which wraps neither at 32 nor at 64 bits.\<close>

lemma next_leaf_index:
  assumes "0 < n" and "n < 4294967296" and "unat c < n"
  shows "(ucast ((ucast (c + 1 :: u32) :: u64) mod of_nat n) :: u32) = of_nat ((unat c + 1) mod n)"
    and "unat (of_nat ((unat c + 1) mod n) :: u32) = (unat c + 1) mod n"
proof -
  have c: "unat (c + 1) = unat c + 1" using assms(2,3) unat_Suc_u32 [of c] by simp
  have n: "unat (of_nat n :: u64) = n" using assms(2) by (simp add: unat_of_nat_u64)
  have "unat ((ucast (c + 1) :: u64) mod of_nat n) = (unat c + 1) mod n"
    by (simp add: unat_mod n c)
  then show "(ucast ((ucast (c + 1) :: u64) mod of_nat n) :: u32) = of_nat ((unat c + 1) mod n)"
    by (metis of_nat_unat)
  have "(unat c + 1) mod n < 4294967296" using assms(1,2) by (meson less_trans mod_less_divisor)
  then show "unat (of_nat ((unat c + 1) mod n) :: u32) = (unat c + 1) mod n"
    by (simp add: unat_of_nat_u32)
qed

lemma getLeaf_eq:
  assumes "leafs s \<noteq> []" and "length (leafs s) < 4294967296" and "unat (curLeaf s) < length (leafs s)"
  shows "getLeaf s = Inr ((unat (curLeaf s) + 1) mod length (leafs s),
    s\<lparr>curLeaf := of_nat ((unat (curLeaf s) + 1) mod length (leafs s))\<rparr>)"
  using assms(1) next_leaf_index [OF _ assms(2,3)]
  by (simp add: getLeaf_def Let_def)

text \<open>The leaves that the next \<open>k\<close> reads go to.\<close>

fun picks :: "nat \<Rightarrow> db_state \<Rightarrow> nat list" where
  "picks 0 s = []"
| "picks (Suc k) s = (case getLeaf s of Inl e \<Rightarrow> [] | Inr (i, s) \<Rightarrow> i # picks k s)"

lemma picks_eq:
  assumes "leafs s \<noteq> []" and "length (leafs s) < 4294967296"
  shows "unat (curLeaf s) < length (leafs s) \<Longrightarrow>
    picks k s = map (\<lambda>j. (unat (curLeaf s) + 1 + j) mod length (leafs s)) [0..<k]"
  using assms
proof (induction k arbitrary: s)
  case (Suc k)
  let ?n = "length (leafs s)" and ?i = "(unat (curLeaf s) + 1) mod length (leafs s)"
  have i: "?i < ?n" using Suc.prems by simp
  have "?i < 2 ^ 32" by (rule less_trans [OF i]) (use Suc.prems in simp)
  then have u: "unat (of_nat ?i :: u32) = ?i" by (rule unat_of_nat_u32)
  have shift: "(?i + 1 + j) mod ?n = (unat (curLeaf s) + 1 + Suc j) mod ?n" for j
    using mod_add_left_eq [of "unat (curLeaf s) + 1" ?n "1 + j"] by (simp only: add.assoc plus_1_eq_Suc)
  have "picks k (s\<lparr>curLeaf := of_nat ?i\<rparr>) = map (\<lambda>j. (?i + 1 + j) mod ?n) [0..<k]"
    using Suc.IH [of "s\<lparr>curLeaf := of_nat ?i\<rparr>"] Suc.prems i u by simp
  also have "\<dots> = map (\<lambda>j. (unat (curLeaf s) + 1 + Suc j) mod ?n) [0..<k]"
    by (simp only: shift)
  finally show ?case
    using Suc.prems by (simp add: getLeaf_eq upt_conv_Cons map_Suc_upt [symmetric] del: upt_Suc)
qed simp


lemma db_read_eq:
  assumes ok: "db_ok s" and cur: "unat (curLeaf s) < length (leafs s)"
  shows "\<exists>i l. i = (unat (curLeaf s) + 1) mod length (leafs s) \<and>
    db_read True now cb reqid fn sz s =
      Inr (s\<lparr>curLeaf := of_nat i, leafs := (leafs s)[i := connected_leaf (leafs s ! i)],
             requests_made := requests_made s @ [(i, Leaf_Read fn sz)],
             waiting := waiting s @ [Wait_Read cb reqid now (length (requests_made s))]\<rparr>)"
proof -
  let ?i = "(unat (curLeaf s) + 1) mod length (leafs s)"
  have l: "leafs s \<noteq> []" "length (leafs s) < 4294967296" using ok by (simp_all add: db_ok_def)
  then have "leaf_wf (leafs s ! ?i)" using ok by (simp add: db_ok_def)
  then have "ask_leaf True (Leaf_Read fn sz) ?i (s\<lparr>curLeaf := of_nat ?i\<rparr>) =
      Inr (s\<lparr>curLeaf := of_nat ?i, leafs := (leafs s)[?i := connected_leaf (leafs s ! ?i)],
        requests_made := requests_made s @ [(?i, Leaf_Read fn sz)]\<rparr>)"
    by (subst ask_leaf_ok) simp_all
  then show ?thesis by (simp add: db_read_def getLeaf_eq [OF l cur])
qed

section \<open>Replies\<close>

fun db_wait_cb :: "db_wait \<Rightarrow> nat" where
  "db_wait_cb (Wait_All cb fs) = cb"
| "db_wait_cb (Wait_Read cb r t g) = cb"

fun db_reply_cb :: "db_reply \<Rightarrow> nat" where
  "db_reply_cb (DB_Done cb) = cb"
| "db_reply_cb (DB_Data cb d) = cb"

definition waits_of :: "nat \<Rightarrow> db_state \<Rightarrow> db_wait list" where
  "waits_of cb s = filter (\<lambda>w. db_wait_cb w = cb) (waiting s)"

definition replies_of :: "nat \<Rightarrow> db_state \<Rightarrow> db_reply list" where
  "replies_of cb s = filter (\<lambda>r. db_reply_cb r = cb) (db_replies s)"

text \<open>Resolutions of futures: time, future, outcome.\<close>

type_synonym resolution = "int \<times> nat \<times> LeafBenchmarkData option"

definition resolve_all :: "resolution list \<Rightarrow> db_state \<Rightarrow> db_state" where
  "resolve_all rs s = fold (\<lambda>(now, f, res). resolve now f res) rs s"

lemma resolve_all_simps [simp]:
  "resolve_all [] s = s"
  "resolve_all ((now, f, res) # rs) s = resolve_all rs (resolve now f res s)"
  by (simp_all add: resolve_all_def)

lemma fire_cb: "r \<in> set (fire now f res w) \<Longrightarrow> db_reply_cb r = db_wait_cb w"
  by (cases w) (auto split: if_splits option.splits)

lemma keep_cb: "v \<in> set (keep f w) \<Longrightarrow> db_wait_cb v = db_wait_cb w"
  by (cases w) (auto split: if_splits)

lemma filter_concat_map:
  assumes "\<And>x y. y \<in> set (g x) \<Longrightarrow> Q y \<longleftrightarrow> P x"
  shows "filter Q (concat (map g xs)) = concat (map g (filter P xs))"
proof (induction xs)
  case (Cons x xs)
  have "filter Q (g x) = (if P x then g x else [])"
    using assms by (auto simp: filter_id_conv filter_empty_conv)
  with Cons show ?case by simp
qed simp

lemma resolve_views:
  "waits_of cb (resolve now f res s) = concat (map (keep f) (waits_of cb s))"
  "replies_of cb (resolve now f res s) = replies_of cb s @ concat (map (fire now f res) (waits_of cb s))"
  unfolding waits_of_def replies_of_def resolve_def
  by (simp_all, (subst filter_concat_map [where P = "\<lambda>w. db_wait_cb w = cb"], auto dest: keep_cb fire_cb)+)

lemma no_waits_quiet:
  "waits_of cb s = [] \<Longrightarrow> replies_of cb (resolve_all rs s) = replies_of cb s"
proof (induction rs arbitrary: s)
  case (Cons r rs)
  obtain now f res where r: "r = (now, f, res)" by (cases r)
  from Cons.prems have "waits_of cb (resolve now f res s) = []" by (simp add: resolve_views)
  from Cons.IH [OF this] Cons.prems show ?case by (simp add: r resolve_views)
qed simp

lemma wait_all_replies:
  assumes "waits_of cb s = [Wait_All cb fs]" and "fs \<noteq> []" and "replies_of cb s = []"
  shows "replies_of cb (resolve_all rs s) =
    (if set fs \<subseteq> (fst \<circ> snd) ` set rs then [DB_Done cb] else [])"
  using assms
proof (induction rs arbitrary: s fs)
  case (Cons r rs)
  obtain now f res where r: "r = (now, f, res)" by (cases r)
  let ?t = "resolve now f res s"
  show ?case
  proof (cases "f \<in> set fs \<and> removeAll f fs = []")
    case True
    then have "waits_of cb ?t = []" "replies_of cb ?t = [DB_Done cb]"
      using Cons.prems by (simp_all add: resolve_views)
    moreover have "set fs \<subseteq> {f}" using True by (metis Diff_eq_empty_iff set_empty2 set_removeAll)
    ultimately show ?thesis using no_waits_quiet [of cb ?t rs] by (auto simp: r)
  next
    case False
    have ne: "removeAll f fs \<noteq> []" using False Cons.prems(2) by (metis removeAll_id)
    have "waits_of cb ?t = [Wait_All cb (removeAll f fs)]" "replies_of cb ?t = []"
      using False Cons.prems by (simp_all add: resolve_views)
    from Cons.IH [OF this(1) ne this(2)] show ?thesis by (auto simp: r)
  qed
qed simp


definition read_answer :: "nat \<Rightarrow> u64 \<Rightarrow> int \<Rightarrow> resolution option \<Rightarrow> db_reply list" where
  "read_answer cb reqid t0 r =
     (case r of
        Some (now, f, Some d) \<Rightarrow>
          [DB_Data cb \<lparr>db_request_id = reqid, db_leaf_latency = now - t0, db_io_latency = io_latency d,
             db_cpu_consumed = cpu_consumed d, db_data = leaf_data d\<rparr>]
      | _ \<Rightarrow> [])"

lemma wait_read_replies:
  assumes "waits_of cb s = [Wait_Read cb reqid t0 g]" and "replies_of cb s = []"
  shows "replies_of cb (resolve_all rs s) = read_answer cb reqid t0 (find (\<lambda>r. fst (snd r) = g) rs)"
  using assms
proof (induction rs arbitrary: s)
  case (Cons r rs)
  obtain now f res where r: "r = (now, f, res)" by (cases r)
  let ?t = "resolve now f res s"
  show ?case
  proof (cases "f = g")
    case True
    then have "waits_of cb ?t = []" "replies_of cb ?t = read_answer cb reqid t0 (Some r)"
      using Cons.prems by (auto simp: resolve_views read_answer_def r split: option.splits)
    with True show ?thesis using no_waits_quiet [of cb ?t rs] by (simp add: r)
  next
    case False
    with Cons.prems have "waits_of cb ?t = [Wait_Read cb reqid t0 g]" "replies_of cb ?t = []"
      by (auto simp: resolve_views split: option.splits)
    from Cons.IH [OF this] False show ?thesis by (simp add: r)
  qed
qed (simp add: read_answer_def)

section \<open>Properties of the handlers\<close>

text \<open>
  A write goes to every leaf and is confirmed when all have answered: the handler, called on its
  event thread, connects every leaf, makes the request to each leaf once, in order, and no assertion fails; its
  callback gets no reply until the futures of all leaves have been resolved, whatever
  the order and the outcomes, and exactly one then.
\<close>

theorem write_reaches_all_leafs:
  assumes "db_ok s" and "waits_of cb s = []" and "replies_of cb s = []"
  shows "\<exists>t. db_write True cb k d s = Inr t \<and> (\<forall>l \<in> set (leafs t). connected l \<and> client l = Some (ip l, port l)) \<and>
    requests_made t = requests_made s @ map (\<lambda>i. (i, Leaf_Write k d)) [0..<length (leafs s)] \<and>
    (\<forall>rs. replies_of cb (resolve_all rs t) =
       (if {length (requests_made s)..<length (requests_made s) + length (leafs s)} \<subseteq> (fst \<circ> snd) ` set rs
        then [DB_Done cb] else []))"
proof -
  let ?fs = "[length (requests_made s)..<length (requests_made s) + length (leafs s)]"
  obtain t where t: "db_write True cb k d s = Inr t" "leafs t = map connected_leaf (leafs s)"
    "requests_made t = requests_made s @ map (\<lambda>i. (i, Leaf_Write k d)) [0..<length (leafs s)]"
    "waiting t = waiting s @ [Wait_All cb ?fs]" "db_replies t = db_replies s"
    using db_write_eq [OF assms(1), of cb k d] by simp
  have w: "waits_of cb t = [Wait_All cb ?fs]" "replies_of cb t = []"
    using assms(2,3) t(4,5) by (simp_all add: waits_of_def replies_of_def)
  have "?fs \<noteq> []" using assms(1) by (simp add: db_ok_def)
  from wait_all_replies [OF w(1) this w(2)] t show ?thesis
    by (auto simp: connected_leaf_def)
qed

definition two_leafs :: db_state where
  "two_leafs = DBHandler_new [Leaf_new ''a'' 1, Leaf_new ''b'' 2]"

lemma two_leafs_ok: "db_ok two_leafs" "waits_of cb two_leafs = []" "replies_of cb two_leafs = []"
  "requests_made two_leafs = []" "length (leafs two_leafs) = 2" "curLeaf two_leafs = 0"
  by (simp_all add: two_leafs_def DBHandler_new_def db_ok_def leaf_wf_ops waits_of_def replies_of_def)

theorem write_reaches_all_leafs_witness:
  "\<exists>t. db_write True 7 ''k'' [1] two_leafs = Inr t \<and> replies_of 7 (resolve_all [(0, 1, None)] t) = [] \<and>
     replies_of 7 (resolve_all [(0, 1, None), (5, 0, None)] t) = [DB_Done 7]"
proof -
  let ?new = "{length (requests_made two_leafs)..<length (requests_made two_leafs) + length (leafs two_leafs)}"
  from write_reaches_all_leafs [OF two_leafs_ok(1-3), where cb = 7 and k = "''k''" and d = "[1]"]
  obtain t where t: "db_write True 7 ''k'' [1] two_leafs = Inr t"
    and all: "\<forall>rs. replies_of 7 (resolve_all rs t) = (if ?new \<subseteq> (fst \<circ> snd) ` set rs then [DB_Done 7] else [])"
    by blast
  have "?new = {0, 1}" using two_leafs_ok(4,5) by auto
  with t all show ?thesis by (auto simp del: resolve_all_simps)
qed

text \<open>
  A read goes to the next leaf in turn, and its reply is that leaf's: the first resolution of
  its future decides; a success is passed on with the caller's request identifier and
  the time since the call, a failure gives no reply.
\<close>

theorem read_relays_leaf:
  assumes "db_ok s" and "unat (curLeaf s) < length (leafs s)" and "waits_of cb s = []" and "replies_of cb s = []"
  shows "\<exists>t. db_read True now cb reqid fn sz s = Inr t \<and>
    requests_made t = requests_made s @ [((unat (curLeaf s) + 1) mod length (leafs s), Leaf_Read fn sz)] \<and>
    (\<forall>rs. replies_of cb (resolve_all rs t) =
       read_answer cb reqid now (find (\<lambda>r. fst (snd r) = length (requests_made s)) rs))"
proof -
  obtain t where t: "db_read True now cb reqid fn sz s = Inr t"
    "requests_made t = requests_made s @ [((unat (curLeaf s) + 1) mod length (leafs s), Leaf_Read fn sz)]"
    "waiting t = waiting s @ [Wait_Read cb reqid now (length (requests_made s))]" "db_replies t = db_replies s"
    using db_read_eq [OF assms(1,2), of now cb reqid fn sz] by auto
  have "waits_of cb t = [Wait_Read cb reqid now (length (requests_made s))]" "replies_of cb t = []"
    using assms(3,4) t(3,4) by (simp_all add: waits_of_def replies_of_def)
  from wait_read_replies [OF this] t(1,2) show ?thesis by blast
qed

theorem read_relays_leaf_witness:
  "\<exists>t. db_read True 10 7 99 ''f'' 4 two_leafs = Inr t \<and> requests_made t = [(1, Leaf_Read ''f'' 4)] \<and>
     replies_of 7 (resolve_all [(30, 0, Some \<lparr>io_latency = 3, cpu_consumed = 4, leaf_data = [8]\<rparr>)] t) =
       [DB_Data 7 \<lparr>db_request_id = 99, db_leaf_latency = 20, db_io_latency = 3, db_cpu_consumed = 4, db_data = [8]\<rparr>]"
  using read_relays_leaf [OF two_leafs_ok(1) _ two_leafs_ok(2,3), where cb = 7 and now = 10 and reqid = 99
      and fn = "''f''" and sz = 4]
  by (auto simp: two_leafs_ok read_answer_def simp del: resolve_all_simps)

text \<open>
  C24. Reads are spread evenly: as many consecutive reads as there are leaves go to every leaf
  exactly once, from whatever leaf was last.
\<close>

theorem reads_round_robin:
  assumes "leafs s \<noteq> []" and "length (leafs s) < 4294967296" and "unat (curLeaf s) < length (leafs s)"
  shows "distinct (picks (length (leafs s)) s) \<and> set (picks (length (leafs s)) s) = {0..<length (leafs s)}"
proof -
  let ?n = "length (leafs s)" and ?c = "unat (curLeaf s) + 1"
  have eq: "picks ?n s = map (\<lambda>j. (?c + j) mod ?n) [0..<?n]" by (rule picks_eq [OF assms])
  have inj: "inj_on (\<lambda>j. (?c + j) mod ?n) {0..<?n}"
  proof (rule inj_onI)
    fix i j assume ij: "i \<in> {0..<?n}" "j \<in> {0..<?n}" "(?c + i) mod ?n = (?c + j) mod ?n"
    then have "(int ?c + int i) mod int ?n = (int ?c + int j) mod int ?n"
      by (metis of_nat_add of_nat_mod)
    then have "(int ?c + int i - int ?c) mod int ?n = (int ?c + int j - int ?c) mod int ?n"
      by (rule mod_diff_cong) simp
    with ij show "i = j" by simp
  qed
  moreover have "(\<lambda>j. (?c + j) mod ?n) ` {0..<?n} = {0..<?n}"
    by (rule endo_inj_surj) (use inj assms in auto)
  ultimately show ?thesis by (simp add: eq distinct_map)
qed

theorem reads_round_robin_witness: "set (picks 2 two_leafs) = {0, 1}"
  using reads_round_robin [of two_leafs] two_leafs_ok(1,5,6) by (auto simp: db_ok_def)


section \<open>The server never fails an assertion\<close>

datatype db_op =
    DB_Write nat string bytes
  | DB_Read int nat u64 string u32
  | DB_Resolve resolution
  | DB_Leaf_Closed nat

definition db_step :: "db_op \<Rightarrow> db_state \<Rightarrow> db_state result" where
  "db_step op s =
     (case op of
        DB_Write cb k d \<Rightarrow> db_write True cb k d s
      | DB_Read now cb reqid fn sz \<Rightarrow> db_read True now cb reqid fn sz s
      | DB_Resolve r \<Rightarrow> Inr (resolve_all [r] s)
      | DB_Leaf_Closed i \<Rightarrow> Inr (leaf_closed i s))"

definition db_inv :: "(string \<times> u32) list \<Rightarrow> db_state \<Rightarrow> bool" where
  "db_inv peers s \<longleftrightarrow> db_ok s \<and> unat (curLeaf s) < length (leafs s) \<and> map (\<lambda>l. (ip l, port l)) (leafs s) = peers"

lemma in_set_update: "x \<in> set (xs[i := y]) \<Longrightarrow> x = y \<or> x \<in> set xs"
  by (meson insert_iff set_update_subset_insert subsetD)

lemma db_step_inv:
  assumes inv: "db_inv peers s"
  shows "\<exists>t. db_step op s = Inr t \<and> db_inv peers t"
proof -
  have ok: "db_ok s" and cur: "unat (curLeaf s) < length (leafs s)"
    and wf: "\<forall>l \<in> set (leafs s). leaf_wf l" and n: "leafs s \<noteq> []" "length (leafs s) < 4294967296"
    using inv by (simp_all add: db_inv_def db_ok_def)
  show ?thesis
  proof (cases op)
    case (DB_Write cb k d)
    with inv db_write_eq [OF ok, of cb k d] show ?thesis
      by (auto simp: db_step_def db_inv_def db_ok_def comp_def)
  next
    case (DB_Read now cb reqid fn sz)
    let ?i = "(unat (curLeaf s) + 1) mod length (leafs s)"
    have i: "?i < length (leafs s)" using n(1) by simp
    have "?i < 2 ^ 32" by (rule less_trans [OF i]) (use n in simp)
    then have u: "unat (of_nat ?i :: u32) = ?i" by (rule unat_of_nat_u32)
    have "map (\<lambda>l. (ip l, port l)) ((leafs s)[?i := connected_leaf (leafs s ! ?i)]) = map (\<lambda>l. (ip l, port l)) (leafs s)"
      using i by (simp add: map_update list_update_same_conv)
    moreover have "\<forall>l \<in> set ((leafs s)[?i := connected_leaf (leafs s ! ?i)]). leaf_wf l"
      using wf by (auto dest: in_set_update)
    ultimately show ?thesis
      using DB_Read inv i u n db_read_eq [OF ok cur, of now cb reqid fn sz]
      by (auto simp: db_step_def db_inv_def db_ok_def)
  next
    case (DB_Resolve r)
    with inv show ?thesis
      by (cases r) (simp add: db_step_def db_inv_def db_ok_def resolve_def)
  next
    case (DB_Leaf_Closed i)
    have "map (\<lambda>l. (ip l, port l)) ((leafs s)[i := channelClosed (leafs s ! i)]) = map (\<lambda>l. (ip l, port l)) (leafs s)"
      by (cases "i < length (leafs s)")
        (simp_all add: map_update list_update_same_conv list_update_beyond channelClosed_def setDisconnected_def)
    moreover have "\<forall>l \<in> set ((leafs s)[i := channelClosed (leafs s ! i)]). leaf_wf l"
      using wf by (auto dest: in_set_update simp: leaf_wf_ops)
    ultimately show ?thesis using DB_Leaf_Closed inv
      by (auto simp: db_step_def db_inv_def db_ok_def leaf_closed_def)
  qed
qed

lemma db_run_inv: "db_inv peers s \<Longrightarrow> \<exists>t. foldE db_step ops s = Inr t \<and> db_inv peers t"
  by (rule foldE_total, assumption) (rule db_step_inv)

section \<open>Parsing the leaf list\<close>

text \<open>Printing: decimal numbers, \<open>ip:port\<close>, commas between the leaves.\<close>

fun decimal :: "nat \<Rightarrow> string" where
  "decimal n = (if n < 10 then [char_of (48 + n)] else decimal (n div 10) @ [char_of (48 + n mod 10)])"

declare decimal.simps [simp del]

definition print_leaf :: "string \<times> nat \<Rightarrow> string" where
  "print_leaf l = fst l @ '':'' @ decimal (snd l)"

fun print_leafs :: "(string \<times> nat) list \<Rightarrow> string" where
  "print_leafs [] = []"
| "print_leafs [l] = print_leaf l"
| "print_leafs (l # ls) = print_leaf l @ '','' @ print_leafs ls"

lemma digit_char: "n < 10 \<Longrightarrow> (of_char (char_of (48 + n)) :: nat) = 48 + n"
  by (simp add: of_char_of)

lemma decimal_digits: "c \<in> set (decimal n) \<Longrightarrow> is_digit c"
proof (induction n rule: decimal.induct)
  case (1 n)
  then show ?case
    by (subst (asm) decimal.simps) (auto simp: is_digit_def digit_char split: if_splits)
qed

lemma decimal_value: "foldl (\<lambda>a c. 10 * a + digit_value c) 0 (decimal n) = n"
proof (induction n rule: decimal.induct)
  case (1 n)
  then show ?case by (subst decimal.simps) (simp add: digit_value_def digit_char)
qed

lemma decimal_nonempty: "decimal n \<noteq> []"
  by (subst decimal.simps) simp

lemma digit_not: "is_digit c \<Longrightarrow> \<not> is_space c \<and> c \<noteq> CHR ''-'' \<and> c \<noteq> CHR ''+'' \<and> c \<noteq> CHR '','' \<and> c \<noteq> CHR '':''"
  by (auto simp: is_digit_def is_space_def)

lemma stoul_decimal:
  assumes "n < 18446744073709551616"
  shows "stoul (decimal n) = Inr (of_nat n)"
proof -
  obtain c cs where d: "decimal n = c # cs" using decimal_nonempty [of n] by (cases "decimal n") auto
  then have c: "is_digit c" using decimal_digits [of c n] by simp
  have "takeWhile is_digit (decimal n) = decimal n" using decimal_digits by (simp add: takeWhile_eq_all_conv)
  with d have all: "takeWhile is_digit (c # cs) = c # cs" by simp
  have "dropWhile is_space (c # cs) = c # cs" using digit_not [OF c] by simp
  moreover have "foldl (\<lambda>a c. 10 * a + digit_value c) 0 (c # cs) = n" using decimal_value [of n] d by simp
  ultimately show ?thesis
    unfolding stoul_def d using digit_not [OF c] all assms by (simp only: Let_def) simp
qed

definition plain_ip :: "string \<Rightarrow> bool" where
  "plain_ip s \<longleftrightarrow> CHR '','' \<notin> set s \<and> CHR '':'' \<notin> set s"

lemma parse_print_leaf:
  assumes "plain_ip i" and "p < 18446744073709551616" and "length (print_leaf (i, p)) < npos"
  shows "parse_leaf (print_leaf (i, p)) = Inr (Leaf_new i (ucast (of_nat p :: u64)))"
proof -
  have t: "print_leaf (i, p) = i @ CHR '':'' # decimal p" by (simp add: print_leaf_def)
  have find: "str_find (i @ CHR '':'' # decimal p) (CHR '':'') 0 = length i"
    using str_find_present [of 0 "i @ CHR '':'' # decimal p" i "CHR '':''" "decimal p"] assms(1)
    by (simp add: plain_ip_def)
  have "length i \<noteq> npos" "length (decimal p) < npos" using assms(3) by (simp_all add: t)
  then show ?thesis
    by (simp add: parse_leaf_def t find substr_def stoul_decimal [OF assms(2)] Let_def)
qed

lemma parse_tokens:
  assumes "\<And>l. l \<in> set ls \<Longrightarrow> parse_leaf (f l) = Inr (g l)"
  shows "foldE (\<lambda>t acc. bindE (parse_leaf t) (\<lambda>l. Inr (acc @ [l]))) (map f ls) acc = Inr (acc @ map g ls)"
  using assms by (induction ls arbitrary: acc) simp_all

lemma pieces_print_leafs:
  assumes "ls \<noteq> []" and "\<forall>l \<in> set ls. plain_ip (fst l)"
  shows "pieces (CHR '','') (print_leafs ls) = map print_leaf ls"
  using assms
proof (induction ls rule: print_leafs.induct)
  case (2 l)
  have "CHR '','' \<notin> set (print_leaf l)"
    using 2 digit_not decimal_digits by (force simp: print_leaf_def plain_ip_def)
  then show ?case by (simp add: pieces_none)
next
  case (3 l l' ls)
  have "CHR '','' \<notin> set (print_leaf l)"
    using 3(3) digit_not decimal_digits by (force simp: print_leaf_def plain_ip_def)
  with 3 show ?case by (simp add: pieces_delim)
qed simp


lemma length_print_leaf: "l \<in> set ls \<Longrightarrow> length (print_leaf l) \<le> length (print_leafs ls)"
  by (induction ls rule: print_leafs.induct) auto

lemma ucast_of_nat_u32: "(ucast (of_nat p :: u64) :: u32) = of_nat p"
  by (rule bit_word_eqI) (auto simp: bit_simps)

lemma parse_printed_leafs:
  assumes "ls \<noteq> []" and "\<forall>l \<in> set ls. plain_ip (fst l) \<and> snd l < 18446744073709551616"
    and "length (print_leafs ls) < npos"
  shows "parse_leafs (print_leafs ls) = Some (Inr (map (\<lambda>l. Leaf_new (fst l) (of_nat (snd l))) ls))"
proof -
  have pieces: "pieces (CHR '','') (print_leafs ls) = map print_leaf ls"
    by (rule pieces_print_leafs) (use assms in auto)
  have "[] \<notin> set (map print_leaf ls)" by (auto simp: print_leaf_def)
  then have "[] \<notin> set (butlast (pieces (CHR '','') (print_leafs ls)))"
    unfolding pieces by (metis in_set_butlastD)
  with db_split_loop_returns [of "print_leafs ls" 0 "CHR '',''" "[]"] assms(3)
  have split: "db_split (print_leafs ls) (CHR '','') = Some (Inr (map print_leaf ls))"
    by (simp add: db_split_def pieces)
  have "parse_leaf (print_leaf l) = Inr (Leaf_new (fst l) (of_nat (snd l)))" if "l \<in> set ls" for l
    using parse_print_leaf [of "fst l" "snd l"] assms that length_print_leaf [OF that]
    by (simp add: ucast_of_nat_u32)
  from parse_tokens [of ls print_leaf, OF this] assms(1) show ?thesis
    by (simp add: parse_leafs_def split)
qed

text \<open>The same for addresses whose ports have 32 bits.\<close>

lemma parse_printed_addrs:
  assumes "addrs \<noteq> []" and "\<forall>l \<in> set addrs. plain_ip (fst l)"
    and "length (print_leafs (map (map_prod id unat) addrs)) < npos"
  shows "parse_leafs (print_leafs (map (map_prod id unat) addrs)) = Some (Inr (map (\<lambda>(ip, port). Leaf_new ip port) addrs))"
proof -
  have "unat (p :: u32) < 18446744073709551616" for p using unat_u32_bound [of p] by linarith
  then have "parse_leafs (print_leafs (map (map_prod id unat) addrs)) =
      Some (Inr (map (\<lambda>l. Leaf_new (fst l) (of_nat (snd l))) (map (map_prod id unat) addrs)))"
    by (intro parse_printed_leafs) (use assms in auto)
  moreover have "map (\<lambda>l. Leaf_new (fst l) (of_nat (snd l))) (map (map_prod id unat) addrs) =
      map (\<lambda>(ip, port). Leaf_new ip port) addrs" by (simp add: split_beta)
  ultimately show ?thesis by simp
qed

text \<open>
  C25. The flag's syntax: a list of leaves written as \<open>ip:port\<close> with commas between is read back, in
  order. A port is read as a 64-bit number and stored in 32 bits, so a port of 2 to the 32 or more
  is accepted and silently reduced.
\<close>

theorem parse_print_leafs:
  assumes "ls \<noteq> []" and "\<forall>l \<in> set ls. plain_ip (fst l) \<and> snd l < 18446744073709551616"
    and "length (print_leafs ls) < npos"
  shows "parse_leafs (print_leafs ls) = Some (Inr (map (\<lambda>l. Leaf_new (fst l) (of_nat (snd l))) ls))"
  by (rule parse_printed_leafs [OF assms])

theorem parse_print_leafs_witness:
  "print_leafs [(''10.0.0.1'', 9091), (''h'', 4294967297)] = ''10.0.0.1:9091,h:4294967297'' \<and>
   parse_leafs (print_leafs [(''10.0.0.1'', 9091), (''h'', 4294967297)]) =
     Some (Inr [Leaf_new ''10.0.0.1'' 9091, Leaf_new ''h'' 1])"
proof
  show p: "print_leafs [(''10.0.0.1'', 9091), (''h'', 4294967297)] = ''10.0.0.1:9091,h:4294967297''"
    by (simp add: print_leaf_def decimal.simps char_of_def bit_iff_odd)
  have big: "(4294967297 :: u32) = 1" by simp
  have len: "length (print_leafs [(''10.0.0.1'', 9091), (''h'', 4294967297)]) < npos"
    unfolding p by (simp add: npos_def)
  have "\<forall>l \<in> set [(''10.0.0.1'', 9091), (''h'', 4294967297)]. plain_ip (fst l) \<and> snd l < (18446744073709551616 :: nat)"
    by (simp add: plain_ip_def)
  from parse_print_leafs [OF _ this len]
  show "parse_leafs (print_leafs [(''10.0.0.1'', 9091), (''h'', 4294967297)]) =
     Some (Inr [Leaf_new ''10.0.0.1'' 9091, Leaf_new ''h'' 1])"
    by (simp add: big)
qed

lemma parse_leaf_new: "parse_leaf t = Inr l \<Longrightarrow> \<exists>i p. l = Leaf_new i p"
  by (auto simp: parse_leaf_def Let_def result_simps split: if_splits)

lemma parse_tokens_Inr:
  "foldE (\<lambda>t ls. bindE (parse_leaf t) (\<lambda>l. Inr (ls @ [l]))) ts acc = Inr ls \<Longrightarrow>
     length ls = length acc + length ts \<and> (\<forall>l \<in> set ls. l \<in> set acc \<or> (\<exists>i p. l = Leaf_new i p))"
proof (induction ts arbitrary: acc)
  case (Cons t ts)
  then obtain l where l: "parse_leaf t = Inr l"
    "foldE (\<lambda>t ls. bindE (parse_leaf t) (\<lambda>l. Inr (ls @ [l]))) ts (acc @ [l]) = Inr ls"
    by (auto simp: result_simps)
  from Cons.IH [OF l(2)] parse_leaf_new [OF l(1)] show ?case by auto
qed simp

lemma length_pieces: "length (pieces d str) \<le> Suc (length str)"
  by (induction str) (auto split: list.splits)

lemma parse_leafs_Inr:
  assumes "length flag < npos" and "parse_leafs flag = Some (Inr ls)"
  shows "ls \<noteq> [] \<and> length ls \<le> Suc (length flag) \<and> (\<forall>l \<in> set ls. \<exists>i p. l = Leaf_new i p)"
proof -
  obtain r where r: "db_split flag (CHR '','') = Some r"
    using assms(2) by (auto simp: parse_leafs_def split: option.splits)
  have "r = Inr (pieces (CHR '','') flag)"
    using db_split_loop_hangs [of flag "CHR '',''" 0 "[]" r] db_split_loop_returns [of flag 0 "CHR '',''" "[]"]
      r assms(1) by (simp add: db_split_def)
  with assms(2) r
  have "foldE (\<lambda>t ls. bindE (parse_leaf t) (\<lambda>l. Inr (ls @ [l]))) (pieces (CHR '','') flag) [] = Inr ls"
    by (simp add: parse_leafs_def)
  from parse_tokens_Inr [OF this] length_pieces [of "CHR '',''" flag] show ?thesis
    by (metis add_0 length_0_conv list.set(1) empty_iff list.size(3) pieces_nonempty)
qed


section \<open>From the flag to the handlers\<close>

text \<open>
  A server that starts never fails: whatever leaf list \<open>main\<close> accepts, whatever calls arrive,
  however their futures resolve and whenever leaves close their channels, no assertion of
  the handlers fails on their event thread and the choice of a leaf never divides by zero; a leaf is connected
  exactly when it has a client, which talks to the address that was given for it.
\<close>

theorem db_never_fails:
  assumes "length flag < 4294967295" and "parse_leafs flag = Some (Inr ls)"
  shows "\<exists>t. foldE db_step ops (DBHandler_new ls) = Inr t \<and>
    (\<forall>l \<in> set (leafs t). (connected l \<longleftrightarrow> client l \<noteq> None) \<and> (\<forall>p. client l = Some p \<longrightarrow> p = (ip l, port l))) \<and>
    map (\<lambda>l. (ip l, port l)) (leafs t) = map (\<lambda>l. (ip l, port l)) ls"
proof -
  have "length flag < npos" using assms(1) by (simp add: npos_def)
  from parse_leafs_Inr [OF this assms(2)]
  have ls: "ls \<noteq> []" "length ls < 4294967296" "\<forall>l \<in> set ls. \<exists>i p. l = Leaf_new i p"
    using assms(1) by auto
  then have "\<forall>l \<in> set ls. leaf_wf l" using leaf_wf_ops(1) by metis
  then have "db_inv (map (\<lambda>l. (ip l, port l)) ls) (DBHandler_new ls)"
    using ls(1,2) by (simp add: db_inv_def db_ok_def DBHandler_new_def)
  from db_run_inv [OF this, of ops] show ?thesis by (auto simp: db_inv_def db_ok_def leaf_wf_def)
qed

theorem db_never_fails_witness:
  "\<exists>t. foldE db_step [DB_Write 1 ''k'' [1], DB_Leaf_Closed 0, DB_Read 5 2 9 ''f'' 4, DB_Write 3 ''k'' [2]]
      (DBHandler_new [Leaf_new ''127.0.0.1'' 9091]) = Inr t \<and>
    map (\<lambda>l. (ip l, port l)) (leafs t) = [(''127.0.0.1'', 9091)]"
proof -
  have p: "parse_leafs default_leaf_server = Some (Inr [Leaf_new ''127.0.0.1'' 9091])"
    by (simp add: default_leaf_server_def parse_leafs_def db_split_def db_split_loop.simps str_find.simps
        npos_def substr_def parse_leaf_def stoul_def is_space_def is_digit_def digit_value_def Let_def)
  have "length default_leaf_server < 4294967295" by (simp add: default_leaf_server_def)
  from db_never_fails [OF this p, of "[DB_Write 1 ''k'' [1], DB_Leaf_Closed 0, DB_Read 5 2 9 ''f'' 4, DB_Write 3 ''k'' [2]]"]
  show ?thesis by (auto simp: Leaf_new_def)
qed

end
