(* ===== verification/Interleave.thy ===== *)
theory Interleave
  imports Prelude
begin

text \<open>
  Threads that run the same code on shared data without a lock: a state is the shared data and what each
  thread has still to do, a step lets one thread take its next atomic step. An
  invariant of such a system is an invariant of the data and an assertion for each thread that its own
  steps establish and no step of another thread destroys (the locale \<open>thread_local\<close>).
\<close>

record ('h, 't) interleaving =
  shared :: 'h
  threads :: "'t list"

inductive thread_step ::
  "('t \<Rightarrow> 'h \<Rightarrow> 't \<times> 'h) \<Rightarrow> ('h, 't) interleaving \<Rightarrow> ('h, 't) interleaving \<Rightarrow> bool"
  for step :: "'t \<Rightarrow> 'h \<Rightarrow> 't \<times> 'h" where
  "i < length (threads s) \<Longrightarrow> step (threads s ! i) (shared s) = (t, h) \<Longrightarrow>
     thread_step step s (s\<lparr>shared := h, threads := (threads s)[i := t]\<rparr>)"

inductive_cases thread_stepE: "thread_step step s t"

text \<open>A schedule as a list of thread numbers, and its steps in the relation.\<close>

fun run_schedule ::
  "('t \<Rightarrow> 'h \<Rightarrow> 't \<times> 'h) \<Rightarrow> nat list \<Rightarrow> ('h, 't) interleaving \<Rightarrow> ('h, 't) interleaving" where
  "run_schedule step [] s = s"
| "run_schedule step (i # is) s =
     (case step (threads s ! i) (shared s) of (t, h) \<Rightarrow>
        run_schedule step is (s\<lparr>shared := h, threads := (threads s)[i := t]\<rparr>))"

lemma run_schedule_steps:
  "\<forall>i \<in> set is. i < length (threads s) \<Longrightarrow> (thread_step step)\<^sup>*\<^sup>* s (run_schedule step is s)"
proof (induction "is" arbitrary: s)
  case (Cons i "is")
  obtain t h where st: "step (threads s ! i) (shared s) = (t, h)" by fastforce
  let ?u = "s\<lparr>shared := h, threads := (threads s)[i := t]\<rparr>"
  have "thread_step step s ?u" by (rule thread_step.intros [where step = step]) (use Cons.prems st in simp_all)
  moreover have "(thread_step step)\<^sup>*\<^sup>* ?u (run_schedule step is ?u)"
    by (rule Cons.IH) (use Cons.prems in simp)
  ultimately show ?case by (simp add: st converse_rtranclp_into_rtranclp)
qed simp

lemma threads_length: "(thread_step step)\<^sup>*\<^sup>* s u \<Longrightarrow> length (threads u) = length (threads s)"
  by (induction rule: rtranclp_induct) (auto elim: thread_stepE)

lemma in_set_list_update: "x \<in> set (xs[i := y]) \<Longrightarrow> x = y \<or> x \<in> set xs"
  by (meson insert_iff set_update_subset_insert subsetD)

section \<open>Invariants\<close>

locale thread_local =
  fixes step :: "'t \<Rightarrow> 'h \<Rightarrow> 't \<times> 'h"
    and good :: "'h \<Rightarrow> bool"
    and local_ok :: "'h \<Rightarrow> 't \<Rightarrow> bool"
  assumes own: "good h \<Longrightarrow> local_ok h t \<Longrightarrow> step t h = (t', h') \<Longrightarrow> good h' \<and> local_ok h' t'"
    and others: "good h \<Longrightarrow> local_ok h t \<Longrightarrow> step t h = (t', h') \<Longrightarrow> local_ok h q \<Longrightarrow> local_ok h' q"
begin

definition all_ok :: "('h, 't) interleaving \<Rightarrow> bool" where
  "all_ok s \<longleftrightarrow> good (shared s) \<and> (\<forall>t \<in> set (threads s). local_ok (shared s) t)"

lemma step_ok: "thread_step step s u \<Longrightarrow> all_ok s \<Longrightarrow> all_ok u"
proof (erule thread_stepE)
  fix i t h
  assume i: "i < length (threads s)" "step (threads s ! i) (shared s) = (t, h)" and s: "all_ok s"
    and u: "u = s\<lparr>shared := h, threads := (threads s)[i := t]\<rparr>"
  have g: "good (shared s)" and l: "local_ok (shared s) (threads s ! i)" using s i(1) by (simp_all add: all_ok_def)
  have "local_ok h q" if "q \<in> set ((threads s)[i := t])" for q
    using in_set_list_update [OF that] own [OF g l i(2)] others [OF g l i(2)] s by (auto simp: all_ok_def)
  with own [OF g l i(2)] show "all_ok u" by (simp add: all_ok_def u)
qed

lemma reach_ok: "(thread_step step)\<^sup>*\<^sup>* s u \<Longrightarrow> all_ok s \<Longrightarrow> all_ok u"
  by (induction rule: rtranclp_induct) (auto intro: step_ok)

lemmas reach_local = reach_ok [unfolded all_ok_def]

end

end
