(* ===== verification/DBRace.thy ===== *)
theory DBRace
  imports DBServer Interleave
begin

text \<open>
  What the database server of \<open>fbthrift/exp3\<close> shares between threads without a lock. \<open>getLeaf\<close> runs on the
  worker threads of the server, and all of them read and write \<open>curLeaf\<close>; the closures that the handlers
  give to \<open>runInEventBaseThread\<close> run on the event thread of the connection the call came in on, of which
  the server has several, and all of them test, open and use the one client of a leaf.
  Both are taken apart into their accesses to the shared data, each an atomic step, and run by
  any number of threads in any order. \<open>DBServer\<close> is the case of one thread.
\<close>

section \<open>Choosing a leaf\<close>

datatype pick_pc = Load_Cur | Store_Cur u32 | Fetch_Leaf | Picked nat

text \<open>\<open>n\<close> is the number of leafs.\<close>

definition getLeaf_step :: "nat \<Rightarrow> pick_pc \<Rightarrow> u32 \<Rightarrow> pick_pc \<times> u32" where
  "getLeaf_step n pc cur =
     (case pc of
        Load_Cur \<Rightarrow> (Store_Cur cur, cur)
      | Store_Cur v \<Rightarrow> (Fetch_Leaf, ucast ((ucast (v + 1) :: u64) mod of_nat n))
      | Fetch_Leaf \<Rightarrow> (Picked (unat cur), cur)
      | Picked i \<Rightarrow> (Picked i, cur))"

text \<open>Undisturbed, the steps are \<open>getLeaf\<close>.\<close>

lemma getLeaf_steps:
  assumes "leafs s \<noteq> []"
  shows "getLeaf s =
    (case ((\<lambda>(pc, cur). getLeaf_step (length (leafs s)) pc cur) ^^ 3) (Load_Cur, curLeaf s) of
       (Picked i, cur) \<Rightarrow> Inr (i, s\<lparr>curLeaf := cur\<rparr>) | _ \<Rightarrow> Inl Div_By_Zero)"
  using assms by (simp add: getLeaf_def getLeaf_step_def eval_nat_numeral Let_def)

fun pick_ok :: "nat \<Rightarrow> pick_pc \<Rightarrow> bool" where
  "pick_ok n (Store_Cur v) = (unat v < n)"
| "pick_ok n (Picked i) = (i < n)"
| "pick_ok n _ = True"

lemma getLeaf_step_ok:
  assumes "0 < n" and "n < 4294967296" and "unat cur < n" and "pick_ok n pc" and "getLeaf_step n pc cur = (pc', cur')"
  shows "unat cur' < n \<and> pick_ok n pc'"
proof (cases pc)
  case (Store_Cur v)
  then have "unat v < n" using assms(4) by simp
  from next_leaf_index [OF assms(1,2) this] show ?thesis
    using Store_Cur assms(1,5) by (auto simp: getLeaf_step_def)
qed (use assms in \<open>auto simp: getLeaf_step_def\<close>)

definition leaf_count :: "nat \<Rightarrow> bool" where
  "leaf_count n \<longleftrightarrow> 0 < n \<and> n < 4294967296"

interpretation picking: thread_local "getLeaf_step n" "\<lambda>cur. leaf_count n \<and> unat cur < n" "\<lambda>cur. pick_ok n"
  by unfold_locales (auto simp: leaf_count_def dest: getLeaf_step_ok)

text \<open>
  The unsynchronised \<open>curLeaf\<close> stays within the leafs: however many reads choose a leaf at the same time and
  however their steps interleave, no read indexes the vector of leafs out of range.
\<close>

theorem getLeaf_race_in_range:
  assumes "0 < n" and "n < 4294967296"
    and "(thread_step (getLeaf_step n))\<^sup>*\<^sup>* \<lparr>shared = 0, threads = replicate k Load_Cur\<rparr> s"
    and "Picked i \<in> set (threads s)"
  shows "i < n"
proof -
  have "(leaf_count n \<and> unat (shared s) < n) \<and> (\<forall>pc \<in> set (threads s). pick_ok n pc)"
    by (rule picking.reach_local [OF assms(3)]) (use assms(1,2) in \<open>simp add: leaf_count_def\<close>)
  with assms(4) show ?thesis by auto
qed

definition two_picks :: "(u32, pick_pc) interleaving" where
  "two_picks = run_schedule (getLeaf_step 2) [0, 1, 0, 1, 1, 0] \<lparr>shared = 0, threads = replicate 2 Load_Cur\<rparr>"

lemma two_picks_reached:
  "(thread_step (getLeaf_step 2))\<^sup>*\<^sup>* \<lparr>shared = 0, threads = replicate 2 Load_Cur\<rparr> two_picks"
  unfolding two_picks_def by (rule run_schedule_steps) simp

lemma two_picks_eq: "two_picks = \<lparr>shared = 1, threads = [Picked 1, Picked 1]\<rparr>"
  by (simp add: two_picks_def getLeaf_step_def numeral_2_eq_2)

theorem getLeaf_race_in_range_witness:
  "Picked 1 \<in> set (threads two_picks) \<and> (1 :: nat) < 2"
  using getLeaf_race_in_range [OF _ _ two_picks_reached, of 1] by (simp add: two_picks_eq)

text \<open>
  But the turns are lost: with two leafs, both of two concurrent reads can go to the same leaf, where one
  after the other they would go to both.
\<close>

lemma getLeaf_race_same_leaf:
  "\<exists>s. (thread_step (getLeaf_step 2))\<^sup>*\<^sup>* \<lparr>shared = 0, threads = replicate 2 Load_Cur\<rparr> s \<and>
     threads s = [Picked 1, Picked 1]"
  by (rule exI [of _ two_picks], rule conjI, rule two_picks_reached) (simp add: two_picks_eq)

section \<open>The client of a leaf\<close>

datatype use_pc = Test_Connected | Connect | Get_Client | Sent "string \<times> u32" | Closing | Closed | Aborted

definition use_leaf_step :: "use_pc \<Rightarrow> Leaf \<Rightarrow> use_pc \<times> Leaf" where
  "use_leaf_step pc l =
     (case pc of
        Test_Connected \<Rightarrow> (if \<not> isConnected l then Connect else Get_Client, l)
      | Connect \<Rightarrow> (case connect True l of Inl e \<Rightarrow> (Aborted, l) | Inr l \<Rightarrow> (Get_Client, l))
      | Get_Client \<Rightarrow> (case getConnection l of None \<Rightarrow> Aborted | Some c \<Rightarrow> Sent c, l)
      | Closing \<Rightarrow> (Closed, channelClosed l)
      | _ \<Rightarrow> (pc, l))"

text \<open>Undisturbed, the steps are what the handlers do for each leaf.\<close>

lemma use_leaf_steps:
  "fst (((\<lambda>(pc, l). use_leaf_step pc l) ^^ 3) (Test_Connected, l)) = Aborted \<longleftrightarrow>
     bindE (if \<not> isConnected l then connect True l else Inr l) (\<lambda>l. assertE (getConnection l \<noteq> None) (Inr l)) =
       Inl Assert_Failed"
  by (cases "client l")
    (auto simp: use_leaf_step_def eval_nat_numeral isConnected_def connect_def getConnection_def assertE_def)

definition use_ok :: "Leaf \<Rightarrow> use_pc \<Rightarrow> bool" where
  "use_ok l pc \<longleftrightarrow> pc \<in> {Test_Connected, Get_Client} \<or> pc = Sent (the (client l))"

interpretation users: thread_local use_leaf_step "\<lambda>l. connected l \<and> client l = c \<and> c \<noteq> None" use_ok
  by unfold_locales
    (auto simp: use_ok_def use_leaf_step_def isConnected_def getConnection_def split: use_pc.splits)



text \<open>
  C34. Connecting is a race. Two event threads that send to a leaf not yet connected can both
  find it so; then both call \<open>connect\<close>, and the assertion there fails for the second.
  A closed channel is another: it can take the client away between the test and the use.
\<close>

theorem connect_race:
  assumes "client l = None" and "\<not> connected l"
  shows "(\<exists>s. (thread_step use_leaf_step)\<^sup>*\<^sup>* \<lparr>shared = l, threads = [Test_Connected, Test_Connected]\<rparr> s \<and>
      threads s = [Sent (ip l, port l), Aborted]) \<and>
    (\<exists>s. (thread_step use_leaf_step)\<^sup>*\<^sup>* \<lparr>shared = connected_leaf l, threads = [Test_Connected, Closing]\<rparr> s \<and>
      threads s = [Aborted, Closed])"
proof
  let ?s = "run_schedule use_leaf_step [0, 1, 0, 1, 0] \<lparr>shared = l, threads = [Test_Connected, Test_Connected]\<rparr>"
  have "(thread_step use_leaf_step)\<^sup>*\<^sup>* \<lparr>shared = l, threads = [Test_Connected, Test_Connected]\<rparr> ?s"
    by (rule run_schedule_steps) simp
  moreover have "threads ?s = [Sent (ip l, port l), Aborted]"
    using assms by (simp add: use_leaf_step_def isConnected_def connect_def getConnection_def)
  ultimately show "\<exists>s. (thread_step use_leaf_step)\<^sup>*\<^sup>*
      \<lparr>shared = l, threads = [Test_Connected, Test_Connected]\<rparr> s \<and> threads s = [Sent (ip l, port l), Aborted]"
    by (intro exI conjI)
next
  let ?s = "run_schedule use_leaf_step [0, 1, 0] \<lparr>shared = connected_leaf l, threads = [Test_Connected, Closing]\<rparr>"
  have "(thread_step use_leaf_step)\<^sup>*\<^sup>* \<lparr>shared = connected_leaf l, threads = [Test_Connected, Closing]\<rparr> ?s"
    by (rule run_schedule_steps) simp
  moreover have "threads ?s = [Aborted, Closed]"
    by (simp add: use_leaf_step_def isConnected_def connected_leaf_def getConnection_def channelClosed_def
        setDisconnected_def)
  ultimately show "\<exists>s. (thread_step use_leaf_step)\<^sup>*\<^sup>*
      \<lparr>shared = connected_leaf l, threads = [Test_Connected, Closing]\<rparr> s \<and> threads s = [Aborted, Closed]"
    by (intro exI conjI)
qed

theorem connect_race_witness:
  "\<exists>s. (thread_step use_leaf_step)\<^sup>*\<^sup>* \<lparr>shared = Leaf_new ''a'' 1, threads = [Test_Connected, Test_Connected]\<rparr> s \<and>
     threads s = [Sent (''a'', 1), Aborted]"
  using connect_race [of "Leaf_new ''a'' 1"] by (simp add: Leaf_new_def)

end
