(* ===== verification/Exp3System.thy ===== *)
theory Exp3System
  imports DBServer
begin

text \<open>
  \<open>fbthrift/exp3\<close> as a whole: the database server (\<open>DBServer\<close>) in front of any number of leaf servers
  (\<open>LeafServer\<close>) over asynchronous IO (\<open>LeafAsyncIO\<close>). A call that the database server makes of a leaf
  is identified by its future; it reaches the leaf some time later, is a call of the leaf's handler with that
  number as its callback, and the leaf's reply resolves the future. Steps of the servers, reports of
  the kernels, deliveries and failing calls interleave in any order. The state machine is the step function of
  the components; reachability is an inductive predicate.
\<close>

section \<open>The system\<close>

text \<open>The calls the clients have made, with their first (or only) future.\<close>

datatype db_call = W_Call nat string bytes nat | R_Call nat u64 string u32 nat

record 'f sys3 =
  db3 :: db_state
  leafs3 :: "'f leaf_state list"
  undelivered :: "nat list"
  returned :: "nat list"
  failed3 :: "nat list"
  calls3 :: "db_call list"

datatype 'f event3 =
    Client_Writes nat string bytes
  | Client_Reads int nat u64 string u32
  | Call_Reaches_Leaf nat "'f leaf_env"    \<comment> \<open>which of the undelivered\<close>
  | Leaf_Kernel nat int io_event
  | Leaf_Worker nat nat int
  | Leaf_Returns nat nat int               \<comment> \<open>leaf, which of its replies, time\<close>
  | Connection_Closed nat
  | Leaf_Call_Fails nat int                \<comment> \<open>which future, time\<close>

fun leaf_call :: "'f leaf_env \<Rightarrow> nat \<Rightarrow> leaf_request \<Rightarrow> 'f leaf_op" where
  "leaf_call env f (Leaf_Write k d) = Write_Call env f k d"
| "leaf_call env f (Leaf_Read fn sz) = Read_Call env f fn sz"

fun reply_result :: "leaf_reply \<Rightarrow> LeafBenchmarkData option" where
  "reply_result (Reply_Done f) = None"
| "reply_result (Reply_Data f d) = Some d"

text \<open>
  The futures resolved. A call can fail for the database server (the leaf cannot be reached, its channel
  closes, it times out) wherever it is, on its way or at the leaf, which may do its work all the same.
\<close>

definition settled :: "'f sys3 \<Rightarrow> nat set" where
  "settled s = set (returned s) \<union> set (failed3 s)"

lemma settled_cong: "returned t = returned s \<Longrightarrow> failed3 t = failed3 s \<Longrightarrow> settled t = settled s"
  by (simp add: settled_def)

definition leaf_does :: "nat \<Rightarrow> 'f leaf_op \<Rightarrow> 'f sys3 \<Rightarrow> 'f sys3 result" where
  "leaf_does i op s =
     (if i < length (leafs3 s)
      then bindE (leaf_step op (leafs3 s ! i)) (\<lambda>l. Inr (s\<lparr>leafs3 := (leafs3 s)[i := l]\<rparr>))
      else Inr s)"

definition db_calls :: "db_call \<Rightarrow> db_state \<Rightarrow> 'f sys3 \<Rightarrow> 'f sys3" where
  "db_calls c d s =
     s\<lparr>db3 := d, undelivered := undelivered s @ [length (requests_made (db3 s))..<length (requests_made d)],
       calls3 := calls3 s @ [c]\<rparr>"

definition sys3_step :: "'f event3 \<Rightarrow> 'f sys3 \<Rightarrow> 'f sys3 result" where
  "sys3_step e s =
     (case e of
        Client_Writes cb k d \<Rightarrow>
          bindE (db_write True cb k d (db3 s)) (\<lambda>t.
            Inr (db_calls (W_Call cb k d (length (requests_made (db3 s)))) t s))
      | Client_Reads now cb reqid fn sz \<Rightarrow>
          bindE (db_read True now cb reqid fn sz (db3 s)) (\<lambda>t.
            Inr (db_calls (R_Call cb reqid fn sz (length (requests_made (db3 s)))) t s))
      | Call_Reaches_Leaf j env \<Rightarrow>
          if j < length (undelivered s) then
            let f = undelivered s ! j in
            case requests_made (db3 s) ! f of (i, q) \<Rightarrow>
              leaf_does i (leaf_call env f q)
                (s\<lparr>undelivered := take j (undelivered s) @ drop (Suc j) (undelivered s)\<rparr>)
          else Inr s
      | Leaf_Kernel i now ev \<Rightarrow> leaf_does i (Kernel now ev) s
      | Leaf_Worker i k cpu \<Rightarrow> leaf_does i (Worker k cpu) s
      | Leaf_Returns i k now \<Rightarrow>
          if i < length (leafs3 s) \<and> k < length (replies (leafs3 s ! i)) then
            let r = replies (leafs3 s ! i) ! k; f = reply_cb r in
            Inr (if f \<in> settled s then s
                 else s\<lparr>db3 := resolve now f (reply_result r) (db3 s), returned := returned s @ [f]\<rparr>)
          else Inr s
      | Connection_Closed i \<Rightarrow> Inr (s\<lparr>db3 := leaf_closed i (db3 s)\<rparr>)
      | Leaf_Call_Fails f now \<Rightarrow>
          Inr (if f < length (requests_made (db3 s)) \<and> f \<notin> settled s then
                 s\<lparr>db3 := resolve now f None (db3 s), failed3 := failed3 s @ [f]\<rparr>
               else s))"

text \<open>A new IO object of a leaf lies at an address that none in flight has.\<close>

fun address_fresh :: "'f event3 \<Rightarrow> 'f sys3 \<Rightarrow> bool" where
  "address_fresh (Call_Reaches_Leaf j env) s =
     (\<forall>l \<in> set (leafs3 s). new_addr env \<notin> io_addr ` set (inflight (asyncio l)))"
| "address_fresh _ s = True"

inductive sys3_reach :: "'f sys3 \<Rightarrow> 'f sys3 \<Rightarrow> bool" for s0 :: "'f sys3" where
  start: "sys3_reach s0 s0"
| step: "sys3_reach s0 s \<Longrightarrow> address_fresh e s \<Longrightarrow> sys3_step e s = Inr t \<Longrightarrow> sys3_reach s0 t"

inductive_cases sys3_reachE: "sys3_reach s0 s"

definition sys3_start :: "Leaf list \<Rightarrow> 'f leaf_state list \<Rightarrow> 'f sys3" where
  "sys3_start ls lfs = \<lparr>db3 = DBHandler_new ls, leafs3 = lfs, undelivered = [], returned = [], failed3 = [], calls3 = []\<rparr>"

text \<open>\<open>main\<close> of \<open>DB/DBServer.cpp\<close> up to the handler, for the value of its flag.\<close>

definition db3_main :: "string \<Rightarrow> db_state result option" where
  "db3_main flag = map_option (\<lambda>r. bindE r (\<lambda>ls. Inr (DBHandler_new ls))) (parse_leafs flag)"

lemma db3_main_printed:
  assumes "addrs \<noteq> []" and "\<forall>l \<in> set addrs. plain_ip (fst l)"
    and "length (print_leafs (map (map_prod id unat) addrs)) < npos"
  shows "db3_main (print_leafs (map (map_prod id unat) addrs)) =
    Some (Inr (db3 (sys3_start (map (\<lambda>(ip, port). Leaf_new ip port) addrs) lfs)))"
  using parse_printed_addrs [OF assms] by (simp add: db3_main_def sys3_start_def)

section \<open>What a leaf holds\<close>

text \<open>The calls a leaf knows, and whether they are writes.\<close>

fun cont_item :: "leaf_cont \<Rightarrow> nat \<times> bool" where
  "cont_item (Write_Done f fd) = (f, True)"
| "cont_item (Read_Reply f fd sz t) = (f, False)"

fun reply_item :: "leaf_reply \<Rightarrow> nat \<times> bool" where
  "reply_item (Reply_Done f) = (f, True)"
| "reply_item (Reply_Data f d) = (f, False)"

definition leaf_items :: "'f leaf_state \<Rightarrow> (nat \<times> bool) set" where
  "leaf_items s = (cont_item \<circ> snd) ` set (conts s) \<union> (\<lambda>t. (task_cb t, False)) ` set (tasks s) \<union>
     reply_item ` set (replies s)"

fun op_items :: "'f leaf_op \<Rightarrow> (nat \<times> bool) set" where
  "op_items (Write_Call env f k d) = {(f, True)}"
| "op_items (Read_Call env f fn sz) = {(f, False)}"
| "op_items _ = {}"

lemma leaf_worker_items:
  assumes "leaf_worker i cpu s = Inr t"
  shows "leaf_items t \<subseteq> leaf_items s \<and> set (replies s) \<subseteq> set (replies t)"
proof (cases "i < length (tasks s)")
  case True
  with assms obtain d where fr: "tasks t = take i (tasks s) @ drop (Suc i) (tasks s)" "conts t = conts s"
      "replies t = replies s @ [Reply_Data (task_cb (tasks s ! i)) d]"
    by (auto simp: leaf_worker_def Let_def split: if_splits)
  have "set (tasks t) \<subseteq> set (tasks s)" by (auto simp: fr(1) dest: in_set_takeD in_set_dropD)
  then have "(\<lambda>t. (task_cb t, False)) ` set (tasks t) \<subseteq> (\<lambda>t. (task_cb t, False)) ` set (tasks s)"
    by (rule image_mono)
  moreover have "reply_item ` set (replies t) = insert (task_cb (tasks s ! i), False) (reply_item ` set (replies s))"
    by (simp add: fr(3))
  moreover have "(task_cb (tasks s ! i), False) \<in> (\<lambda>t. (task_cb t, False)) ` set (tasks s)"
    using True by (intro imageI) simp
  ultimately show ?thesis unfolding leaf_items_def fr(2) by (auto simp: fr(3))
qed (use assms in \<open>simp add: leaf_worker_def\<close>)

lemma leaf_complete_items:
  assumes "leaf_ok s" and "leaf_complete now ev s = Inr t"
  shows "leaf_items t \<subseteq> leaf_items s \<and> set (replies s) \<subseteq> set (replies t)"
proof -
  from leaf_complete_Inr [OF assms] obtain io k rest where
    k: "map_of (conts s) (ev_data ev) = Some k"
    and t: "t = run_cont now (io\<lparr>bufp := ev_buffer ev, io_result := ioResult ev, fulfilled := True\<rparr>) k
      (s\<lparr>asyncio := (asyncio s)\<lparr>inflight := rest\<rparr>, conts := filter (\<lambda>c. fst c \<noteq> ev_data ev) (conts s)\<rparr>)"
    by blast
  have "cont_item k \<in> (cont_item \<circ> snd) ` set (conts s)"
    using map_of_SomeD [OF k] by (auto intro!: image_eqI [of _ _ "(ev_data ev, k)"])
  then show ?thesis
    by (cases k) (auto simp: t run_cont_def leaf_items_def)
qed

lemma leaf_step_items:
  assumes "leaf_ok s" and "leaf_step op s = Inr t"
  shows "leaf_items t \<subseteq> leaf_items s \<union> op_items op \<and> set (replies s) \<subseteq> set (replies t)"
proof (cases op)
  case (Write_Call env f fn d)
  with assms(2) have "leaf_write env f fn d s = Inr t" by (simp add: leaf_step_def)
  from leaf_write_Inr [OF this] obtain fd where "conts t = (new_addr env, Write_Done f fd) # conts s"
      "tasks t = tasks s" "replies t = replies s" by blast
  then have "leaf_items t = insert (f, True) (leaf_items s)" by (simp add: leaf_items_def)
  with \<open>replies t = replies s\<close> Write_Call show ?thesis by simp
next
  case (Read_Call env f fn sz)
  with assms(2) have "leaf_read env f fn sz s = Inr t" by (simp add: leaf_step_def)
  from leaf_read_Inr [OF this] obtain fd where "conts t = (new_addr env, Read_Reply f fd sz (time_now env)) # conts s"
      "tasks t = tasks s" "replies t = replies s" by blast
  then have "leaf_items t = insert (f, False) (leaf_items s)" by (simp add: leaf_items_def)
  with \<open>replies t = replies s\<close> Read_Call show ?thesis by simp
next
  case (Kernel now ev)
  with assms leaf_complete_items [OF assms(1), of now ev t] show ?thesis by (simp add: leaf_step_def)
next
  case (Worker i cpu)
  with assms leaf_worker_items [of i cpu s t] show ?thesis by (simp add: leaf_step_def)
qed

section \<open>Invariant\<close>

fun is_write :: "leaf_request \<Rightarrow> bool" where
  "is_write (Leaf_Write k d) = True"
| "is_write (Leaf_Read fn sz) = False"

text \<open>
  \<open>n\<close> is the number of leafs, \<open>R\<close> the calls made of leafs, \<open>Rt\<close> the futures resolved, \<open>K\<close> the
  replies each leaf has given.
\<close>

fun call3_ok :: "nat \<Rightarrow> (nat \<times> leaf_request) list \<Rightarrow> db_call \<Rightarrow> bool" where
  "call3_ok n R (W_Call cb k d a) = (a + n \<le> length R \<and> (\<forall>i < n. R ! (a + i) = (i, Leaf_Write k d)))"
| "call3_ok n R (R_Call cb reqid fn sz f) = (f < length R \<and> snd (R ! f) = Leaf_Read fn sz)"

definition item3_ok :: "nat \<Rightarrow> (nat \<times> leaf_request) list \<Rightarrow> nat \<times> bool \<Rightarrow> bool" where
  "item3_ok i R x \<longleftrightarrow> fst x < length R \<and> fst (R ! fst x) = i \<and> is_write (snd (R ! fst x)) = snd x"

fun wait3_ok :: "db_call set \<Rightarrow> nat \<Rightarrow> nat set \<Rightarrow> db_wait \<Rightarrow> bool" where
  "wait3_ok C n Rt (Wait_All cb fs) = (\<exists>k d a. W_Call cb k d a \<in> C \<and> {a..<a + n} \<subseteq> set fs \<union> Rt)"
| "wait3_ok C n Rt (Wait_Read cb reqid t0 g) = (\<exists>fn sz. R_Call cb reqid fn sz g \<in> C)"

fun reply3_ok :: "db_call set \<Rightarrow> nat \<Rightarrow> nat set \<Rightarrow> (nat \<times> leaf_request) list \<Rightarrow> (nat \<Rightarrow> leaf_reply set) \<Rightarrow> db_reply \<Rightarrow> bool" where
  "reply3_ok C n Rt R K (DB_Done cb) = (\<exists>k d a. W_Call cb k d a \<in> C \<and> {a..<a + n} \<subseteq> Rt)"
| "reply3_ok C n Rt R K (DB_Data cb x) =
     (\<exists>fn sz g d. R_Call cb (db_request_id x) fn sz g \<in> C \<and> g < length R \<and> Reply_Data g d \<in> K (fst (R ! g)) \<and>
        db_data x = leaf_data d \<and> db_io_latency x = io_latency d \<and> db_cpu_consumed x = cpu_consumed d)"

definition given :: "'f sys3 \<Rightarrow> nat \<Rightarrow> leaf_reply set" where
  "given s i = set (replies (leafs3 s ! i))"

text \<open>\<open>m\<close> counts calls just taken off the wire.\<close>

definition sys3_inv :: "nat multiset \<Rightarrow> 'f sys3 \<Rightarrow> bool" where
  "sys3_inv m s \<longleftrightarrow>
     (let d = db3 s; R = requests_made d; n = length (leafs d); C = set (calls3 s); Rt = settled s in
      db_ok d \<and> unat (curLeaf d) < n \<and> length (leafs3 s) = n \<and> (\<forall>x \<in> set R. fst x < n) \<and>
      (\<forall>c \<in> C. call3_ok n R c) \<and>
      (\<forall>i < n. leaf_ok (leafs3 s ! i) \<and> (\<forall>x \<in> leaf_items (leafs3 s ! i). item3_ok i R x)) \<and>
      (\<forall>w \<in> set (waiting d). wait3_ok C n Rt w) \<and> (\<forall>r \<in> set (db_replies d). reply3_ok C n Rt R (given s) r) \<and>
      (\<forall>f \<in> set (returned s). f < length R \<and> f \<in> reply_cb ` given s (fst (R ! f))) \<and>
      m + mset (undelivered s) + sum_list (map accounted (leafs3 s)) = mset [0..<length R])"

lemma sys3_invD:
  assumes "sys3_inv m s"
  shows "db_ok (db3 s)" and "unat (curLeaf (db3 s)) < length (leafs (db3 s))"
    and "length (leafs3 s) = length (leafs (db3 s))"
    and "\<forall>x \<in> set (requests_made (db3 s)). fst x < length (leafs (db3 s))"
    and "\<forall>c \<in> set (calls3 s). call3_ok (length (leafs (db3 s))) (requests_made (db3 s)) c"
    and "\<forall>i < length (leafs (db3 s)). leaf_ok (leafs3 s ! i) \<and>
      (\<forall>x \<in> leaf_items (leafs3 s ! i). item3_ok i (requests_made (db3 s)) x)"
    and "\<forall>w \<in> set (waiting (db3 s)). wait3_ok (set (calls3 s)) (length (leafs (db3 s))) (settled s) w"
    and "\<forall>r \<in> set (db_replies (db3 s)).
      reply3_ok (set (calls3 s)) (length (leafs (db3 s))) (settled s) (requests_made (db3 s)) (given s) r"
    and "\<forall>f \<in> set (returned s). f < length (requests_made (db3 s)) \<and>
      f \<in> reply_cb ` given s (fst (requests_made (db3 s) ! f))"
    and "m + mset (undelivered s) + sum_list (map accounted (leafs3 s)) = mset [0..<length (requests_made (db3 s))]"
  using assms unfolding sys3_inv_def Let_def by simp_all

lemma sys3_invI:
  assumes "db_ok (db3 s)" and "unat (curLeaf (db3 s)) < length (leafs (db3 s))"
    and "length (leafs3 s) = length (leafs (db3 s))"
    and "\<forall>x \<in> set (requests_made (db3 s)). fst x < length (leafs (db3 s))"
    and "\<forall>c \<in> set (calls3 s). call3_ok (length (leafs (db3 s))) (requests_made (db3 s)) c"
    and "\<forall>i < length (leafs (db3 s)). leaf_ok (leafs3 s ! i) \<and>
      (\<forall>x \<in> leaf_items (leafs3 s ! i). item3_ok i (requests_made (db3 s)) x)"
    and "\<forall>w \<in> set (waiting (db3 s)). wait3_ok (set (calls3 s)) (length (leafs (db3 s))) (settled s) w"
    and "\<forall>r \<in> set (db_replies (db3 s)).
      reply3_ok (set (calls3 s)) (length (leafs (db3 s))) (settled s) (requests_made (db3 s)) (given s) r"
    and "\<forall>f \<in> set (returned s). f < length (requests_made (db3 s)) \<and>
      f \<in> reply_cb ` given s (fst (requests_made (db3 s) ! f))"
    and "m + mset (undelivered s) + sum_list (map accounted (leafs3 s)) = mset [0..<length (requests_made (db3 s))]"
  shows "sys3_inv m s"
  using assms unfolding sys3_inv_def Let_def by blast

text \<open>What is known stays true as calls and replies are added.\<close>

lemma call3_mono: "call3_ok n R c \<Longrightarrow> call3_ok n (R @ Q) c"
  by (cases c) (auto simp: nth_append)

lemma item3_mono: "item3_ok i R x \<Longrightarrow> item3_ok i (R @ Q) x"
  by (auto simp: item3_ok_def nth_append)

lemma wait3_mono: "wait3_ok C n Rt w \<Longrightarrow> C \<subseteq> C' \<Longrightarrow> Rt \<subseteq> Rt' \<Longrightarrow> wait3_ok C' n Rt' w"
  by (cases w) (auto; blast)+

lemma reply3_mono:
  assumes "reply3_ok C n Rt R K r" and "C \<subseteq> C'" and "Rt \<subseteq> Rt'" and "\<forall>x \<in> set R. K (fst x) \<subseteq> K' (fst x)"
  shows "reply3_ok C' n Rt' (R @ Q) K' r"
proof (cases r)
  case (DB_Done cb)
  with assms show ?thesis by (auto; blast)
next
  case (DB_Data cb x)
  with assms(1) obtain fn sz g d where g: "R_Call cb (db_request_id x) fn sz g \<in> C" "g < length R"
    "Reply_Data g d \<in> K (fst (R ! g))" "db_data x = leaf_data d" "db_io_latency x = io_latency d"
    "db_cpu_consumed x = cpu_consumed d" by auto
  have "K (fst (R ! g)) \<subseteq> K' (fst (R ! g))" using assms(4) g(2) by auto
  with g have "Reply_Data g d \<in> K' (fst ((R @ Q) ! g))" by (auto simp: nth_append)
  with g assms(2) DB_Data show ?thesis by (auto intro!: exI [of _ fn] exI [of _ sz] exI [of _ g] exI [of _ d])
qed


section \<open>Steps\<close>

lemma leaf_does_inv:
  assumes inv: "sys3_inv (called op) s" and i: "i < length (leafs3 s)" and st: "leaf_does i op s = Inr t"
    and items: "\<forall>x \<in> op_items op. item3_ok i (requests_made (db3 s)) x" and fresh: "fresh_op op (leafs3 s ! i)"
  shows "sys3_inv {#} t"
proof -
  note I = sys3_invD [OF inv]
  let ?R = "requests_made (db3 s)" and ?l = "leafs3 s ! i"
  from st i obtain l where l: "leaf_step op ?l = Inr l" "t = s\<lparr>leafs3 := (leafs3 s)[i := l]\<rparr>"
    by (auto simp: leaf_does_def result_simps)
  have n: "i < length (leafs (db3 s))" using i I(3) by simp
  then have ok: "leaf_ok ?l" and old: "\<forall>x \<in> leaf_items ?l. item3_ok i ?R x" using I(6) by simp_all
  note a = leaf_step_ok [OF ok fresh l(1)] and b = leaf_step_items [OF ok l(1)]
  have nth: "leafs3 t ! j = (if j = i then l else leafs3 s ! j)" if "j < length (leafs3 s)" for j
    using that by (simp add: l(2))
  have new: "\<forall>x \<in> leaf_items l. item3_ok i ?R x" using b old items by blast
  have grow: "given s j \<subseteq> given t j" for j
    using b i by (cases "j = i") (simp_all add: given_def l(2))
  have t: "db3 t = db3 s" "undelivered t = undelivered s" "returned t = returned s" "calls3 t = calls3 s"
    "length (leafs3 t) = length (leafs3 s)" "settled t = settled s"
    by (simp_all add: l(2) settled_def)
  have leafs: "\<forall>j < length (leafs (db3 s)). leaf_ok (leafs3 t ! j) \<and> (\<forall>x \<in> leaf_items (leafs3 t ! j). item3_ok j ?R x)"
    using I(3,6) a new by (simp add: nth)
  have rep: "\<forall>r \<in> set (db_replies (db3 s)).
      reply3_ok (set (calls3 s)) (length (leafs (db3 s))) (settled s) ?R (given t) r"
    using I(8) grow reply3_mono [where Q = "[]", of _ _ _ ?R "given s" _ _ _ "given t"] by (metis append_Nil2 subset_refl)
  have ret: "\<forall>f \<in> set (returned s). f < length ?R \<and> f \<in> reply_cb ` given t (fst (?R ! f))"
    using I(9) grow by blast
  have "sum_list (map accounted (leafs3 t)) + accounted ?l = sum_list (map accounted (leafs3 s)) + accounted l"
    unfolding l(2) by (simp add: sum_list_update_mset [OF i])
  then have "sum_list (map accounted (leafs3 t)) = sum_list (map accounted (leafs3 s)) + called op"
    using a by (simp add: add.left_commute add.commute)
  then have acc: "{#} + mset (undelivered s) + sum_list (map accounted (leafs3 t)) = mset [0..<length ?R]"
    using I(10) by (simp add: ac_simps)
  show ?thesis
    by (rule sys3_invI; unfold t) (fact I(1-5) leafs I(7) rep ret acc)+
qed

text \<open>New calls of the database server.\<close>

lemma db_calls_inv:
  assumes inv: "sys3_inv {#} s" and d: "db_ok d" "unat (curLeaf d) < length (leafs d)"
    "length (leafs d) = length (leafs (db3 s))" "requests_made d = requests_made (db3 s) @ Q"
    "\<forall>x \<in> set Q. fst x < length (leafs d)" "waiting d = waiting (db3 s) @ [w]" "db_replies d = db_replies (db3 s)"
    and c: "call3_ok (length (leafs d)) (requests_made d) c" "wait3_ok {c} (length (leafs d)) {} w"
  shows "sys3_inv {#} (db_calls c d s)"
proof -
  note I = sys3_invD [OF inv]
  let ?R = "requests_made (db3 s)" and ?n = "length (leafs (db3 s))" and ?t = "db_calls c d s"
  have t: "db3 ?t = d" "leafs3 ?t = leafs3 s" "returned ?t = returned s" "calls3 ?t = calls3 s @ [c]"
    "undelivered ?t = undelivered s @ [length ?R..<length (requests_made d)]" "given ?t = given s" "settled ?t = settled s"
    by (simp_all add: db_calls_def given_def fun_eq_iff settled_def)
  have req: "\<forall>x \<in> set (?R @ Q). fst x < length (leafs d)" using I(4) d(3,5) by auto
  have calls: "\<forall>x \<in> set (calls3 s @ [c]). call3_ok (length (leafs d)) (?R @ Q) x"
    using I(5) c(1) d(3,4) by (auto intro: call3_mono)
  have leafs: "\<forall>i < length (leafs d). leaf_ok (leafs3 s ! i) \<and> (\<forall>x \<in> leaf_items (leafs3 s ! i). item3_ok i (?R @ Q) x)"
    using I(6) d(3) by (auto intro: item3_mono)
  have old_waits: "wait3_ok (set (calls3 s @ [c])) ?n (settled s) v" if "v \<in> set (waiting (db3 s))" for v
    by (rule wait3_mono [of "set (calls3 s)" _ "settled s"]) (use I(7) that in auto)
  have "wait3_ok (set (calls3 s @ [c])) ?n (settled s) w"
    by (rule wait3_mono [of "{c}" _ "{}"]) (use c(2) d(3) in auto)
  with old_waits have waits: "\<forall>v \<in> set (waiting (db3 s) @ [w]). wait3_ok (set (calls3 s @ [c])) (length (leafs d)) (settled s) v"
    using d(3) by auto
  have "reply3_ok (set (calls3 s @ [c])) ?n (settled s) (?R @ Q) (given s) r" if "r \<in> set (db_replies (db3 s))" for r
    by (rule reply3_mono [of "set (calls3 s)" _ "settled s" _ "given s"]) (use I(8) that in auto)
  then have reps: "\<forall>r \<in> set (db_replies (db3 s)).
      reply3_ok (set (calls3 s @ [c])) (length (leafs d)) (settled s) (?R @ Q) (given s) r"
    using d(3) by simp
  have rets: "\<forall>f \<in> set (returned s). f < length (?R @ Q) \<and> f \<in> reply_cb ` given s (fst ((?R @ Q) ! f))"
    using I(9) by (auto simp: nth_append)
  have u: "mset [0..<length (?R @ Q)] = mset [0..<length ?R] + mset [length ?R..<length (?R @ Q)]"
    by (metis le_add1 length_append mset_append upt_add_eq_append zero_le)
  then have acc: "{#} + mset (undelivered s @ [length ?R..<length (?R @ Q)]) + sum_list (map accounted (leafs3 s)) =
      mset [0..<length (?R @ Q)]"
    unfolding u I(10) [symmetric] mset_append by (simp only: ac_simps)
  have len: "length (leafs3 s) = length (leafs d)" using I(3) d(3) by simp
  show ?thesis
    by (rule sys3_invI; unfold t d(4,6,7)) (fact d(1,2) len req calls leafs waits reps rets acc)+
qed

text \<open>A reply of a leaf resolves its future.\<close>

lemma resolve_waits:
  "wait3_ok C n Rt w \<Longrightarrow> v \<in> set (keep f w) \<Longrightarrow> wait3_ok C n (insert f Rt) v"
  by (cases w) (auto split: if_splits; blast)+

lemma resolve_fires:
  assumes w: "wait3_ok C n Rt w" and r: "r \<in> set (fire now f res w)" and calls: "\<forall>c \<in> C. call3_ok n R c"
    and res: "\<forall>d. res = Some d \<longrightarrow> Reply_Data f d \<in> K (fst (R ! f)) \<and> f < length R"
  shows "reply3_ok C n (insert f Rt) R K r"
proof (cases w)
  case (Wait_All cb fs)
  with r have fs: "r = DB_Done cb" "removeAll f fs = []" by (auto split: if_splits)
  then have "set fs \<subseteq> {f}" by (metis Diff_eq_empty_iff set_empty set_removeAll)
  moreover obtain k d a where "W_Call cb k d a \<in> C" "{a..<a + n} \<subseteq> set fs \<union> Rt" using w Wait_All by auto
  ultimately show ?thesis using fs(1) by (auto; blast)
next
  case (Wait_Read cb reqid t0 g)
  then obtain d where some: "res = Some d" using r by (cases res) auto
  with r Wait_Read have d: "f = g"
      "r = DB_Data cb \<lparr>db_request_id = reqid, db_leaf_latency = now - t0, db_io_latency = io_latency d,
        db_cpu_consumed = cpu_consumed d, db_data = leaf_data d\<rparr>"
    by (auto split: if_splits)
  moreover obtain fn sz where "R_Call cb reqid fn sz g \<in> C" using w Wait_Read by auto
  ultimately show ?thesis using res some by auto
qed

text \<open>Resolving future \<open>f\<close>, with an answer a leaf has given (\<open>Rt'\<close> is then \<open>f\<close> more) or as failed.\<close>

lemma resolve_inv:
  assumes inv: "sys3_inv {#} s"
    and t: "t = s\<lparr>db3 := resolve now f res (db3 s), returned := returned s @ A, failed3 := failed3 s @ B\<rparr>"
      "set (A @ B) = {f}"
    and res: "\<forall>d. res = Some d \<longrightarrow> Reply_Data f d \<in> given s (fst (requests_made (db3 s) ! f)) \<and>
      f < length (requests_made (db3 s))"
    and A: "\<forall>g \<in> set A. g < length (requests_made (db3 s)) \<and> g \<in> reply_cb ` given s (fst (requests_made (db3 s) ! g))"
  shows "sys3_inv {#} t"
proof -
  note I = sys3_invD [OF inv]
  let ?R = "requests_made (db3 s)" and ?d = "db3 s"
  have u: "leafs (db3 t) = leafs ?d" "curLeaf (db3 t) = curLeaf ?d" "requests_made (db3 t) = ?R"
    "leafs3 t = leafs3 s" "calls3 t = calls3 s" "undelivered t = undelivered s" "given t = given s"
    "settled t = insert f (settled s)" "db_ok (db3 t) = db_ok ?d" "returned t = returned s @ A"
    using t(2) by (auto simp: t(1) resolve_def given_def fun_eq_iff db_ok_def settled_def)
  have waits: "\<forall>w \<in> set (waiting (db3 t)). wait3_ok (set (calls3 s)) (length (leafs ?d)) (insert f (settled s)) w"
    using I(7) resolve_waits by (auto simp: t(1) resolve_def)
  have old: "reply3_ok (set (calls3 s)) (length (leafs ?d)) (insert f (settled s)) ?R (given s) x"
    if "x \<in> set (db_replies ?d)" for x
    using reply3_mono [of "set (calls3 s)" _ "settled s" ?R "given s" x "set (calls3 s)" "insert f (settled s)" "given s" "[]"]
      I(8) that by auto
  have new: "reply3_ok (set (calls3 s)) (length (leafs ?d)) (insert f (settled s)) ?R (given s) x"
    if "w \<in> set (waiting ?d)" "x \<in> set (fire now f res w)" for w x
    by (rule resolve_fires [where K = "given s" and w = w and f = f and res = res and now = now])
      (use I(5,7) that res in auto)
  have reps: "\<forall>x \<in> set (db_replies (db3 t)).
      reply3_ok (set (calls3 s)) (length (leafs ?d)) (insert f (settled s)) ?R (given s) x"
    using old new by (auto simp: t(1) resolve_def)
  have rets: "\<forall>g \<in> set (returned s @ A). g < length ?R \<and> g \<in> reply_cb ` given s (fst (?R ! g))"
    using I(9) A by auto
  show ?thesis
    by (rule sys3_invI; unfold u) (fact I(1-6) waits reps rets I(10))+
qed

lemma call_reaches_leaf_inv:
  assumes inv: "sys3_inv {#} s" and fresh: "address_fresh (Call_Reaches_Leaf j env) s"
    and st: "sys3_step (Call_Reaches_Leaf j env) s = Inr t"
  shows "sys3_inv {#} t"
proof (cases "j < length (undelivered s)")
  case True
  note I = sys3_invD [OF inv]
  let ?f = "undelivered s ! j" and ?R = "requests_made (db3 s)"
  let ?s = "s\<lparr>undelivered := take j (undelivered s) @ drop (Suc j) (undelivered s)\<rparr>"
  obtain i q where q: "?R ! ?f = (i, q)" by (cases "?R ! ?f")
  have "?f \<in># mset (undelivered s)" using True by simp
  then have "?f \<in># mset [0..<length ?R]" unfolding I(10) [symmetric] by simp
  then have f: "?f < length ?R" by simp
  then have i: "i < length (leafs3 s)" using I(3,4) q by (metis fst_conv nth_mem)
  have m: "mset (undelivered s) = add_mset ?f (mset (undelivered ?s))"
    using mset_take_nth [OF True, of "\<lambda>x. x"] by simp
  have c: "called (leaf_call env ?f q) = {#?f#}" "op_items (leaf_call env ?f q) = {(?f, is_write q)}"
    by (cases q; simp)+
  have t: "db3 ?s = db3 s" "leafs3 ?s = leafs3 s" "returned ?s = returned s" "calls3 ?s = calls3 s" "given ?s = given s"
    "settled ?s = settled s"
    by (simp_all add: given_def fun_eq_iff settled_def)
  have acc: "{#?f#} + mset (undelivered ?s) + sum_list (map accounted (leafs3 s)) = mset [0..<length ?R]"
    unfolding I(10) [symmetric] m by simp
  have "sys3_inv {#?f#} ?s" by (rule sys3_invI; unfold t) (fact I(1-9) acc)+
  then have inv': "sys3_inv (called (leaf_call env ?f q)) ?s" by (simp only: c)
  have fr: "fresh_op (leaf_call env ?f q) (leafs3 ?s ! i)" using fresh i by (cases q) simp_all
  have st': "leaf_does i (leaf_call env ?f q) ?s = Inr t" using st True q by (simp add: sys3_step_def Let_def)
  show ?thesis
    by (rule leaf_does_inv [OF inv' _ st' _ fr]) (use i c f q in \<open>simp_all add: item3_ok_def\<close>)
qed (use assms in \<open>simp add: sys3_step_def\<close>)

lemma client_writes_inv:
  assumes inv: "sys3_inv {#} s" and st: "sys3_step (Client_Writes cb k d) s = Inr t"
  shows "sys3_inv {#} t"
proof -
  note I = sys3_invD [OF inv]
  let ?a = "length (requests_made (db3 s))" and ?n = "length (leafs (db3 s))"
  let ?Q = "map (\<lambda>i. (i, Leaf_Write k d)) [0..<?n]" and ?w = "Wait_All cb [?a..<?a + ?n]"
  let ?d = "(db3 s)\<lparr>leafs := map connected_leaf (leafs (db3 s)), requests_made := requests_made (db3 s) @ ?Q,
    waiting := waiting (db3 s) @ [?w]\<rparr>"
  have t: "t = db_calls (W_Call cb k d ?a) ?d s"
    using st by (simp add: sys3_step_def db_write_eq [OF I(1)])
  show ?thesis
    unfolding t by (rule db_calls_inv [OF inv, of ?d ?Q ?w]) (use I(1,2) in \<open>auto simp: db_ok_def nth_append\<close>)
qed

lemma client_reads_inv:
  assumes inv: "sys3_inv {#} s" and st: "sys3_step (Client_Reads now cb reqid fn sz) s = Inr t"
  shows "sys3_inv {#} t"
proof -
  note I = sys3_invD [OF inv]
  let ?i = "(unat (curLeaf (db3 s)) + 1) mod length (leafs (db3 s))" and ?f = "length (requests_made (db3 s))"
  let ?d = "(db3 s)\<lparr>curLeaf := of_nat ?i, leafs := (leafs (db3 s))[?i := connected_leaf (leafs (db3 s) ! ?i)],
    requests_made := requests_made (db3 s) @ [(?i, Leaf_Read fn sz)],
    waiting := waiting (db3 s) @ [Wait_Read cb reqid now ?f]\<rparr>"
  have n: "0 < length (leafs (db3 s))" "length (leafs (db3 s)) < 4294967296" using I(1) by (simp_all add: db_ok_def)
  note idx = next_leaf_index(2) [OF n I(2)]
  have t: "t = db_calls (R_Call cb reqid fn sz ?f) ?d s"
    using st db_read_eq [OF I(1,2), of now cb reqid fn sz] by (auto simp: sys3_step_def)
  have "\<forall>l \<in> set ((leafs (db3 s))[?i := connected_leaf (leafs (db3 s) ! ?i)]). leaf_wf l"
    using I(1) by (auto simp: db_ok_def dest: in_set_update)
  then have ok: "db_ok ?d" using I(1) by (simp add: db_ok_def)
  show ?thesis
    unfolding t by (rule db_calls_inv [OF inv, of ?d "[(?i, Leaf_Read fn sz)]" "Wait_Read cb reqid now ?f"])
      (use n ok idx in \<open>simp_all add: nth_append\<close>)
qed

lemma connection_closed_inv:
  assumes inv: "sys3_inv {#} s" and st: "sys3_step (Connection_Closed i) s = Inr t"
  shows "sys3_inv {#} t"
proof -
  note I = sys3_invD [OF inv]
  let ?ls = "leafs (db3 s)"
  have t: "leafs (db3 t) = ?ls[i := channelClosed (?ls ! i)]" "curLeaf (db3 t) = curLeaf (db3 s)"
    "requests_made (db3 t) = requests_made (db3 s)" "waiting (db3 t) = waiting (db3 s)"
    "db_replies (db3 t) = db_replies (db3 s)" "leafs3 t = leafs3 s" "calls3 t = calls3 s"
    "undelivered t = undelivered s" "returned t = returned s" "given t = given s"
    "settled t = settled s"
    using st by (auto simp: sys3_step_def leaf_closed_def given_def fun_eq_iff settled_def)
  have ok: "db_ok (db3 t)"
    using I(1) leaf_wf_ops(3) [of "?ls ! i"] by (auto simp: db_ok_def t(1) dest: in_set_update)
  show ?thesis
    by (rule sys3_invI; (unfold t length_list_update)?) (fact ok I(2-10))+
qed

lemma leaf_returns_inv:
  assumes inv: "sys3_inv {#} s" and st: "sys3_step (Leaf_Returns i k now) s = Inr t"
  shows "sys3_inv {#} t"
proof (cases "i < length (leafs3 s) \<and> k < length (replies (leafs3 s ! i)) \<and>
    reply_cb (replies (leafs3 s ! i) ! k) \<notin> settled s")
  case True
  note I = sys3_invD [OF inv]
  let ?r = "replies (leafs3 s ! i) ! k" and ?R = "requests_made (db3 s)"
  have r: "?r \<in> given s i" using True by (simp add: given_def)
  then have "reply_item ?r \<in> leaf_items (leafs3 s ! i)" by (auto simp: leaf_items_def given_def)
  then have "item3_ok i ?R (reply_item ?r)" using I(3,6) True by simp
  then have f: "reply_cb ?r < length ?R" "fst (?R ! reply_cb ?r) = i" by (cases ?r; simp add: item3_ok_def)+
  have data: "?r = Reply_Data (reply_cb ?r) d" if "reply_result ?r = Some d" for d using that by (cases ?r) auto
  have "t = s\<lparr>db3 := resolve now (reply_cb ?r) (reply_result ?r) (db3 s), returned := returned s @ [reply_cb ?r],
      failed3 := failed3 s @ []\<rparr>"
    using st True by (auto simp: sys3_step_def Let_def)
  then show ?thesis
    by (rule resolve_inv [OF inv]) (use r f data in \<open>auto simp del: One_nat_def\<close>)
next
  case False
  then have "t = s" using st by (auto simp: sys3_step_def Let_def split: if_splits)
  with inv show ?thesis by simp
qed

lemma leaf_call_fails_inv:
  assumes inv: "sys3_inv {#} s" and st: "sys3_step (Leaf_Call_Fails f now) s = Inr t"
  shows "sys3_inv {#} t"
proof (cases "f < length (requests_made (db3 s)) \<and> f \<notin> settled s")
  case True
  then have "t = s\<lparr>db3 := resolve now f None (db3 s), returned := returned s @ [], failed3 := failed3 s @ [f]\<rparr>"
    using st by (simp add: sys3_step_def)
  then show ?thesis by (rule resolve_inv [OF inv]) simp_all
next
  case False
  then have "t = s" using st by (auto simp: sys3_step_def split: if_splits)
  with inv show ?thesis by simp
qed

lemma sys3_step_inv:
  assumes inv: "sys3_inv {#} s" and fresh: "address_fresh e s" and st: "sys3_step e s = Inr t"
  shows "sys3_inv {#} t"
proof -
  have loc: "sys3_inv {#} t"
    if "leaf_does i op s = Inr t" "called op = {#}" "op_items op = {}" "\<And>l. fresh_op op l" for i op
  proof (cases "i < length (leafs3 s)")
    case True
    show ?thesis by (rule leaf_does_inv [of op s i t]) (use that True inv in simp_all)
  qed (use that(1) inv in \<open>simp add: leaf_does_def\<close>)
  show ?thesis
  proof (cases e)
    case (Client_Writes cb k d)
    with client_writes_inv [OF inv] st show ?thesis by blast
  next
    case (Client_Reads now cb reqid fn sz)
    with client_reads_inv [OF inv] st show ?thesis by blast
  next
    case (Call_Reaches_Leaf j env)
    with call_reaches_leaf_inv [OF inv] fresh st show ?thesis by blast
  next
    case (Leaf_Returns i k now)
    with leaf_returns_inv [OF inv] st show ?thesis by blast
  next
    case (Connection_Closed i)
    with connection_closed_inv [OF inv] st show ?thesis by blast
  next
    case (Leaf_Call_Fails f now)
    with leaf_call_fails_inv [OF inv] st show ?thesis by blast
  next
    case (Leaf_Kernel i now ev)
    show ?thesis by (rule loc [of i "Kernel now ev"]) (use Leaf_Kernel st in \<open>simp_all add: sys3_step_def\<close>)
  next
    case (Leaf_Worker i k cpu)
    show ?thesis by (rule loc [of i "Worker k cpu"]) (use Leaf_Worker st in \<open>simp_all add: sys3_step_def\<close>)
  qed
qed


section \<open>What the system guarantees\<close>

definition fresh_leafs :: "'f leaf_state list \<Rightarrow> bool" where
  "fresh_leafs lfs \<longleftrightarrow> (\<forall>l \<in> set lfs. \<exists>path f. LeafHandler_new 0 path f = Inr l)"

lemma sys3_start_inv:
  assumes "addrs \<noteq> []" and "length addrs < 4294967296" and "length lfs = length addrs" and "fresh_leafs lfs"
  shows "sys3_inv {#} (sys3_start (map (\<lambda>(ip, port). Leaf_new ip port) addrs) lfs)"
proof -
  have new: "leaf_ok l \<and> accounted l = {#} \<and> leaf_items l = {}" if l: "l \<in> set lfs" for l
  proof -
    from l assms(4) obtain path f where n: "LeafHandler_new 0 path f = Inr l" by (auto simp: fresh_leafs_def)
    then have "leaf_items l = {}"
      by (auto simp: LeafHandler_new_def AsyncIO_new_def result_simps leaf_items_def)
    with LeafHandler_new_ok [OF n] show ?thesis by simp
  qed
  then have "sum_list (map accounted lfs) = {#}" by (induction lfs) auto
  then show ?thesis
    using assms(1-3) new
    by (intro sys3_invI) (auto simp: sys3_start_def DBHandler_new_def db_ok_def leaf_wf_ops)
qed

lemma sys3_reach_inv:
  assumes "sys3_reach s0 s" and "sys3_inv {#} s0"
  shows "sys3_inv {#} s"
  using assms(1)
proof (induction rule: sys3_reach.induct)
  case (step s e t)
  then show ?case by (blast intro: sys3_step_inv)
qed (rule assms(2))

lemma sys3_reach_from_start:
  assumes "addrs \<noteq> []" and "length addrs < 4294967296" and "length lfs = length addrs" and "fresh_leafs lfs"
    and "sys3_reach (sys3_start (map (\<lambda>(ip, port). Leaf_new ip port) addrs) lfs) s"
  shows "sys3_inv {#} s"
  by (rule sys3_reach_inv [OF assms(5) sys3_start_inv [OF assms(1-4)]])

text \<open>
  C17. Nothing is lost between the servers: in every reachable state of the database server and its leafs, each
  call the database server has made of a leaf is in exactly one place: on its way to the leaf, waiting there for its
  IO, queued for a worker, or answered by the leaf.
\<close>

theorem exp3_calls_accounted:
  assumes "addrs \<noteq> []" and "length addrs < 4294967296" and "length lfs = length addrs" and "fresh_leafs lfs"
    and "sys3_reach (sys3_start (map (\<lambda>(ip, port). Leaf_new ip port) addrs) lfs) s"
  shows "mset (undelivered s) + sum_list (map accounted (leafs3 s)) = mset [0..<length (requests_made (db3 s))]"
  using sys3_invD(10) [OF sys3_reach_from_start [OF assms]] by simp

text \<open>A write with all its futures resolved: each leaf has answered, or its call has failed.\<close>

lemma settled_write_answered:
  assumes inv: "sys3_inv {#} s" and w: "W_Call cb k d a \<in> set (calls3 s)" "{a..<a + length (leafs (db3 s))} \<subseteq> settled s"
  shows "\<forall>i < length (leafs (db3 s)). requests_made (db3 s) ! (a + i) = (i, Leaf_Write k d) \<and>
    (Reply_Done (a + i) \<in> set (replies (leafs3 s ! i)) \<or> a + i \<in> set (failed3 s))"
proof -
  note I = sys3_invD [OF inv]
  let ?n = "length (leafs (db3 s))" and ?R = "requests_made (db3 s)"
  have c: "?R ! (a + i) = (i, Leaf_Write k d)" if "i < ?n" for i
    using I(5) w(1) that by fastforce
  have "Reply_Done (a + i) \<in> set (replies (leafs3 s ! i))" if i: "i < ?n" and f: "a + i \<notin> set (failed3 s)" for i
  proof -
    have "a + i \<in> settled s" using w(2) i by auto
    then have "a + i \<in> set (returned s)" using f by (simp add: settled_def)
    then have "a + i \<in> reply_cb ` given s i" using I(9) c [OF i] by force
    then obtain r where r: "r \<in> set (replies (leafs3 s ! i))" "reply_cb r = a + i" by (auto simp: given_def)
    then have "item3_ok i ?R (reply_item r)" using I(6) i by (auto simp: leaf_items_def)
    with r(2) c [OF i] have "r = Reply_Done (a + i)" by (cases r) (auto simp: item3_ok_def)
    with r(1) show ?thesis by simp
  qed
  with c show ?thesis by blast
qed


text \<open>
  C16. What a client reads comes from a leaf: in every reachable state each answer to a read belongs to
  a client's read with that request identifier, and carries the data and the figures with which the leaf
  asked has answered the call made for it.
\<close>

theorem exp3_reads_from_leafs:
  assumes "addrs \<noteq> []" and "length addrs < 4294967296" and "length lfs = length addrs" and "fresh_leafs lfs"
    and "sys3_reach (sys3_start (map (\<lambda>(ip, port). Leaf_new ip port) addrs) lfs) s"
    and "DB_Data cb x \<in> set (db_replies (db3 s))"
  shows "\<exists>fn sz f d. R_Call cb (db_request_id x) fn sz f \<in> set (calls3 s) \<and>
    snd (requests_made (db3 s) ! f) = Leaf_Read fn sz \<and>
    Reply_Data f d \<in> set (replies (leafs3 s ! fst (requests_made (db3 s) ! f))) \<and>
    db_data x = leaf_data d \<and> db_io_latency x = io_latency d \<and> db_cpu_consumed x = cpu_consumed d"
proof -
  note I = sys3_invD [OF sys3_reach_from_start [OF assms(1-5)]]
  from I(8) assms(6) obtain fn sz f d where r: "R_Call cb (db_request_id x) fn sz f \<in> set (calls3 s)"
    "Reply_Data f d \<in> given s (fst (requests_made (db3 s) ! f))"
    "db_data x = leaf_data d" "db_io_latency x = io_latency d" "db_cpu_consumed x = cpu_consumed d"
    by fastforce
  moreover have "snd (requests_made (db3 s) ! f) = Leaf_Read fn sz" using I(5) r(1) by fastforce
  ultimately show ?thesis by (auto simp: given_def)
qed


section \<open>A run\<close>

fun fresh_events :: "'f event3 list \<Rightarrow> 'f sys3 \<Rightarrow> bool" where
  "fresh_events [] s = True"
| "fresh_events (e # es) s =
     (address_fresh e s \<and> (case sys3_step e s of Inl x \<Rightarrow> True | Inr t \<Rightarrow> fresh_events es t))"

lemma sys3_reach_run:
  "sys3_reach s0 s \<Longrightarrow> fresh_events es s \<Longrightarrow> foldE sys3_step es s = Inr t \<Longrightarrow> sys3_reach s0 t"
proof (induction es arbitrary: s)
  case (Cons e es)
  then obtain u where u: "sys3_step e s = Inr u" by (auto simp: result_simps)
  with Cons.prems have "sys3_reach s0 u" by (auto intro: sys3_reach.step)
  with Cons u show ?case by simp
qed simp

definition demo3 :: "(string \<Rightarrow> bytes option) event3 list" where
  "demo3 = [Client_Writes 5 ''f'' [1, 2], Call_Reaches_Leaf 0 (toy_env 100), Leaf_Kernel 0 6 (toy_event 100 2 [1, 2]),
     Leaf_Returns 0 0 9, Client_Reads 10 6 1 ''f'' 2, Call_Reaches_Leaf 0 (toy_env 200),
     Leaf_Kernel 0 20 (toy_event 200 0 [170, 170]), Leaf_Worker 0 0 3, Leaf_Returns 0 1 30]"

definition demo3_leaf :: "(string \<Rightarrow> bytes option) leaf_state" where
  "demo3_leaf = \<lparr>asyncio = \<lparr>capacity = 128, eventfd = 0, handler_registered = False, inflight = []\<rparr>,
     asyncio_inited = False, leaf_path = ''/mnt'', files = Map.empty, conts = [], tasks = [], replies = [],
     closed_fds = []\<rparr>"

lemma demo3_leafs: "fresh_leafs [demo3_leaf]"
  unfolding fresh_leafs_def demo3_leaf_def LeafHandler_new_def AsyncIO_new_def by fastforce

lemmas sys3_evals = sys3_step_def leaf_does_def db_calls_def db_write_def db_read_def ask_leaf_def getLeaf_def
  isConnected_def connect_def getConnection_def resolve_def DBHandler_new_def Leaf_new_def sys3_start_def
  settled_def
  leaf_evals

lemma demo3_run:
  "\<exists>s. foldE sys3_step demo3 (sys3_start [Leaf_new ''a'' 1] [demo3_leaf]) = Inr s \<and>
     fresh_events demo3 (sys3_start [Leaf_new ''a'' 1] [demo3_leaf]) \<and>
     db_replies (db3 s) = [DB_Done 5, DB_Data 6 \<lparr>db_request_id = 1, db_leaf_latency = 20, db_io_latency = 20,
       db_cpu_consumed = 3, db_data = [170, 170]\<rparr>] \<and> length (requests_made (db3 s)) = 2 \<and>
     length (leafs (db3 s)) = 1 \<and> failed3 s = []"
  by (auto simp: demo3_def demo3_leaf_def sys3_evals)


lemma demo3_reached:
  obtains s where "sys3_reach (sys3_start (map (\<lambda>(ip, port). Leaf_new ip port) [(''a'', 1)]) [demo3_leaf]) s"
    "DB_Done 5 \<in> set (db_replies (db3 s))"
    "DB_Data 6 \<lparr>db_request_id = 1, db_leaf_latency = 20, db_io_latency = 20, db_cpu_consumed = 3,
       db_data = [170, 170]\<rparr> \<in> set (db_replies (db3 s))"
    "length (requests_made (db3 s)) = 2" "length (leafs (db3 s)) = 1" "failed3 s = []"
  using demo3_run sys3_reach_run [OF sys3_reach.start, of demo3 "sys3_start [Leaf_new ''a'' 1] [demo3_leaf]"]
  by auto

theorem exp3_calls_accounted_witness:
  "\<exists>s. sys3_reach (sys3_start [Leaf_new ''a'' 1] [demo3_leaf]) s \<and> length (requests_made (db3 s)) = 2 \<and>
     mset (undelivered s) + sum_list (map accounted (leafs3 s)) = {#0, 1#}"
proof -
  obtain s where s: "sys3_reach (sys3_start (map (\<lambda>(ip, port). Leaf_new ip port) [(''a'', 1)]) [demo3_leaf]) s"
    "length (requests_made (db3 s)) = 2" by (rule demo3_reached)
  have "mset (undelivered s) + sum_list (map accounted (leafs3 s)) = mset [0..<length (requests_made (db3 s))]"
    by (rule exp3_calls_accounted [OF _ _ _ demo3_leafs s(1)]) simp_all
  moreover have "mset [0..<2] = {#0, 1#}" by (simp add: upt_rec)
  ultimately show ?thesis using s by auto
qed


theorem exp3_reads_from_leafs_witness:
  "\<exists>s fn sz f d. sys3_reach (sys3_start [Leaf_new ''a'' 1] [demo3_leaf]) s \<and> R_Call 6 1 fn sz f \<in> set (calls3 s) \<and>
     Reply_Data f d \<in> set (replies (leafs3 s ! fst (requests_made (db3 s) ! f))) \<and> leaf_data d = [170, 170]"
proof -
  let ?x = "\<lparr>db_request_id = 1, db_leaf_latency = 20, db_io_latency = 20, db_cpu_consumed = 3, db_data = [170, 170]\<rparr>"
  obtain s where s: "sys3_reach (sys3_start (map (\<lambda>(ip, port). Leaf_new ip port) [(''a'', 1)]) [demo3_leaf]) s"
    "DB_Data 6 ?x \<in> set (db_replies (db3 s))" by (rule demo3_reached)
  have "\<exists>fn sz f d. R_Call 6 (db_request_id ?x) fn sz f \<in> set (calls3 s) \<and>
    snd (requests_made (db3 s) ! f) = Leaf_Read fn sz \<and>
    Reply_Data f d \<in> set (replies (leafs3 s ! fst (requests_made (db3 s) ! f))) \<and>
    db_data ?x = leaf_data d \<and> db_io_latency ?x = io_latency d \<and> db_cpu_consumed ?x = cpu_consumed d"
    by (rule exp3_reads_from_leafs [OF _ _ _ demo3_leafs s(1) s(2)]) simp_all
  then obtain fn sz f d where "R_Call 6 1 fn sz f \<in> set (calls3 s)"
    "Reply_Data f d \<in> set (replies (leafs3 s ! fst (requests_made (db3 s) ! f)))" "leaf_data d = [170, 170]"
    by auto
  with s(1) show ?thesis by (intro exI [of _ s]) auto
qed

section \<open>Writes that fail\<close>

lemma fails_resolve:
  assumes "waiting (db3 s) = [Wait_All cb [j..<n]]" and "j < n" and "n \<le> length (requests_made (db3 s))"
    and "settled s \<subseteq> {..<j}"
  shows "\<exists>t. foldE sys3_step (map (\<lambda>f. Leaf_Call_Fails f now) [j..<n]) s = Inr t \<and>
    db_replies (db3 t) = db_replies (db3 s) @ [DB_Done cb] \<and> waiting (db3 t) = [] \<and>
    undelivered t = undelivered s \<and> leafs3 t = leafs3 s"
  using assms
proof (induction "n - j" arbitrary: j s)
  case (Suc m)
  let ?t = "s\<lparr>db3 := resolve now j None (db3 s), failed3 := failed3 s @ [j]\<rparr>"
  have "j \<notin> settled s" using Suc.prems(4) by auto
  then have st: "sys3_step (Leaf_Call_Fails j now) s = Inr ?t" using Suc.prems(2,3) by (simp add: sys3_step_def)
  have js: "[j..<n] = j # [Suc j..<n]" using Suc.prems(2) by (simp add: upt_conv_Cons)
  have rm: "removeAll j [Suc j..<n] = [Suc j..<n]" by (rule removeAll_id) simp
  show ?case
  proof (cases "Suc j < n")
    case True
    then have ne: "[Suc j..<n] \<noteq> []" by simp
    have t: "waiting (db3 ?t) = [Wait_All cb [Suc j..<n]]" "db_replies (db3 ?t) = db_replies (db3 s)"
      "undelivered ?t = undelivered s" "leafs3 ?t = leafs3 s" "length (requests_made (db3 ?t)) = length (requests_made (db3 s))"
      using Suc.prems(1) True rm by (simp_all add: resolve_def js)
    have "settled ?t \<subseteq> {..<Suc j}" using Suc.prems(4) by (auto simp: settled_def less_Suc_eq)
    moreover have "m = n - Suc j" using Suc.hyps(2) by simp
    ultimately obtain u where "foldE sys3_step (map (\<lambda>f. Leaf_Call_Fails f now) [Suc j..<n]) ?t = Inr u"
      "db_replies (db3 u) = db_replies (db3 ?t) @ [DB_Done cb]" "waiting (db3 u) = []"
      "undelivered u = undelivered ?t" "leafs3 u = leafs3 ?t"
      using Suc.hyps(1) [of "Suc j" ?t] t True Suc.prems(3) by auto
    then show ?thesis unfolding t(2-4) js list.map foldE.simps st bindE_simps by blast
  next
    case False
    then have "n = Suc j" using Suc.prems(2) by simp
    then show ?thesis using Suc.prems(1) st by (simp add: resolve_def)
  qed
qed simp



end
