(* ===== verification/BenchHandler.thy ===== *)
theory BenchHandler
  imports RpcServer Interleave
begin

text \<open>
  The handlers of the key-value experiments: \<open>BenchmarkHandler\<close> of
  \<open>fbthrift/exp1/GaneshaDBServer.cpp\<close> and of the two \<open>thrift\<close> servers (the same class but for the
  constructor), with its cached reply data, first as atomic calls, then with \<open>init_data\<close> in steps
  as the threaded servers of \<open>thrift/exp2\<close> interleave them; and the put of \<open>fbthrift/exp2\<close> through
  the database server and a leaf. Times are inputs; \<open>lim\<close> is the longest string that
  can be built.
\<close>

section \<open>Data and state\<close>

record BenchmarkData =
  bd_request_id :: u64
  bd_client_latency :: int
  bd_db_latency :: int
  bd_dict_latency :: int
  bd_leaf_latency :: int
  bd_io_latency :: int
  bd_bypass_dict :: bool
  bd_bypass_cpu :: bool
  bd_bypass_leaf :: bool
  bd_bypass_io :: bool
  bd_data :: bytes
  bd_data_size :: u64
  bd_empty_data_on_resp :: bool

definition BenchmarkData_new :: BenchmarkData where
  "BenchmarkData_new =
     \<lparr>bd_request_id = 0, bd_client_latency = 0, bd_db_latency = 0, bd_dict_latency = 0, bd_leaf_latency = 0,
      bd_io_latency = 0, bd_bypass_dict = False, bd_bypass_cpu = False, bd_bypass_leaf = False,
      bd_bypass_io = False, bd_data = [], bd_data_size = 0, bd_empty_data_on_resp = False\<rparr>"

text \<open>Everything but the data.\<close>

definition copy_benchmark_data :: "BenchmarkData \<Rightarrow> BenchmarkData \<Rightarrow> BenchmarkData" where
  "copy_benchmark_data dest src = src\<lparr>bd_data := bd_data dest\<rparr>"

record BenchmarkHandler =
  data_size :: u64
  cached :: bytes

text \<open>
  The constructor of \<open>fbthrift/exp1\<close> leaves \<open>data_size\<close> as it finds it (the argument); the
  \<open>thrift\<close> ones set it to 0.
\<close>

definition GaneshaHandler_new :: "u64 \<Rightarrow> BenchmarkHandler" where
  "GaneshaHandler_new garbage = \<lparr>data_size = garbage, cached = []\<rparr>"

definition ThriftHandler_new :: BenchmarkHandler where
  "ThriftHandler_new = \<lparr>data_size = 0, cached = []\<rparr>"

definition init_data :: "nat \<Rightarrow> u64 \<Rightarrow> BenchmarkHandler \<Rightarrow> (bytes \<times> BenchmarkHandler) result" where
  "init_data lim sz h =
     (if data_size h \<noteq> sz then
        if unat sz > lim then Inl Length_Error
        else let h = h\<lparr>cached := replicate (unat sz) 65\<rparr>; h = h\<lparr>data_size := sz\<rparr> in Inr (cached h, h)
      else Inr (cached h, h))"

definition key_put :: "int \<Rightarrow> BenchmarkData \<Rightarrow> BenchmarkData" where
  "key_put l bench =
     (let ret = copy_benchmark_data BenchmarkData_new bench;
          ret = ret\<lparr>bd_data := []\<rparr>;
          ret = ret\<lparr>bd_data_size := 0\<rparr> in
      ret\<lparr>bd_db_latency := l\<rparr>)"

definition key_get ::
  "nat \<Rightarrow> int \<Rightarrow> BenchmarkData \<Rightarrow> BenchmarkHandler \<Rightarrow> (BenchmarkData \<times> BenchmarkHandler) result" where
  "key_get lim l bench h =
     (let ret = copy_benchmark_data BenchmarkData_new bench in
      bindE (init_data lim (bd_data_size ret) h) (\<lambda>(d, h).
        Inr (ret\<lparr>bd_data := d, bd_db_latency := l\<rparr>, h)))"

section \<open>Calls one after another\<close>

datatype bench_call = Put int BenchmarkData | Get int BenchmarkData

text \<open>A call that raises leaves the handler as it was.\<close>

definition bench_serve :: "nat \<Rightarrow> bench_call \<Rightarrow> BenchmarkHandler \<Rightarrow> BenchmarkData result \<times> BenchmarkHandler" where
  "bench_serve lim c h =
     (case c of
        Put l b \<Rightarrow> (Inr (key_put l b), h)
      | Get l b \<Rightarrow> (case key_get lim l b h of Inl e \<Rightarrow> (Inl e, h) | Inr (r, h) \<Rightarrow> (Inr r, h)))"

fun bench_serve_all ::
  "nat \<Rightarrow> bench_call list \<Rightarrow> BenchmarkHandler \<Rightarrow> BenchmarkData result list \<times> BenchmarkHandler" where
  "bench_serve_all lim [] h = ([], h)"
| "bench_serve_all lim (c # cs) h =
     (case bench_serve lim c h of (r, h) \<Rightarrow> (case bench_serve_all lim cs h of (rs, h) \<Rightarrow> (r # rs, h)))"

text \<open>What a client may expect, without any cache.\<close>

fun bench_spec :: "nat \<Rightarrow> bench_call \<Rightarrow> BenchmarkData result" where
  "bench_spec lim (Put l b) = Inr (b\<lparr>bd_data := [], bd_data_size := 0, bd_db_latency := l\<rparr>)"
| "bench_spec lim (Get l b) =
     (if unat (bd_data_size b) > lim then Inl Length_Error
      else Inr (b\<lparr>bd_data := replicate (unat (bd_data_size b)) 65, bd_db_latency := l\<rparr>))"

definition cache_ok :: "nat \<Rightarrow> BenchmarkHandler \<Rightarrow> bool" where
  "cache_ok lim h \<longleftrightarrow> cached h = replicate (unat (data_size h)) 65 \<and> unat (data_size h) \<le> lim"

lemma bench_serve_spec:
  assumes "cache_ok lim h"
  shows "\<exists>h'. bench_serve lim c h = (bench_spec lim c, h') \<and> cache_ok lim h'"
proof (cases c)
  case (Put l b)
  with assms show ?thesis by (simp add: bench_serve_def key_put_def copy_benchmark_data_def)
next
  case (Get l b)
  with assms show ?thesis
    by (auto simp: bench_serve_def key_get_def init_data_def copy_benchmark_data_def BenchmarkData_new_def
        cache_ok_def Let_def)
qed

lemma bench_serve_all_spec:
  "cache_ok lim h \<Longrightarrow>
     \<exists>h'. bench_serve_all lim cs h = (map (bench_spec lim) cs, h') \<and> cache_ok lim h'"
proof (induction cs arbitrary: h)
  case (Cons c cs)
  from bench_serve_spec [OF Cons.prems, of c] obtain u where
    u: "bench_serve lim c h = (bench_spec lim c, u)" "cache_ok lim u" by blast
  from Cons.IH [OF u(2)] u(1) show ?case by auto
qed simp

text \<open>
  C31. The cache cannot be observed: a handler that starts with size 0 answers any sequence
  of puts and gets as a handler without a cache would, a get with the number of bytes
  it asks for, and sizes too long with an exception that changes nothing.
\<close>

theorem cache_transparent:
  "fst (bench_serve_all lim cs ThriftHandler_new) = map (bench_spec lim) cs"
proof -
  have "cache_ok lim ThriftHandler_new" by (simp add: cache_ok_def ThriftHandler_new_def)
  from bench_serve_all_spec [OF this, of cs] show ?thesis by auto
qed

text \<open>
  Without the initial 0 it can be: if the first size asked for is what happened to be in
  memory, the handler of \<open>fbthrift/exp1\<close> replies with no data but the size it was asked for.
\<close>

theorem garbage_size_observable:
  "fst (bench_serve lim (Get l b) (GaneshaHandler_new (bd_data_size b))) =
     Inr (b\<lparr>bd_data := [], bd_db_latency := l\<rparr>)"
  by (simp add: bench_serve_def key_get_def init_data_def copy_benchmark_data_def BenchmarkData_new_def
      GaneshaHandler_new_def)

text \<open>The handlers are services in the sense of the RPC interface.\<close>

interpretation bench_put: rpc_service "key_put l" bd_request_id bd_request_id
  by unfold_locales (simp add: key_put_def copy_benchmark_data_def Let_def)


section \<open>init_data in steps\<close>

text \<open>
  \<open>TThreadedServer\<close> and \<open>TThreadPoolServer\<close> run the one handler on many threads without a lock. Each
  thread executes the four steps of \<open>init_data\<close>: the test, the two assignments, the copy to
  its own reply. A step is atomic here; a real string assignment is not even that.
\<close>

datatype init_pc = Test | Set_Data | Set_Size | Copy | Returned bytes

type_synonym race = "(BenchmarkHandler, u64 \<times> init_pc) interleaving"    \<comment> \<open>with the size each thread asks for\<close>

definition init_step :: "u64 \<Rightarrow> init_pc \<Rightarrow> BenchmarkHandler \<Rightarrow> init_pc \<times> BenchmarkHandler" where
  "init_step sz pc h =
     (case pc of
        Test \<Rightarrow> (if data_size h \<noteq> sz then Set_Data else Copy, h)
      | Set_Data \<Rightarrow> (Set_Size, h\<lparr>cached := replicate (unat sz) 65\<rparr>)
      | Set_Size \<Rightarrow> (Copy, h\<lparr>data_size := sz\<rparr>)
      | Copy \<Rightarrow> (Returned (cached h), h)
      | Returned d \<Rightarrow> (Returned d, h))"

definition race_thread :: "u64 \<times> init_pc \<Rightarrow> BenchmarkHandler \<Rightarrow> (u64 \<times> init_pc) \<times> BenchmarkHandler" where
  "race_thread = (\<lambda>(sz, pc) h. case init_step sz pc h of (pc, h) \<Rightarrow> ((sz, pc), h))"

definition race_step :: "race \<Rightarrow> race \<Rightarrow> bool" where
  "race_step = thread_step race_thread"

definition race_start :: "BenchmarkHandler \<Rightarrow> u64 list \<Rightarrow> race" where
  "race_start h szs = \<lparr>shared = h, threads = map (\<lambda>sz. (sz, Test)) szs\<rparr>"

lemma run_race_steps:
  "\<forall>i \<in> set is. i < length (threads s) \<Longrightarrow> race_step\<^sup>*\<^sup>* s (run_schedule race_thread is s)"
  unfolding race_step_def by (rule run_schedule_steps)

lemma all_less_two: "(\<forall>i < 2. P i) \<longleftrightarrow> P 0 \<and> P (Suc 0)"
  by (auto simp: numeral_2_eq_2 less_Suc_eq)

text \<open>The steps of one thread run to the end are \<open>init_data\<close>.\<close>

definition init_run :: "u64 \<Rightarrow> BenchmarkHandler \<Rightarrow> init_pc \<times> BenchmarkHandler" where
  "init_run sz h = ((\<lambda>(pc, h). init_step sz pc h) ^^ 4) (Test, h)"

lemma init_run_eq: "init_run sz h =
    (case init_data (unat sz) sz h of Inr (d, h') \<Rightarrow> (Returned d, h') | Inl e \<Rightarrow> (Test, h))"
  by (simp add: init_run_def init_step_def init_data_def eval_nat_numeral Let_def)

text \<open>All threads asking for one size, which is what the benchmark's clients do.\<close>

fun pc_ok :: "bytes \<Rightarrow> bytes \<Rightarrow> init_pc \<Rightarrow> bool" where
  "pc_ok want c Set_Size = (c = want)"
| "pc_ok want c Copy = (c = want)"
| "pc_ok want c (Returned d) = (d = want)"
| "pc_ok want c _ = True"

lemma pc_ok_refresh: "pc_ok want c pc \<Longrightarrow> c' = c \<or> c' = want \<Longrightarrow> pc_ok want c' pc"
  by (cases pc) auto

definition size_matches :: "u64 \<Rightarrow> BenchmarkHandler \<Rightarrow> bool" where
  "size_matches n h \<longleftrightarrow> (data_size h = n \<longrightarrow> cached h = replicate (unat n) 65)"

definition asks_for :: "u64 \<Rightarrow> BenchmarkHandler \<Rightarrow> u64 \<times> init_pc \<Rightarrow> bool" where
  "asks_for n h = (\<lambda>(sz, pc). sz = n \<and> pc_ok (replicate (unat n) 65) (cached h) pc)"

lemma race_thread_keeps:
  assumes "size_matches n h" and "asks_for n h t" and "race_thread t h = (t', h')"
  shows "size_matches n h' \<and> asks_for n h' t' \<and> (cached h' = cached h \<or> cached h' = replicate (unat n) 65)"
proof -
  obtain sz pc where t: "t = (sz, pc)" by (cases t)
  from assms show ?thesis unfolding t
    by (cases pc) (auto simp: race_thread_def init_step_def size_matches_def asks_for_def split: if_splits)
qed

interpretation same_size: thread_local race_thread "size_matches n" "asks_for n"
proof unfold_locales
  fix h t t' h' q
  assume a: "size_matches n h" "asks_for n h t" "race_thread t h = (t', h')"
  show "size_matches n h' \<and> asks_for n h' t'" using race_thread_keeps [OF a] by simp
  assume "asks_for n h q"
  then show "asks_for n h' q"
    using race_thread_keeps [OF a] pc_ok_refresh [of _ "cached h" _ "cached h'"] by (auto simp: asks_for_def)
qed

text \<open>
  With one size for all the threads (which differs from the stale one, or the cache is right), every
  interleaving gives every thread the data it asked for.
\<close>

theorem same_size_safe:
  assumes "race_step\<^sup>*\<^sup>* (race_start h (replicate k n)) s"
    and "data_size h = n \<Longrightarrow> cached h = replicate (unat n) 65"
    and "(sz, Returned d) \<in> set (threads s)"
  shows "d = replicate (unat n) 65"
proof -
  have "size_matches n (shared s) \<and> (\<forall>t \<in> set (threads s). asks_for n (shared s) t)"
    by (rule same_size.reach_local [OF assms(1) [unfolded race_step_def]])
      (use assms(2) in \<open>auto simp: size_matches_def asks_for_def race_start_def\<close>)
  with assms(3) show ?thesis by (auto simp: asks_for_def)
qed

theorem same_size_safe_witness:
  "\<exists>s. race_step\<^sup>*\<^sup>* (race_start ThriftHandler_new (replicate 2 1)) s \<and> (1, Returned [65]) \<in> set (threads s)"
proof -
  let ?s = "run_schedule race_thread [0, 1, 0, 0, 1, 0] (race_start ThriftHandler_new (replicate 2 1))"
  have r: "race_step\<^sup>*\<^sup>* (race_start ThriftHandler_new (replicate 2 1)) ?s"
    by (rule run_race_steps) (simp add: race_start_def)
  have "\<exists>d. (1, Returned d) \<in> set (threads ?s)"
    by (simp add: race_start_def race_thread_def init_step_def ThriftHandler_new_def numeral_2_eq_2)
  then obtain d where d: "(1, Returned d) \<in> set (threads ?s)" by blast
  have "d = replicate (unat (1 :: u64)) 65"
    by (rule same_size_safe [OF r _ d]) (simp add: ThriftHandler_new_def)
  with r d show ?thesis by auto
qed

text \<open>
  C32. The race. Two threads that ask for different sizes can leave the handler with the size of one
  and the data of the other; from then on, with no further concurrency, every get of the first
  size is answered with data of the second size, until another size is asked for.
\<close>

theorem sizes_race:
  assumes "a \<noteq> b" and "data_size h \<noteq> a" and "data_size h \<noteq> b"
  shows "\<exists>s. race_step\<^sup>*\<^sup>* (race_start h [a, b]) s \<and>
    (\<forall>i < 2. \<exists>d. snd (threads s ! i) = Returned d) \<and>
    (\<forall>lim l bench. bd_data_size bench = a \<longrightarrow>
       bench_serve lim (Get l bench) (shared s) =
         (Inr (bench\<lparr>bd_data := replicate (unat b) 65, bd_db_latency := l\<rparr>), shared s))"
proof -
  let ?is = "[0, 1, 0, 1, 1, 0, 0, 1] :: nat list"
  let ?s = "run_schedule race_thread ?is (race_start h [a, b])"
  have "race_step\<^sup>*\<^sup>* (race_start h [a, b]) ?s"
    by (rule run_race_steps) (simp add: race_start_def)
  moreover have s: "?s = \<lparr>shared = \<lparr>data_size = a, cached = replicate (unat b) 65\<rparr>,
      threads = [(a, Returned (replicate (unat b) 65)), (b, Returned (replicate (unat b) 65))]\<rparr>"
    using assms by (cases h) (simp add: race_start_def race_thread_def init_step_def)
  ultimately show ?thesis
    by (intro exI [of _ ?s])
      (simp add: s all_less_two bench_serve_def key_get_def init_data_def copy_benchmark_data_def
        BenchmarkData_new_def)
qed

theorem sizes_race_witness:
  "\<exists>s. race_step\<^sup>*\<^sup>* (race_start ThriftHandler_new [4096, 1]) s \<and>
     fst (bench_serve 8192 (Get 5 (BenchmarkData_new\<lparr>bd_data_size := 4096\<rparr>)) (shared s)) =
       Inr (BenchmarkData_new\<lparr>bd_data_size := 4096, bd_data := [65], bd_db_latency := 5\<rparr>)"
proof -
  from sizes_race [of 4096 1 ThriftHandler_new] obtain s where
    "race_step\<^sup>*\<^sup>* (race_start ThriftHandler_new [4096, 1]) s"
    "\<And>lim l bench. bd_data_size bench = 4096 \<Longrightarrow> bench_serve lim (Get l bench) (shared s) =
         (Inr (bench\<lparr>bd_data := replicate (unat (1 :: u64)) 65, bd_db_latency := l\<rparr>), shared s)"
    by (auto simp: ThriftHandler_new_def)
  then show ?thesis by (intro exI [of _ s]) (simp add: BenchmarkData_new_def)
qed


section \<open>The put of fbthrift/exp2\<close>

record LeafData2 =
  l2_request_id :: u64
  l2_leaf_latency :: int
  l2_io_latency :: int
  l2_cpu_consumed :: int
  l2_data :: bytes
  l2_data_size :: u64

record DBData2 =
  d2_request_id :: u64
  d2_db_latency :: int
  d2_leaf_latency :: int
  d2_io_latency :: int
  d2_cpu_consumed :: int
  d2_data :: bytes
  d2_data_size :: u64

text \<open>
  The leaf: a worker burns \<open>cpu\<close>, the event thread replies after \<open>l\<close> with no data.
\<close>

definition leaf2_reply :: "int \<Rightarrow> int \<Rightarrow> u64 \<Rightarrow> LeafData2" where
  "leaf2_reply l cpu reqid =
     \<lparr>l2_request_id = reqid, l2_leaf_latency = l, l2_io_latency = 0, l2_cpu_consumed = cpu,
      l2_data = [], l2_data_size = 0\<rparr>"

definition leaf2_key_put :: "int \<Rightarrow> int \<Rightarrow> LeafData2 \<Rightarrow> LeafData2" where
  "leaf2_key_put l cpu ldb = leaf2_reply l cpu (l2_request_id ldb)"

text \<open>
  The database server passes identifier, data and size on (the source names the third target
  \<open>ldb\<close>, which is not declared; \<open>lbd\<close> is meant), and relays the leaf's answer.
\<close>

definition db2_to_leaf :: "DBData2 \<Rightarrow> LeafData2" where
  "db2_to_leaf bench =
     \<lparr>l2_request_id = d2_request_id bench, l2_leaf_latency = 0, l2_io_latency = 0, l2_cpu_consumed = 0,
      l2_data = d2_data bench, l2_data_size = d2_data_size bench\<rparr>"

definition db2_reply :: "int \<Rightarrow> DBData2 \<Rightarrow> LeafData2 \<Rightarrow> DBData2 result" where
  "db2_reply l bench r =
     assertE (l2_request_id r = d2_request_id bench)
       (Inr \<lparr>d2_request_id = l2_request_id r, d2_db_latency = l, d2_leaf_latency = l2_leaf_latency r,
             d2_io_latency = l2_io_latency r, d2_cpu_consumed = l2_cpu_consumed r, d2_data = [], d2_data_size = 0\<rparr>)"

interpretation leaf2: rpc_service "leaf2_key_put l cpu" l2_request_id l2_request_id
  by unfold_locales (simp add: leaf2_key_put_def leaf2_reply_def)

text \<open>
  A put through both servers of exp2: the identifier assertion of the database server holds for every
  answer of a leaf server, in whatever order a leaf answers, and the client gets its identifier
  back, no data, and the latencies the servers measured.
\<close>

theorem exp2_put_reply:
  assumes "mset answers = image_mset (leaf2_key_put ll cpu) (mset (map db2_to_leaf benches))"
    and "distinct (map d2_request_id benches)" and "bench \<in> set benches"
  shows "\<exists>!r. r \<in> set answers \<and> l2_request_id r = d2_request_id bench \<and>
    db2_reply dl bench r = Inr \<lparr>d2_request_id = d2_request_id bench, d2_db_latency = dl, d2_leaf_latency = ll,
      d2_io_latency = 0, d2_cpu_consumed = cpu, d2_data = [], d2_data_size = 0\<rparr>"
proof -
  have ids: "l2_request_id (db2_to_leaf b) = d2_request_id b" for b by (simp add: db2_to_leaf_def)
  have set: "set answers = leaf2_key_put ll cpu ` db2_to_leaf ` set benches"
    using arg_cong [OF assms(1), of set_mset] by simp
  let ?r = "leaf2_key_put ll cpu (db2_to_leaf bench)"
  show ?thesis
  proof (rule ex1I [of _ ?r])
    show "?r \<in> set answers \<and> l2_request_id ?r = d2_request_id bench \<and>
      db2_reply dl bench ?r = Inr \<lparr>d2_request_id = d2_request_id bench, d2_db_latency = dl, d2_leaf_latency = ll,
        d2_io_latency = 0, d2_cpu_consumed = cpu, d2_data = [], d2_data_size = 0\<rparr>"
      using assms(3) by (simp add: set leaf2.answers ids db2_reply_def) (simp add: leaf2_key_put_def leaf2_reply_def db2_to_leaf_def)
  next
    fix r assume r: "r \<in> set answers \<and> l2_request_id r = d2_request_id bench \<and>
      db2_reply dl bench r = Inr \<lparr>d2_request_id = d2_request_id bench, d2_db_latency = dl, d2_leaf_latency = ll,
        d2_io_latency = 0, d2_cpu_consumed = cpu, d2_data = [], d2_data_size = 0\<rparr>"
    then obtain b where b: "b \<in> set benches" "r = leaf2_key_put ll cpu (db2_to_leaf b)"
      by (auto simp: set)
    with r have "d2_request_id b = d2_request_id bench" by (simp add: leaf2.answers ids)
    with b assms(2,3) have "b = bench" by (auto simp: distinct_map inj_on_def)
    with b show "r = ?r" by simp
  qed
qed

definition put2 :: "u64 \<Rightarrow> DBData2" where
  "put2 i = \<lparr>d2_request_id = i, d2_db_latency = 0, d2_leaf_latency = 0, d2_io_latency = 0, d2_cpu_consumed = 0,
     d2_data = [65], d2_data_size = 1\<rparr>"

theorem exp2_put_reply_witness:
  "\<exists>!r. r \<in> set [leaf2_key_put 7 3 (db2_to_leaf (put2 2)), leaf2_key_put 7 3 (db2_to_leaf (put2 1))] \<and>
     l2_request_id r = 1 \<and>
     db2_reply 9 (put2 1) r = Inr \<lparr>d2_request_id = 1, d2_db_latency = 9, d2_leaf_latency = 7,
       d2_io_latency = 0, d2_cpu_consumed = 3, d2_data = [], d2_data_size = 0\<rparr>"
  using exp2_put_reply [of "[leaf2_key_put 7 3 (db2_to_leaf (put2 2)), leaf2_key_put 7 3 (db2_to_leaf (put2 1))]" 7 3
      "[put2 1, put2 2]" "put2 1" 9]
  by (simp add: put2_def add_mset_commute)

end
