(* ===== verification/BenchClient.thy ===== *)
theory BenchClient
  imports Window BenchHandler
begin

text \<open>
  The clients \<open>start_benchmark\<close> of \<open>fbthrift/exp1/client.cpp\<close>, \<open>exp2/DB/client.cpp\<close> and
  \<open>exp3/DB/client.cpp\<close>: one closed loop, in which only the call made and the check of the reply's data
  differ. Requests have increasing identifiers, a map holds the time each was sent, and the
  number to send next is bounded by the queue depth and by the requests still to
  complete. The rounds of the event loop and the clock are inputs.
\<close>

section \<open>State\<close>

record bench_sums =
  sum_client :: u64
  sum_db :: u64
  sum_leaf :: u64
  sum_io :: u64
  sum_cpu :: u64

record bench_state =
  req_complete :: u64
  req_tosend :: u64
  req_out :: u64
  req_sched :: u64
  req_id :: u64
  req_time :: "u64 \<Rightarrow> int option"
  wire :: "(u64 \<times> nat) list"    \<comment> \<open>calls made: identifier and loop index (the file name in exp3)\<close>
  sums :: bench_sums

record bench_reply =
  reply_id :: u64
  reply_length :: nat
  reply_db :: u64
  reply_leaf :: u64
  reply_io :: u64
  reply_cpu :: u64

definition bench_start :: "u32 \<Rightarrow> bench_state" where
  "bench_start queue_depth =
     \<lparr>req_complete = 0, req_tosend = ucast queue_depth, req_out = 0, req_sched = 0, req_id = 1,
      req_time = Map.empty, wire = [],
      sums = \<lparr>sum_client = 0, sum_db = 0, sum_leaf = 0, sum_io = 0, sum_cpu = 0\<rparr>\<rparr>"

definition send_request :: "int \<Rightarrow> nat \<Rightarrow> bench_state \<Rightarrow> bench_state" where
  "send_request now i s =
     (let s = s\<lparr>req_time := (req_time s)(req_id s \<mapsto> now)\<rparr>;
          s = s\<lparr>req_sched := req_sched s + 1\<rparr>;
          s = s\<lparr>wire := wire s @ [(req_id s, i)]\<rparr> in
      s\<lparr>req_out := req_out s + 1, req_id := req_id s + 1\<rparr>)"

text \<open>
  The continuation; \<open>data_ok\<close> is the client's check of the length of the data: none in
  exp1, empty in exp2, the requested size in exp3.
\<close>

definition receive_reply :: "(nat \<Rightarrow> bool) \<Rightarrow> int \<times> bench_reply \<Rightarrow> bench_state \<Rightarrow> bench_state result" where
  "receive_reply data_ok r s =
     (case r of (now, r) \<Rightarrow>
        assertE (data_ok (reply_length r))
          (case req_time s (reply_id r) of
             None \<Rightarrow> Inl Assert_Failed
           | Some t0 \<Rightarrow>
               let s = s\<lparr>req_time := (req_time s)(reply_id r := None)\<rparr>;
                   b = sums s;
                   s = s\<lparr>sums := \<lparr>sum_client = sum_client b + of_int (now - t0), sum_db = sum_db b + reply_db r,
                       sum_leaf = sum_leaf b + reply_leaf r, sum_io = sum_io b + reply_io r,
                       sum_cpu = sum_cpu b + reply_cpu r\<rparr>\<rparr> in
               Inr (s\<lparr>req_complete := req_complete s + 1, req_out := req_out s - 1\<rparr>)))"

definition next_tosend :: "u32 \<Rightarrow> u64 \<Rightarrow> bench_state \<Rightarrow> bench_state" where
  "next_tosend queue_depth nrequests s =
     (let s = s\<lparr>req_tosend := ucast queue_depth - req_out s\<rparr> in
      if req_tosend s + req_complete s > nrequests then
        if req_complete s < nrequests then s\<lparr>req_tosend := nrequests - req_complete s\<rparr>
        else s\<lparr>req_tosend := 0\<rparr>
      else s)"

record bench_input =
  send_clock :: "nat \<Rightarrow> int"
  arrivals :: "(int \<times> bench_reply) list"

definition bench_body :: "(nat \<Rightarrow> bool) \<Rightarrow> u32 \<Rightarrow> u64 \<Rightarrow> bench_input \<Rightarrow> bench_state \<Rightarrow> bench_state result" where
  "bench_body data_ok queue_depth nrequests inp s =
     bindE (for_int (unat (req_tosend s)) 0 (\<lambda>i s. Inr (send_request (send_clock inp i) i s)) s) (\<lambda>s.
       bindE (foldE (receive_reply data_ok) (arrivals inp) s) (\<lambda>s.
         Inr (next_tosend queue_depth nrequests s)))"

fun bench_loop ::
  "(nat \<Rightarrow> bool) \<Rightarrow> u32 \<Rightarrow> u64 \<Rightarrow> bench_input list \<Rightarrow> bench_state \<Rightarrow> bench_state result" where
  "bench_loop data_ok queue_depth nrequests [] s = Inr s"
| "bench_loop data_ok queue_depth nrequests (inp # inps) s =
     (if req_complete s < nrequests then
        bindE (bench_body data_ok queue_depth nrequests inp s) (bench_loop data_ok queue_depth nrequests inps)
      else Inr s)"

definition start_benchmark_exp1 :: "u32 \<Rightarrow> u32 \<Rightarrow> u64 \<Rightarrow> bench_input list \<Rightarrow> bench_state result" where
  "start_benchmark_exp1 req_size queue_depth nrequests inps =
     bench_loop (\<lambda>n. True) queue_depth nrequests inps (bench_start queue_depth)"

definition start_benchmark_exp2 :: "u32 \<Rightarrow> u32 \<Rightarrow> u64 \<Rightarrow> bench_input list \<Rightarrow> bench_state result" where
  "start_benchmark_exp2 req_size queue_depth nrequests inps =
     bench_loop (\<lambda>n. n = 0) queue_depth nrequests inps (bench_start queue_depth)"

text \<open>exp3 first writes its files, named by their number.\<close>

definition laydown_files :: "u64 \<Rightarrow> u32 \<Rightarrow> (nat \<times> bytes) list result" where
  "laydown_files nfiles filesize =
     for_int (unat nfiles) 0 (\<lambda>i fs. Inr (fs @ [(i, replicate (unat filesize) 65)])) []"

definition start_benchmark_exp3 ::
  "u32 \<Rightarrow> u32 \<Rightarrow> u64 \<Rightarrow> bench_input list \<Rightarrow> ((nat \<times> bytes) list \<times> bench_state) result" where
  "start_benchmark_exp3 req_size queue_depth nrequests inps =
     bindE (laydown_files nrequests req_size) (\<lambda>files.
       bindE (bench_loop (\<lambda>n. n = unat req_size) queue_depth nrequests inps (bench_start queue_depth)) (\<lambda>s.
         Inr (files, s)))"

interpretation bench: request_window req_sched req_out req_complete
  "\<lambda>s t. \<exists>now i. t = send_request now i s" "\<lambda>s t. \<exists>ok r. receive_reply ok r s = Inr t"
proof
  fix s t assume "\<exists>now i. t = send_request now i s"
  then show "req_sched t = req_sched s + 1 \<and> req_out t = req_out s + 1 \<and> req_complete t = req_complete s"
    by (auto simp: send_request_def Let_def)
next
  fix s t assume "\<exists>ok r. receive_reply ok r s = Inr t"
  then show "req_sched t = req_sched s \<and> req_out t = req_out s - 1 \<and> req_complete t = req_complete s + 1"
    by (auto simp: receive_reply_def Let_def result_simps split: prod.splits option.splits)
qed


section \<open>Invariant\<close>

definition bench_ok :: "u32 \<Rightarrow> u64 \<Rightarrow> bool" where
  "bench_ok queue_depth nrequests \<longleftrightarrow>
     1 \<le> unat queue_depth \<and> unat queue_depth \<le> 2147483647 \<and> unat nrequests < 9223372036854775808"

definition in_time :: "bench_state \<Rightarrow> u64 set" where
  "in_time s = dom (req_time s)"

text \<open>Identifiers: the calls were numbered 1, 2, ..., and those outstanding are in the map.\<close>

definition bench_ids :: "bench_state \<Rightarrow> bool" where
  "bench_ids s \<longleftrightarrow>
     map fst (wire s) = map (\<lambda>i. of_nat (Suc i)) [0..<unat (req_sched s)] \<and>
     req_id s = req_sched s + 1 \<and>
     finite (in_time s) \<and> card (in_time s) = unat (req_out s) \<and>
     (\<forall>i \<in> in_time s. 1 \<le> unat i \<and> unat i \<le> unat (req_sched s))"

definition bench_counts :: "u32 \<Rightarrow> u64 \<Rightarrow> bench_state \<Rightarrow> bool" where
  "bench_counts qd n s \<longleftrightarrow>
     unat (req_sched s) = unat (req_complete s) + unat (req_out s) \<and>
     unat (req_out s) + unat (req_tosend s) \<le> unat qd \<and>
     (unat (req_complete s) < unat n \<longrightarrow>
        unat (req_sched s) < unat n + unat qd \<and>
        (unat (req_tosend s) + unat (req_complete s) \<le> unat n \<or> req_sched s = 0) \<and>
        1 \<le> unat (req_out s) + unat (req_tosend s)) \<and>
     unat (req_sched s) \<le> unat n + unat qd"

definition bench_inv :: "u32 \<Rightarrow> u64 \<Rightarrow> bench_state \<Rightarrow> bool" where
  "bench_inv qd n s \<longleftrightarrow> bench_ids s \<and> bench_counts qd n s"

lemma bench_inv_start: "bench_ok qd n \<Longrightarrow> bench_inv qd n (bench_start qd)"
  by (auto simp: bench_inv_def bench_ids_def bench_counts_def bench_start_def in_time_def bench_ok_def)

section \<open>Sending\<close>

text \<open>The requests of a round as a fold.\<close>

definition send_batch :: "(nat \<Rightarrow> int) \<Rightarrow> nat \<Rightarrow> bench_state \<Rightarrow> bench_state" where
  "send_batch clk k s = fold (\<lambda>i. send_request (clk i) i) [0..<k] s"

lemma send_batch_Suc: "send_batch clk (Suc k) s = send_request (clk k) k (send_batch clk k s)"
  by (simp add: send_batch_def)

lemma send_loop_batch:
  "k \<le> 2147483647 \<Longrightarrow> for_int k 0 (\<lambda>i s. Inr (send_request (clk i) i s)) s = Inr (send_batch clk k s)"
  by (simp add: for_int_foldE send_batch_def foldE_pure)

lemma send_request_ids:
  assumes "bench_ids s" and "unat (req_sched s) < 18446744073709551615" and "unat (req_out s) \<le> unat (req_sched s)"
  shows "bench_ids (send_request now i s)"
proof -
  have sched: "unat (req_sched s + 1) = Suc (unat (req_sched s))"
    using unat_add_u64 [of "req_sched s" 1] assms(2) by simp
  have out: "unat (req_out s + 1) = Suc (unat (req_out s))"
    using unat_add_u64 [of "req_out s" 1] assms(2,3) by simp
  have id: "req_id s = req_sched s + 1" using assms(1) by (simp add: bench_ids_def)
  have fresh: "req_sched s + 1 \<notin> in_time s"
    using assms(1) sched by (auto simp: bench_ids_def)
  have frame: "in_time (send_request now i s) = insert (req_sched s + 1) (in_time s)"
    "req_sched (send_request now i s) = req_sched s + 1" "req_out (send_request now i s) = req_out s + 1"
    "req_id (send_request now i s) = req_sched s + 1 + 1"
    "wire (send_request now i s) = wire s @ [(req_sched s + 1, i)]"
    by (simp_all add: send_request_def in_time_def id Let_def)
  have w: "of_nat (Suc (unat (req_sched s))) = req_sched s + 1" by (simp add: add.commute)
  show ?thesis
    unfolding bench_ids_def frame sched out
  proof (intro conjI)
    show "map fst (wire s @ [(req_sched s + 1, i)]) = map (\<lambda>i. of_nat (Suc i)) [0..<Suc (unat (req_sched s))]"
      using assms(1) w by (simp add: bench_ids_def del: of_nat_Suc)
    show "card (insert (req_sched s + 1) (in_time s)) = Suc (unat (req_out s))"
      using assms(1) fresh by (simp add: bench_ids_def)
    show "\<forall>j \<in> insert (req_sched s + 1) (in_time s). 1 \<le> unat j \<and> unat j \<le> Suc (unat (req_sched s))"
      using assms(1) sched by (auto simp: bench_ids_def)
  qed (use assms(1) in \<open>simp_all add: bench_ids_def\<close>)
qed

lemma send_batch_frame:
  "req_sched (send_batch clk k s) = req_sched s + of_nat k \<and>
   req_out (send_batch clk k s) = req_out s + of_nat k \<and>
   req_complete (send_batch clk k s) = req_complete s \<and> req_tosend (send_batch clk k s) = req_tosend s \<and>
   map snd (wire (send_batch clk k s)) = map snd (wire s) @ [0..<k]"
  by (induction k) (simp_all add: send_batch_Suc send_request_def Let_def, simp_all add: send_batch_def)

lemma send_batch_ids:
  assumes "bench_ids s" and "unat (req_out s) \<le> unat (req_sched s)"
  shows "unat (req_sched s) + k < 18446744073709551616 \<Longrightarrow> bench_ids (send_batch clk k s)"
proof (induction k)
  case (Suc k)
  let ?t = "send_batch clk k s"
  have eq: "unat (req_sched ?t) = unat (req_sched s) + k" "unat (req_out ?t) = unat (req_out s) + k"
    using send_batch_frame [of clk k s] unat_add_of_nat [of "req_sched s" k] unat_add_of_nat [of "req_out s" k]
      Suc.prems assms(2) by simp_all
  show ?case
    unfolding send_batch_Suc
    by (rule send_request_ids) (use Suc eq assms(2) in simp_all)
qed (use assms in \<open>simp add: send_batch_def\<close>)


section \<open>Receiving\<close>

text \<open>The server answers requests that are out, each once, with data the client accepts.\<close>

definition answers_out :: "(nat \<Rightarrow> bool) \<Rightarrow> (int \<times> bench_reply) list \<Rightarrow> bench_state \<Rightarrow> bool" where
  "answers_out data_ok rs s \<longleftrightarrow>
     distinct (map (\<lambda>r. reply_id (snd r)) rs) \<and> (\<forall>r \<in> set rs. reply_id (snd r) \<in> in_time s) \<and>
     (\<forall>r \<in> set rs. data_ok (reply_length (snd r)))"

lemma receive_reply_ok:
  assumes "data_ok (reply_length (snd r))" and "reply_id (snd r) \<in> in_time s"
  shows "\<exists>t. receive_reply data_ok r s = Inr t \<and> in_time t = in_time s - {reply_id (snd r)} \<and>
    req_sched t = req_sched s \<and> req_id t = req_id s \<and> wire t = wire s \<and> req_tosend t = req_tosend s \<and>
    req_out t = req_out s - 1 \<and> req_complete t = req_complete s + 1"
  using assms by (cases r) (auto simp: receive_reply_def in_time_def Let_def)

lemma receive_all_ok:
  "answers_out data_ok rs s \<Longrightarrow>
     \<exists>t. foldE (receive_reply data_ok) rs s = Inr t \<and>
       in_time t = in_time s - (\<lambda>r. reply_id (snd r)) ` set rs \<and>
       req_sched t = req_sched s \<and> req_id t = req_id s \<and> wire t = wire s \<and> req_tosend t = req_tosend s \<and>
       req_out t = req_out s - of_nat (length rs) \<and> req_complete t = req_complete s + of_nat (length rs)"
proof (induction rs arbitrary: s)
  case (Cons r rs)
  then have "data_ok (reply_length (snd r))" "reply_id (snd r) \<in> in_time s"
    by (simp_all add: answers_out_def)
  from receive_reply_ok [of data_ok r s, OF this] obtain u where
    u: "receive_reply data_ok r s = Inr u" "in_time u = in_time s - {reply_id (snd r)}"
      "req_sched u = req_sched s" "req_id u = req_id s" "wire u = wire s" "req_tosend u = req_tosend s"
      "req_out u = req_out s - 1" "req_complete u = req_complete s + 1"
    by auto
  have "answers_out data_ok rs u"
    using Cons.prems u(2) by (auto simp: answers_out_def image_iff)
  from Cons.IH [OF this] u show ?case by (auto simp: algebra_simps)
qed simp

lemma answers_bound:
  assumes "bench_ids s" and "answers_out data_ok rs s"
  shows "length rs \<le> unat (req_out s)"
proof -
  have "length rs = card (set (map (\<lambda>r. reply_id (snd r)) rs))"
    using assms(2) by (metis answers_out_def distinct_card length_map)
  also have "\<dots> \<le> card (in_time s)"
    by (rule card_mono) (use assms in \<open>auto simp: bench_ids_def answers_out_def\<close>)
  finally show ?thesis using assms(1) by (simp add: bench_ids_def)
qed

lemma receive_all_ids:
  assumes ids: "bench_ids s" and a: "answers_out data_ok rs s"
    and t: "in_time t = in_time s - (\<lambda>r. reply_id (snd r)) ` set rs"
      "req_sched t = req_sched s" "req_id t = req_id s" "wire t = wire s"
      "req_out t = req_out s - of_nat (length rs)"
  shows "bench_ids t"
proof -
  have len: "length rs \<le> unat (req_out s)" by (rule answers_bound [OF ids a])
  have sub: "(\<lambda>r. reply_id (snd r)) ` set rs \<subseteq> in_time s" using a by (auto simp: answers_out_def)
  have "card ((\<lambda>r. reply_id (snd r)) ` set rs) = length rs"
    using a by (metis answers_out_def distinct_card length_map list.set_map)
  then have "card (in_time t) = unat (req_out s) - length rs"
    using ids sub unfolding t(1) by (simp add: bench_ids_def card_Diff_subset finite_subset)
  also have "\<dots> = unat (req_out t)" using len by (simp add: t(5) unat_sub_of_nat)
  finally show ?thesis using ids by (auto simp: bench_ids_def t(1-4))
qed

section \<open>One round\<close>

lemma next_tosend_frame:
  "in_time (next_tosend qd n s) = in_time s \<and> req_sched (next_tosend qd n s) = req_sched s \<and>
   req_id (next_tosend qd n s) = req_id s \<and> wire (next_tosend qd n s) = wire s \<and>
   req_out (next_tosend qd n s) = req_out s \<and> req_complete (next_tosend qd n s) = req_complete s"
  by (simp add: next_tosend_def in_time_def Let_def)

lemma next_tosend_value:
  assumes "unat (req_out s) \<le> unat qd" and "unat (req_complete s) + unat qd < 18446744073709551616"
  shows "unat (req_tosend (next_tosend qd n s)) =
    (if unat qd - unat (req_out s) + unat (req_complete s) > unat n
     then unat n - unat (req_complete s) else unat qd - unat (req_out s))"
proof -
  have d: "unat (ucast qd - req_out s) = unat qd - unat (req_out s)"
    using unat_sub [of "req_out s" "ucast qd"] assms(1) by (simp add: word_le_nat_alt)
  have sum: "unat (ucast qd - req_out s + req_complete s) = unat qd - unat (req_out s) + unat (req_complete s)"
    using unat_add_u64 [of "ucast qd - req_out s" "req_complete s"] d assms by simp
  have "unat (n - req_complete s) = unat n - unat (req_complete s)" if "req_complete s < n"
    using that unat_sub [of "req_complete s" n] by (simp add: word_le_nat_alt word_less_nat_alt)
  then show ?thesis
    using d sum by (auto simp: next_tosend_def Let_def word_less_nat_alt)
qed

lemma bench_body_ok:
  assumes ok: "bench_ok qd n" and inv: "bench_inv qd n s" and g: "req_complete s < n"
    and env: "answers_out data_ok (arrivals inp) (send_batch (send_clock inp) (unat (req_tosend s)) s)"
  shows "\<exists>t. bench_body data_ok qd n inp s = Inr t \<and> bench_inv qd n t \<and>
    unat (req_complete t) = unat (req_complete s) + length (arrivals inp)"
proof -
  let ?k = "unat (req_tosend s)" and ?m = "length (arrivals inp)"
  let ?b = "send_batch (send_clock inp) ?k s"
  have c: "bench_counts qd n s" and ids: "bench_ids s" using inv by (simp_all add: bench_inv_def)
  have k: "?k \<le> 2147483647" using c ok by (simp add: bench_counts_def bench_ok_def)
  have oc: "unat (req_out s) \<le> unat (req_sched s)" using c by (simp add: bench_counts_def)
  have g': "unat (req_complete s) < unat n" using g by (simp add: word_less_nat_alt)
  have small: "unat (req_sched s) + ?k < 18446744073709551616"
    using c ok by (simp add: bench_counts_def bench_ok_def)
  note fb = send_batch_frame [of "send_clock inp" ?k s]
  have bids: "bench_ids ?b" by (rule send_batch_ids [OF ids oc small])
  have bs: "unat (req_sched ?b) = unat (req_sched s) + ?k" "unat (req_out ?b) = unat (req_out s) + ?k"
    "req_complete ?b = req_complete s"
    using fb unat_add_of_nat [of "req_sched s" ?k] unat_add_of_nat [of "req_out s" ?k] small oc by simp_all
  have m: "?m \<le> unat (req_out s) + ?k" using answers_bound [OF bids env] bs(2) by simp
  from receive_all_ok [OF env] obtain u where u:
    "foldE (receive_reply data_ok) (arrivals inp) ?b = Inr u"
    "in_time u = in_time ?b - (\<lambda>r. reply_id (snd r)) ` set (arrivals inp)"
    "req_sched u = req_sched ?b" "req_id u = req_id ?b" "wire u = wire ?b"
    "req_out u = req_out ?b - of_nat ?m" "req_complete u = req_complete ?b + of_nat ?m"
    by auto
  have uids: "bench_ids u" by (rule receive_all_ids [OF bids env u(2-6)])
  have us: "unat (req_out u) = unat (req_out s) + ?k - ?m"
    "unat (req_complete u) = unat (req_complete s) + ?m"
    using u(6,7) m bs unat_sub_of_nat [of ?m "req_out ?b"] unat_add_of_nat [of "req_complete s" ?m]
      c small by (simp_all add: bench_counts_def)
  let ?t = "next_tosend qd n u"
  note nf = next_tosend_frame [of qd n u]
  have win: "unat (req_out s) + ?k \<le> unat qd" and low: "unat (req_complete s) + unat (req_out s) \<le> unat n + unat qd"
    and lim: "unat qd \<le> 2147483647" "unat n < 9223372036854775808"
    using c ok by (simp_all add: bench_counts_def bench_ok_def)
  have tv: "unat (req_tosend ?t) = (if unat qd - unat (req_out u) + unat (req_complete u) > unat n
     then unat n - unat (req_complete u) else unat qd - unat (req_out u))"
    by (rule next_tosend_value) (use us(1,2) win low lim m in linarith)+
  have "bench_counts qd n ?t"
    unfolding bench_counts_def
    using nf tv us bs u(3) c g' ok m
    by (simp add: bench_counts_def bench_ok_def; linarith)
  moreover have "bench_ids ?t" using uids nf by (simp add: bench_ids_def)
  moreover have "bench_body data_ok qd n inp s = Inr ?t"
    by (simp add: bench_body_def send_loop_batch [OF k] u(1))
  ultimately show ?thesis using nf us(2) by (simp add: bench_inv_def)
qed


section \<open>Whole runs\<close>

fun bench_env ::
  "(nat \<Rightarrow> bool) \<Rightarrow> u32 \<Rightarrow> u64 \<Rightarrow> bench_input list \<Rightarrow> bench_state \<Rightarrow> bool" where
  "bench_env data_ok qd n [] s = True"
| "bench_env data_ok qd n (inp # inps) s =
     (req_complete s < n \<longrightarrow>
        answers_out data_ok (arrivals inp) (send_batch (send_clock inp) (unat (req_tosend s)) s) \<and>
        (case bench_body data_ok qd n inp s of Inl e \<Rightarrow> True | Inr t \<Rightarrow> bench_env data_ok qd n inps t))"

lemma bench_loop_ok:
  assumes ok: "bench_ok qd n"
  shows "bench_inv qd n s \<Longrightarrow> bench_env data_ok qd n inps s \<Longrightarrow>
    \<exists>t. bench_loop data_ok qd n inps s = Inr t \<and> bench_inv qd n t \<and>
      (n \<le> req_complete t \<or>
       unat (req_complete t) = unat (req_complete s) + sum_list (map (\<lambda>i. length (arrivals i)) inps))"
proof (induction inps arbitrary: s)
  case (Cons inp inps)
  show ?case
  proof (cases "req_complete s < n")
    case True
    then have "answers_out data_ok (arrivals inp) (send_batch (send_clock inp) (unat (req_tosend s)) s)"
      using Cons.prems(2) by simp
    from bench_body_ok [OF ok Cons.prems(1) True this] obtain u where
      u: "bench_body data_ok qd n inp s = Inr u" "bench_inv qd n u"
        "unat (req_complete u) = unat (req_complete s) + length (arrivals inp)" by blast
    have "bench_env data_ok qd n inps u" using Cons.prems(2) True u(1) by simp
    from Cons.IH [OF u(2) this] u True show ?thesis by (auto simp: add.assoc)
  next
    case False
    with Cons.prems show ?thesis by (auto simp: not_less)
  qed
qed simp

lemma bench_run_ok:
  assumes "bench_ok qd n" and "bench_env data_ok qd n inps (bench_start qd)"
  shows "\<exists>t. bench_loop data_ok qd n inps (bench_start qd) = Inr t \<and> bench_inv qd n t \<and>
    (n \<le> req_complete t \<or> unat (req_complete t) = sum_list (map (\<lambda>i. length (arrivals i)) inps))"
  using bench_loop_ok [OF assms(1) bench_inv_start [OF assms(1)] assms(2)] by (simp add: bench_start_def)


definition answer :: "u64 \<Rightarrow> nat \<Rightarrow> bench_reply" where
  "answer i len = \<lparr>reply_id = i, reply_length = len, reply_db = 1, reply_leaf = 1, reply_io = 1, reply_cpu = 1\<rparr>"

definition demo_inputs :: "nat \<Rightarrow> bench_input list" where
  "demo_inputs len =
     [\<lparr>send_clock = (\<lambda>i. int i), arrivals = [(10, answer 2 len)]\<rparr>,
      \<lparr>send_clock = (\<lambda>i. 20), arrivals = [(30, answer 3 len)]\<rparr>]"

lemma send_batch_small [simp]:
  "send_batch clk 0 s = s"
  "send_batch clk 1 s = send_request (clk 0) 0 s"
  "send_batch clk (Suc 0) s = send_request (clk 0) 0 s"
  "send_batch clk 2 s = send_request (clk 1) 1 (send_request (clk 0) 0 s)"
  by (simp_all add: send_batch_def upt_conv_Cons numeral_2_eq_2)

lemmas bench_evals = bench_start_def demo_inputs_def answer_def bench_body_def send_request_def
  receive_reply_def next_tosend_def answers_out_def in_time_def Let_def for_int.simps

text \<open>Two requests wanted, depth 2: the third is sent while one of the first two is still out.\<close>

lemma demo_env: "bench_env (\<lambda>k. k = len) 2 2 (demo_inputs len) (bench_start 2)"
  by (simp add: bench_evals)



text \<open>
  The run ends as soon as as many answers have arrived as requests were asked for, in whatever
  rounds; and it never waits in vain: as long as it goes on, it sends something or has a
  request outstanding.
\<close>

theorem put_benchmark_ends:
  assumes "bench_ok qd n" and "bench_env (\<lambda>k. k = 0) qd n inps (bench_start qd)"
  shows "\<exists>t. start_benchmark_exp2 sz qd n inps = Inr t \<and>
    (unat n \<le> sum_list (map (\<lambda>i. length (arrivals i)) inps) \<longrightarrow> n \<le> req_complete t) \<and>
    (req_complete t < n \<longrightarrow> req_out t \<noteq> 0 \<or> req_tosend t \<noteq> 0)"
proof -
  obtain t where t: "start_benchmark_exp2 sz qd n inps = Inr t" "bench_counts qd n t"
    "n \<le> req_complete t \<or> unat (req_complete t) = sum_list (map (\<lambda>i. length (arrivals i)) inps)"
    using bench_run_ok [OF assms] by (auto simp: start_benchmark_exp2_def bench_inv_def)
  have "req_out t \<noteq> 0 \<or> req_tosend t \<noteq> 0" if "req_complete t < n"
    using t(2) that by (auto simp: bench_counts_def word_less_nat_alt)
  with t show ?thesis by (auto simp: word_le_nat_alt)
qed

theorem put_benchmark_ends_witness:
  "\<exists>t. start_benchmark_exp2 1 2 2 (demo_inputs 0) = Inr t \<and> 2 \<le> req_complete t"
proof -
  have ok: "bench_ok 2 2" by (simp add: bench_ok_def)
  from put_benchmark_ends [OF ok demo_env, of 1] show ?thesis by (auto simp: demo_inputs_def)
qed

lemma bench_loop_induct:
  assumes ok: "bench_ok qd n"
    and step: "\<And>s inp t. bench_inv qd n s \<Longrightarrow> P s \<Longrightarrow> bench_body data_ok qd n inp s = Inr t \<Longrightarrow> P t"
  shows "bench_inv qd n s \<Longrightarrow> bench_env data_ok qd n inps s \<Longrightarrow> P s \<Longrightarrow>
    bench_loop data_ok qd n inps s = Inr t \<Longrightarrow> P t"
proof (induction inps arbitrary: s)
  case (Cons inp inps)
  show ?case
  proof (cases "req_complete s < n")
    case True
    then have "answers_out data_ok (arrivals inp) (send_batch (send_clock inp) (unat (req_tosend s)) s)"
      using Cons.prems(2) by simp
    from bench_body_ok [OF ok Cons.prems(1) True this] obtain u where
      u: "bench_body data_ok qd n inp s = Inr u" "bench_inv qd n u" by blast
    have "bench_env data_ok qd n inps u" using Cons.prems(2) True u(1) by simp
    from Cons.IH [OF u(2) this step [OF Cons.prems(1,3) u(1)]] Cons.prems(4) True u(1)
    show ?thesis by simp
  qed (use Cons.prems in simp)
qed simp

lemma receives_wire: "foldE (receive_reply data_ok) rs s = Inr t \<Longrightarrow> wire t = wire s"
  by (induction rs arbitrary: s)
    (auto simp: receive_reply_def result_simps Let_def split: prod.splits option.splits)

lemma bench_body_wire:
  assumes "bench_ok qd n" and "bench_inv qd n s" and "bench_body data_ok qd n inp s = Inr t"
  shows "map snd (wire t) = map snd (wire s) @ [0..<unat (req_tosend s)] \<and> unat (req_tosend s) \<le> unat qd"
proof -
  have k: "unat (req_tosend s) \<le> unat qd" using assms(2) by (simp add: bench_inv_def bench_counts_def)
  then have "unat (req_tosend s) \<le> 2147483647" using assms(1) by (simp add: bench_ok_def)
  from assms(3) obtain u where u: "foldE (receive_reply data_ok) (arrivals inp)
      (send_batch (send_clock inp) (unat (req_tosend s)) s) = Inr u" "t = next_tosend qd n u"
    by (auto simp: bench_body_def send_loop_batch [OF \<open>unat (req_tosend s) \<le> 2147483647\<close>] result_simps)
  from receives_wire [OF u(1)] u(2) next_tosend_frame [of qd n u] send_batch_frame k
  show ?thesis by simp
qed

lemma foldE_snoc: "foldE (\<lambda>i fs. Inr (fs @ [g i])) xs acc = Inr (acc @ map g xs)"
  by (induction xs arbitrary: acc) simp_all

lemma laydown_files_eq:
  "unat n \<le> 2147483647 \<Longrightarrow> laydown_files n sz = Inr (map (\<lambda>i. (i, replicate (unat sz) 65)) [0..<unat n])"
  by (simp add: laydown_files_def for_int_foldE foldE_snoc)

text \<open>
  The read benchmark of exp3 reads files it has written: with a depth of at most the number
  of requests, every read names one of the files laid down. (With a larger depth the first batch
  names files that do not exist.)
\<close>

theorem read_benchmark_files:
  assumes "bench_ok qd n" and "unat n \<le> 2147483647" and "unat qd \<le> unat n"
    and "bench_env (\<lambda>k. k = unat sz) qd n inps (bench_start qd)"
  shows "\<exists>files t. start_benchmark_exp3 sz qd n inps = Inr (files, t) \<and>
    (\<forall>(i, f) \<in> set (wire t). (f, replicate (unat sz) 65) \<in> set files)"
proof -
  obtain t where t: "bench_loop (\<lambda>k. k = unat sz) qd n inps (bench_start qd) = Inr t"
    using bench_run_ok [OF assms(1,4)] by blast
  have "\<forall>f \<in> set (map snd (wire t)). f < unat qd"
  proof (rule bench_loop_induct [OF assms(1) _ bench_inv_start [OF assms(1)] assms(4) _ t])
    show "\<forall>f \<in> set (map snd (wire u)). f < unat qd"
      if "bench_inv qd n s" "\<forall>f \<in> set (map snd (wire s)). f < unat qd"
        "bench_body (\<lambda>k. k = unat sz) qd n inp s = Inr u" for s inp u
      using bench_body_wire [OF assms(1) that(1,3)] that(2) by (metis (no_types, lifting) Un_iff
          atLeastLessThan_iff order_less_le_trans set_append set_upt)
  qed (simp add: bench_start_def)
  then have "\<forall>(i, f) \<in> set (wire t). f < unat n" using assms(3) by force
  then show ?thesis
    using t by (auto simp: start_benchmark_exp3_def laydown_files_eq [OF assms(2)])
qed

theorem read_benchmark_files_witness:
  "\<exists>files t. start_benchmark_exp3 1 2 2 (demo_inputs 1) = Inr (files, t) \<and>
     (\<forall>(i, f) \<in> set (wire t). (f, [65]) \<in> set files)"
proof -
  have ok: "bench_ok 2 2" by (simp add: bench_ok_def)
  have env: "bench_env (\<lambda>k. k = unat (1 :: u32)) 2 2 (demo_inputs 1) (bench_start 2)"
    using demo_env [of 1] by simp
  from read_benchmark_files [OF ok _ _ env] show ?thesis by simp
qed

end
