(* ===== verification/BenchReport.thy ===== *)
theory BenchReport
  imports BenchClient
begin

text \<open>
  The \<open>main\<close> functions of the fbthrift clients (\<open>exp1/client.cpp\<close>, \<open>exp2/DB/client.cpp\<close>,
  \<open>exp3/DB/client.cpp\<close>): the configurations they measure, the threads of one configuration, and the line
  they print for it. Each thread runs its own benchmark and fills its own element of an array, so a
  configuration's run is a list of runs. The lines are computed in 64-bit unsigned arithmetic with
  integer division; what is shown is that in the configurations of \<open>main\<close> nothing wraps.
\<close>

section \<open>Configurations\<close>

definition nthreads :: "u32 list" where
  "nthreads = [1, 10, 100, 1000]"

definition queue_depths :: "u32 list" where
  "queue_depths = [1, 2, 16, 32, 64, 256, 512, 1024]"

definition req_sizes :: "u32 list" where
  "req_sizes = [4096]"

definition MaxRequests_exp1 :: u64 where
  "MaxRequests_exp1 = 100000"

definition MaxRequests_exp2 :: u64 where
  "MaxRequests_exp2 = 1000"

definition MaxRequests_exp3 :: u64 where
  "MaxRequests_exp3 = 2048"

definition bench_configs :: "(u32 \<times> u32 \<times> u32) list" where
  "bench_configs =
     concat (map (\<lambda>nt. concat (map (\<lambda>qd. map (\<lambda>sz. (nt, qd, sz)) req_sizes) queue_depths)) nthreads)"

section \<open>Threads and totals\<close>

text \<open>The threads are joined in the order of the array; \<open>start\<close> is a thread's benchmark.\<close>

definition run_threads :: "('i \<Rightarrow> bench_state result) \<Rightarrow> 'i list \<Rightarrow> bench_sums list result" where
  "run_threads start runs = foldE (\<lambda>inps bs. bindE (start inps) (\<lambda>t. Inr (bs @ [sums t]))) runs []"

definition no_sums :: bench_sums where
  "no_sums = \<lparr>sum_client = 0, sum_db = 0, sum_leaf = 0, sum_io = 0, sum_cpu = 0\<rparr>"

definition add_sums :: "bench_sums \<Rightarrow> bench_sums \<Rightarrow> bench_sums" where
  "add_sums b tot =
     \<lparr>sum_client = sum_client tot + sum_client b, sum_db = sum_db tot + sum_db b,
      sum_leaf = sum_leaf tot + sum_leaf b, sum_io = sum_io tot + sum_io b, sum_cpu = sum_cpu tot + sum_cpu b\<rparr>"

definition report_totals :: "bench_sums list \<Rightarrow> bench_sums" where
  "report_totals bs = fold add_sums bs no_sums"

section \<open>The lines printed\<close>

record read_row =
  row_threads :: u32
  row_size :: u32
  row_qdepth :: u32
  row_requests :: u64
  row_run_time :: int
  row_total :: u64
  row_db :: u64
  row_leaf :: u64
  row_io :: u64
  row_cpu :: u64
  row_db_leaf :: u64        \<comment> \<open>db - leaf\<close>
  row_rest :: u64           \<comment> \<open>leaf - io - cpu\<close>

record put_row = read_row +
  row_client :: u64
  row_client_db :: u64      \<comment> \<open>client - db\<close>

text \<open>The client of exp3 calls its own measurement \<open>db_latency\<close>; replies carry no figure of the database server.\<close>

definition report_exp3 :: "u32 \<Rightarrow> u32 \<Rightarrow> u32 \<Rightarrow> int \<Rightarrow> bench_sums list \<Rightarrow> read_row result" where
  "report_exp3 nt qd sz d bs =
     (let s = report_totals bs; nr = MaxRequests_exp3 * ucast nt in
      if nr = 0 then Inl Div_By_Zero
      else
        let db = sum_client s div nr; leaf = sum_leaf s div nr; io = sum_io s div nr; cpu = sum_cpu s div nr in
        Inr \<lparr>row_threads = nt, row_size = sz, row_qdepth = qd, row_requests = MaxRequests_exp3,
             row_run_time = d, row_total = nr, row_db = db, row_leaf = leaf, row_io = io, row_cpu = cpu,
             row_db_leaf = db - leaf, row_rest = leaf - io - cpu\<rparr>)"

definition report_exp2 :: "u32 \<Rightarrow> u32 \<Rightarrow> u32 \<Rightarrow> int \<Rightarrow> bench_sums list \<Rightarrow> put_row result" where
  "report_exp2 nt qd sz d bs =
     (let s = report_totals bs; nr = MaxRequests_exp2 * ucast nt in
      if nr = 0 then Inl Div_By_Zero
      else
        let client = sum_client s div nr; db = sum_db s div nr; leaf = sum_leaf s div nr;
            io = sum_io s div nr; cpu = sum_cpu s div nr in
        Inr \<lparr>row_threads = nt, row_size = sz, row_qdepth = qd, row_requests = MaxRequests_exp2,
             row_run_time = d, row_total = nr, row_db = db, row_leaf = leaf, row_io = io, row_cpu = cpu,
             row_db_leaf = db - leaf, row_rest = leaf - io - cpu, row_client = client, row_client_db = client - db\<rparr>)"

text \<open>exp1 prints times only: per request of one thread, all requests, and per request of all threads.\<close>

definition report_exp1 :: "u32 \<Rightarrow> int \<Rightarrow> (u64 \<times> u64 \<times> u64) result" where
  "report_exp1 nt d =
     (if MaxRequests_exp1 * ucast nt = 0 then Inl Div_By_Zero
      else Inr (of_int d div MaxRequests_exp1, MaxRequests_exp1 * ucast nt, of_int d div (MaxRequests_exp1 * ucast nt)))"

definition main_exp1 :: "u32 \<Rightarrow> u32 \<Rightarrow> u32 \<Rightarrow> int \<Rightarrow> bench_input list list \<Rightarrow> (u64 \<times> u64 \<times> u64) result" where
  "main_exp1 nt qd sz d runs =
     bindE (run_threads (start_benchmark_exp1 sz qd MaxRequests_exp1) runs) (\<lambda>bs. report_exp1 nt d)"

definition main_exp2 :: "u32 \<Rightarrow> u32 \<Rightarrow> u32 \<Rightarrow> int \<Rightarrow> bench_input list list \<Rightarrow> put_row result" where
  "main_exp2 nt qd sz d runs =
     bindE (run_threads (start_benchmark_exp2 sz qd MaxRequests_exp2) runs) (report_exp2 nt qd sz d)"

definition main_exp3 :: "u32 \<Rightarrow> u32 \<Rightarrow> u32 \<Rightarrow> int \<Rightarrow> bench_input list list \<Rightarrow> read_row result" where
  "main_exp3 nt qd sz d runs =
     bindE (run_threads (\<lambda>inps. bindE (start_benchmark_exp3 sz qd MaxRequests_exp3 inps) (\<lambda>(files, t). Inr t)) runs)
       (report_exp3 nt qd sz d)"

section \<open>The sums of one thread\<close>

text \<open>
  A reply is timed sensibly if its figures lie within each other, the whole within what the client
  measures from sending to receiving, and that within \<open>B\<close> nanoseconds.
\<close>

definition timed :: "nat \<Rightarrow> int \<times> bench_reply \<Rightarrow> int \<Rightarrow> bool" where
  "timed B r t0 \<longleftrightarrow>
     unat (reply_io (snd r)) + unat (reply_cpu (snd r)) \<le> unat (reply_leaf (snd r)) \<and>
     reply_leaf (snd r) \<le> reply_db (snd r) \<and>
     int (unat (reply_db (snd r))) \<le> fst r - t0 \<and> fst r - t0 \<le> int B"

definition all_timed :: "nat \<Rightarrow> (int \<times> bench_reply) list \<Rightarrow> bench_state \<Rightarrow> bool" where
  "all_timed B rs s \<longleftrightarrow> (\<forall>r \<in> set rs. \<forall>t0. req_time s (reply_id (snd r)) = Some t0 \<longrightarrow> timed B r t0)"

definition sums_ok :: "nat \<Rightarrow> nat \<Rightarrow> bench_sums \<Rightarrow> bool" where
  "sums_ok B k b \<longleftrightarrow>
     unat (sum_io b) + unat (sum_cpu b) \<le> unat (sum_leaf b) \<and> sum_leaf b \<le> sum_db b \<and>
     sum_db b \<le> sum_client b \<and> unat (sum_client b) \<le> B * k"

lemma unat_of_int_u64: "0 \<le> x \<Longrightarrow> x < 18446744073709551616 \<Longrightarrow> unat (of_int x :: u64) = nat x"
  by (simp add: unat_eq_nat_uint uint_word_of_int_eq take_bit_int_eq_self)

text \<open>Adding figures that fit.\<close>

lemma sums_ok_add:
  assumes s: "sums_ok B k b" and r: "timed B (now, r) t0" and fit: "B * Suc k < 18446744073709551616"
  shows "sums_ok B (Suc k) \<lparr>sum_client = sum_client b + of_int (now - t0), sum_db = sum_db b + reply_db r,
           sum_leaf = sum_leaf b + reply_leaf r, sum_io = sum_io b + reply_io r, sum_cpu = sum_cpu b + reply_cpu r\<rparr>"
proof -
  have pos: "0 \<le> now - t0"
    using r order_trans [of 0 "int (unat (reply_db r))" "now - t0"] by (simp add: timed_def)
  have d: "unat (of_int (now - t0) :: u64) = nat (now - t0)"
    by (rule unat_of_int_u64) (use pos r fit in \<open>auto simp: timed_def\<close>)
  have db: "unat (reply_db r) \<le> nat (now - t0)" and lim: "nat (now - t0) \<le> B"
    using r pos by (simp_all add: timed_def le_nat_iff nat_le_iff del: of_nat_unat)
  have n: "unat (sum_io b) + unat (sum_cpu b) \<le> unat (sum_leaf b)" "unat (sum_leaf b) \<le> unat (sum_db b)"
    "unat (sum_db b) \<le> unat (sum_client b)" "unat (sum_client b) \<le> B * k"
    using s by (simp_all add: sums_ok_def word_le_nat_alt)
  have m: "unat (reply_io r) + unat (reply_cpu r) \<le> unat (reply_leaf r)" "unat (reply_leaf r) \<le> unat (reply_db r)"
    using r by (simp_all add: timed_def word_le_nat_alt)
  have top: "unat (sum_client b) + nat (now - t0) < 18446744073709551616"
    using n(4) lim fit by simp
  have e: "unat (sum_client b + of_int (now - t0)) = unat (sum_client b) + nat (now - t0)"
    "unat (sum_db b + reply_db r) = unat (sum_db b) + unat (reply_db r)"
    "unat (sum_leaf b + reply_leaf r) = unat (sum_leaf b) + unat (reply_leaf r)"
    "unat (sum_io b + reply_io r) = unat (sum_io b) + unat (reply_io r)"
    "unat (sum_cpu b + reply_cpu r) = unat (sum_cpu b) + unat (reply_cpu r)"
    using n m db top d by (simp_all add: unat_add_u64 del: of_int_diff)
  have "unat (sum_client b) + nat (now - t0) \<le> B * Suc k"
    using n(4) lim by simp
  then show ?thesis
    unfolding sums_ok_def word_le_nat_alt bench_sums.simps e using n m db by linarith
qed

lemma send_batch_sums: "sums (send_batch clk k s) = sums s"
  by (induction k) (simp_all add: send_batch_Suc send_request_def Let_def send_batch_def [of clk 0])

lemma receive_timed:
  assumes "B * N < 18446744073709551616" and "N < 18446744073709551616"
  shows "answers_out data_ok rs s \<Longrightarrow> all_timed B rs s \<Longrightarrow> sums_ok B (unat (req_complete s)) (sums s) \<Longrightarrow>
    unat (req_complete s) + length rs \<le> N \<Longrightarrow> foldE (receive_reply data_ok) rs s = Inr t \<Longrightarrow>
    sums_ok B (unat (req_complete t)) (sums t)"
proof (induction rs arbitrary: s)
  case (Cons r rs)
  obtain now d where r: "r = (now, d)" by (cases r)
  from Cons.prems(1) have out: "reply_id d \<in> in_time s" "data_ok (reply_length d)"
    by (simp_all add: answers_out_def r)
  then obtain t0 where t0: "req_time s (reply_id d) = Some t0" by (auto simp: in_time_def)
  obtain u where u: "receive_reply data_ok r s = Inr u" and rest: "foldE (receive_reply data_ok) rs u = Inr t"
    using Cons.prems(5) by (auto simp: result_simps)
  have frame: "req_time u = (req_time s)(reply_id d := None)" "req_complete u = req_complete s + 1"
    "sums u = \<lparr>sum_client = sum_client (sums s) + of_int (now - t0), sum_db = sum_db (sums s) + reply_db d,
       sum_leaf = sum_leaf (sums s) + reply_leaf d, sum_io = sum_io (sums s) + reply_io d,
       sum_cpu = sum_cpu (sums s) + reply_cpu d\<rparr>"
    using u out t0 by (auto simp: receive_reply_def r Let_def simp del: of_int_diff)
  have c: "unat (req_complete u) = Suc (unat (req_complete s))"
    using unat_add_u64 [of "req_complete s" 1] Cons.prems(4) assms(2) by (simp add: frame(2))
  have t: "timed B (now, d) t0" using Cons.prems(2) t0 by (simp add: all_timed_def r)
  have "Suc (unat (req_complete s)) \<le> N" using Cons.prems(4) by simp
  then have fit: "B * Suc (unat (req_complete s)) < 18446744073709551616"
    using assms(1) mult_le_mono2 order_le_less_trans by blast
  have "sums_ok B (unat (req_complete u)) (sums u)"
    unfolding c frame(3) by (rule sums_ok_add [OF Cons.prems(3) t fit])
  moreover have "answers_out data_ok rs u"
    using Cons.prems(1) by (auto simp: answers_out_def r in_time_def frame(1) image_iff)
  moreover have "all_timed B rs u"
    using Cons.prems(2) by (auto simp: all_timed_def frame(1) split: if_splits)
  ultimately show ?case using Cons.IH [OF _ _ _ _ rest] Cons.prems(4) c by simp
qed simp

lemma bench_body_sums:
  assumes ok: "bench_ok qd n" and inv: "bench_inv qd n s" and g: "req_complete s < n"
    and env: "answers_out data_ok (arrivals inp) (send_batch (send_clock inp) (unat (req_tosend s)) s)"
    and times: "all_timed B (arrivals inp) (send_batch (send_clock inp) (unat (req_tosend s)) s)"
    and sums: "sums_ok B (unat (req_complete s)) (sums s)"
    and fit: "B * (unat n + unat qd) < 18446744073709551616"
    and t: "bench_body data_ok qd n inp s = Inr t"
  shows "sums_ok B (unat (req_complete t)) (sums t)"
proof -
  let ?b = "send_batch (send_clock inp) (unat (req_tosend s)) s"
  have k: "unat (req_tosend s) \<le> 2147483647"
    using inv ok by (simp add: bench_inv_def bench_counts_def bench_ok_def)
  from t obtain u where u: "foldE (receive_reply data_ok) (arrivals inp) ?b = Inr u" "t = next_tosend qd n u"
    by (auto simp: bench_body_def send_loop_batch [OF k] result_simps)
  note b = send_batch_frame [of "send_clock inp" "unat (req_tosend s)" s]
  have "unat (req_complete t) = unat (req_complete s) + length (arrivals inp)" "bench_inv qd n t"
    using bench_body_ok [OF ok inv g env] t by auto
  then have room: "unat (req_complete ?b) + length (arrivals inp) \<le> unat n + unat qd"
    using b by (simp add: bench_inv_def bench_counts_def)
  have small: "unat n + unat qd < 18446744073709551616" using ok by (simp add: bench_ok_def)
  have start: "sums_ok B (unat (req_complete ?b)) (sums ?b)" using sums b by (simp only: send_batch_sums)
  have "sums_ok B (unat (req_complete u)) (sums u)"
    by (rule receive_timed [OF fit small env times start room u(1)])
  then show ?thesis using next_tosend_frame [of qd n u] by (simp add: u(2) next_tosend_def Let_def)
qed

text \<open>The environment of a whole run, in the shape of \<open>bench_env\<close>.\<close>

fun timed_env ::
  "nat \<Rightarrow> (nat \<Rightarrow> bool) \<Rightarrow> u32 \<Rightarrow> u64 \<Rightarrow> bench_input list \<Rightarrow> bench_state \<Rightarrow> bool" where
  "timed_env B data_ok qd n [] s = True"
| "timed_env B data_ok qd n (inp # inps) s =
     (req_complete s < n \<longrightarrow>
        all_timed B (arrivals inp) (send_batch (send_clock inp) (unat (req_tosend s)) s) \<and>
        (case bench_body data_ok qd n inp s of Inl e \<Rightarrow> True | Inr t \<Rightarrow> timed_env B data_ok qd n inps t))"

lemma bench_loop_sums:
  assumes ok: "bench_ok qd n" and fit: "B * (unat n + unat qd) < 18446744073709551616"
  shows "bench_inv qd n s \<Longrightarrow> bench_env data_ok qd n inps s \<Longrightarrow> timed_env B data_ok qd n inps s \<Longrightarrow>
    sums_ok B (unat (req_complete s)) (sums s) \<Longrightarrow> bench_loop data_ok qd n inps s = Inr t \<Longrightarrow>
    sums_ok B (unat (req_complete t)) (sums t)"
proof (induction inps arbitrary: s)
  case (Cons inp inps)
  show ?case
  proof (cases "req_complete s < n")
    case True
    then have a: "answers_out data_ok (arrivals inp) (send_batch (send_clock inp) (unat (req_tosend s)) s)"
      and b: "all_timed B (arrivals inp) (send_batch (send_clock inp) (unat (req_tosend s)) s)"
      using Cons.prems(2,3) by simp_all
    from bench_body_ok [OF ok Cons.prems(1) True a] obtain u where
      u: "bench_body data_ok qd n inp s = Inr u" "bench_inv qd n u" by blast
    have "bench_env data_ok qd n inps u" "timed_env B data_ok qd n inps u"
      using Cons.prems(2,3) True u(1) by simp_all
    from Cons.IH [OF u(2) this bench_body_sums [OF ok Cons.prems(1) True a b Cons.prems(4) fit u(1)]]
      Cons.prems(5) True u(1)
    show ?thesis by simp
  qed (use Cons.prems in simp)
qed simp

section \<open>The totals of all threads\<close>

lemma unat_sum_list_u64:
  "sum_list (map unat xs) < 18446744073709551616 \<Longrightarrow> unat (sum_list xs :: u64) = sum_list (map unat xs)"
  by (induction xs) (simp_all add: unat_add_u64)

text \<open>A field of the totals is the sum of the threads' fields.\<close>

lemma report_totals_field:
  assumes "f no_sums = 0" and "\<And>b tot. f (add_sums b tot) = f tot + f b"
  shows "f (report_totals bs) = sum_list (map f bs)"
proof -
  have "f (fold add_sums bs acc) = f acc + sum_list (map f bs)" for acc
    by (induction bs arbitrary: acc) (simp_all add: assms(2) add.assoc)
  then show ?thesis by (simp add: report_totals_def assms(1))
qed

lemma report_totals_fields:
  "sum_client (report_totals bs) = sum_list (map sum_client bs)"
  "sum_db (report_totals bs) = sum_list (map sum_db bs)"
  "sum_leaf (report_totals bs) = sum_list (map sum_leaf bs)"
  "sum_io (report_totals bs) = sum_list (map sum_io bs)"
  "sum_cpu (report_totals bs) = sum_list (map sum_cpu bs)"
  by (rule report_totals_field; simp add: no_sums_def add_sums_def)+

text \<open>Sums of figures that lie within each other do so too.\<close>

lemma sum_list_bounds:
  assumes "\<forall>b \<in> set bs. sums_ok B N b"
  shows "sum_list (map (unat \<circ> sum_io) bs) + sum_list (map (unat \<circ> sum_cpu) bs) \<le> sum_list (map (unat \<circ> sum_leaf) bs)"
    and "sum_list (map (unat \<circ> sum_leaf) bs) \<le> sum_list (map (unat \<circ> sum_db) bs)"
    and "sum_list (map (unat \<circ> sum_db) bs) \<le> sum_list (map (unat \<circ> sum_client) bs)"
    and "sum_list (map (unat \<circ> sum_client) bs) \<le> length bs * (B * N)"
  using assms by (induction bs) (auto simp: sums_ok_def word_le_nat_alt)

lemma report_totals_ok:
  assumes ok: "\<forall>b \<in> set bs. sums_ok B N b" and fit: "length bs * (B * N) < 18446744073709551616"
  shows "sums_ok B (length bs * N) (report_totals bs)"
    and "unat (sum_client (report_totals bs)) = sum_list (map (unat \<circ> sum_client) bs)"
    and "unat (sum_db (report_totals bs)) = sum_list (map (unat \<circ> sum_db) bs)"
proof -
  note le = sum_list_bounds [OF ok]
  have e: "unat (f (report_totals bs)) = sum_list (map (unat \<circ> f) bs)"
    if "f (report_totals bs) = sum_list (map f bs)" "sum_list (map (unat \<circ> f) bs) < 18446744073709551616" for f :: "bench_sums \<Rightarrow> u64"
    using unat_sum_list_u64 [of "map f bs"] that by simp
  have s: "sum_list (map (unat \<circ> sum_client) bs) < 18446744073709551616" using le(4) fit by linarith
  have client: "unat (sum_client (report_totals bs)) = sum_list (map (unat \<circ> sum_client) bs)"
    by (rule e [OF report_totals_fields(1) s])
  have db: "unat (sum_db (report_totals bs)) = sum_list (map (unat \<circ> sum_db) bs)"
    by (rule e [OF report_totals_fields(2)]) (use s le in linarith)
  have leaf: "unat (sum_leaf (report_totals bs)) = sum_list (map (unat \<circ> sum_leaf) bs)"
    by (rule e [OF report_totals_fields(3)]) (use s le in linarith)
  have io: "unat (sum_io (report_totals bs)) = sum_list (map (unat \<circ> sum_io) bs)"
    by (rule e [OF report_totals_fields(4)]) (use s le in linarith)
  have cpu: "unat (sum_cpu (report_totals bs)) = sum_list (map (unat \<circ> sum_cpu) bs)"
    by (rule e [OF report_totals_fields(5)]) (use s le in linarith)
  show "sums_ok B (length bs * N) (report_totals bs)"
    unfolding sums_ok_def word_le_nat_alt client db leaf io cpu using le by (simp add: ac_simps)
  show "unat (sum_client (report_totals bs)) = sum_list (map (unat \<circ> sum_client) bs)" by (rule client)
  show "unat (sum_db (report_totals bs)) = sum_list (map (unat \<circ> sum_db) bs)" by (rule db)
qed

text \<open>So do the averages, and their differences do not wrap.\<close>

lemma div_add_le: "a + b \<le> c \<Longrightarrow> a div n + b div n \<le> c div (n :: nat)"
  using div_add1_eq [of a b n] div_le_mono [of "a + b" c n] by linarith

lemma average_columns:
  assumes "sums_ok B k s"
  shows "unat (sum_client s div nr - sum_db s div nr) = unat (sum_client s) div unat nr - unat (sum_db s) div unat nr"
    and "unat (sum_db s div nr - sum_leaf s div nr) = unat (sum_db s) div unat nr - unat (sum_leaf s) div unat nr"
    and "unat (sum_client s div nr - sum_leaf s div nr) = unat (sum_client s) div unat nr - unat (sum_leaf s) div unat nr"
    and "unat (sum_leaf s div nr - sum_io s div nr - sum_cpu s div nr) =
      unat (sum_leaf s) div unat nr - unat (sum_io s) div unat nr - unat (sum_cpu s) div unat nr"
    and "unat (sum_db s) div unat nr \<le> unat (sum_client s) div unat nr"
    and "unat (sum_leaf s) div unat nr \<le> unat (sum_db s) div unat nr"
    and "unat (sum_io s) div unat nr + unat (sum_cpu s) div unat nr \<le> unat (sum_leaf s) div unat nr"
proof -
  have n: "unat (sum_io s) + unat (sum_cpu s) \<le> unat (sum_leaf s)" "unat (sum_leaf s) \<le> unat (sum_db s)"
    "unat (sum_db s) \<le> unat (sum_client s)"
    using assms by (simp_all add: sums_ok_def word_le_nat_alt)
  note m = div_le_mono [OF n(3), of "unat nr"] div_le_mono [OF n(2), of "unat nr"] div_add_le [OF n(1), of "unat nr"]
  have sub: "unat (x - y) = unat x - unat y" if "unat y \<le> unat x" for x y :: u64
    using that by (simp add: unat_sub word_le_nat_alt)
  note d = unat_div
  show "unat (sum_client s div nr - sum_db s div nr) = unat (sum_client s) div unat nr - unat (sum_db s) div unat nr"
    using m(1) by (subst sub) (simp_all add: d)
  show "unat (sum_db s div nr - sum_leaf s div nr) = unat (sum_db s) div unat nr - unat (sum_leaf s) div unat nr"
    using m(2) by (subst sub) (simp_all add: d)
  show "unat (sum_client s div nr - sum_leaf s div nr) = unat (sum_client s) div unat nr - unat (sum_leaf s) div unat nr"
    using m(1,2) by (subst sub) (simp_all add: d)
  have io: "unat (sum_leaf s div nr - sum_io s div nr) = unat (sum_leaf s) div unat nr - unat (sum_io s) div unat nr"
    using m(3) by (subst sub) (simp_all add: d)
  then show "unat (sum_leaf s div nr - sum_io s div nr - sum_cpu s div nr) =
      unat (sum_leaf s) div unat nr - unat (sum_io s) div unat nr - unat (sum_cpu s) div unat nr"
    using m(3) by (subst sub) (simp_all add: d)
qed (use assms in \<open>auto simp: sums_ok_def word_le_nat_alt intro: div_le_mono div_add_le\<close>)


section \<open>The lines of \<open>main\<close>\<close>

lemma run_threads_ok:
  assumes "\<forall>inps \<in> set runs. \<exists>t. start inps = Inr t \<and> P t"
  shows "\<exists>ts. list_all2 (\<lambda>inps t. start inps = Inr t) runs ts \<and> (\<forall>t \<in> set ts. P t) \<and>
    run_threads start runs = Inr (map sums ts)"
proof -
  have "\<exists>ts. list_all2 (\<lambda>inps t. start inps = Inr t) runs ts \<and> (\<forall>t \<in> set ts. P t) \<and>
      foldE (\<lambda>inps bs. bindE (start inps) (\<lambda>t. Inr (bs @ [sums t]))) runs acc = Inr (acc @ map sums ts)" for acc
    using assms
  proof (induction runs arbitrary: acc)
    case (Cons inps runs)
    from Cons.prems obtain t where t: "start inps = Inr t" "P t" by auto
    from Cons.prems Cons.IH [of "acc @ [sums t]"] obtain ts where
      "list_all2 (\<lambda>inps t. start inps = Inr t) runs ts" "\<forall>t \<in> set ts. P t"
      "foldE (\<lambda>inps bs. bindE (start inps) (\<lambda>t. Inr (bs @ [sums t]))) runs (acc @ [sums t]) =
         Inr ((acc @ [sums t]) @ map sums ts)"
      by auto
    with t show ?case by (intro exI [of _ "t # ts"]) simp
  qed simp
  from this [of "[]"] show ?thesis by (simp add: run_threads_def)
qed

lemma configs_bounds:
  assumes "(nt, qd, sz) \<in> set bench_configs"
  shows "1 \<le> unat nt" and "unat nt \<le> 1000" and "1 \<le> unat qd" and "unat qd \<le> 1024"
  using assms by (auto simp: bench_configs_def nthreads_def queue_depths_def req_sizes_def)

text \<open>
  What is asked of the servers for one thread: each outstanding request is answered once, with
  figures that lie within each other and within 2 to the 40 nanoseconds, and answers keep coming until
  all requests are done.
\<close>

definition ns_limit :: nat where
  "ns_limit = 1099511627776"

definition served :: "(nat \<Rightarrow> bool) \<Rightarrow> u32 \<Rightarrow> u64 \<Rightarrow> bench_input list \<Rightarrow> bool" where
  "served data_ok qd n inps \<longleftrightarrow>
     bench_env data_ok qd n inps (bench_start qd) \<and> timed_env ns_limit data_ok qd n inps (bench_start qd) \<and>
     unat n \<le> sum_list (map (\<lambda>i. length (arrivals i)) inps)"

lemma thread_sums:
  assumes ok: "bench_ok qd n" and fit: "ns_limit * (unat n + unat qd) < 18446744073709551616"
    and "served data_ok qd n inps"
  shows "\<exists>t. bench_loop data_ok qd n inps (bench_start qd) = Inr t \<and>
    unat n \<le> unat (req_complete t) \<and> sums_ok ns_limit (unat n + unat qd) (sums t)"
proof -
  have env: "bench_env data_ok qd n inps (bench_start qd)"
    and times: "timed_env ns_limit data_ok qd n inps (bench_start qd)"
    and enough: "unat n \<le> sum_list (map (\<lambda>i. length (arrivals i)) inps)"
    using assms(3) by (simp_all add: served_def)
  have st: "sums_ok ns_limit (unat (req_complete (bench_start qd))) (sums (bench_start qd))"
    by (simp add: sums_ok_def bench_start_def)
  from bench_run_ok [OF ok env] obtain t where
    t: "bench_loop data_ok qd n inps (bench_start qd) = Inr t" "bench_inv qd n t"
      "n \<le> req_complete t \<or> unat (req_complete t) = sum_list (map (\<lambda>i. length (arrivals i)) inps)"
    by blast
  have "unat n \<le> unat (req_complete t)" using t(3) enough by (auto simp: word_le_nat_alt)
  moreover have c: "unat (req_complete t) \<le> unat n + unat qd"
    using t(2) by (simp add: bench_inv_def bench_counts_def)
  moreover have "sums_ok ns_limit (unat (req_complete t)) (sums t)"
    by (rule bench_loop_sums [OF ok fit bench_inv_start [OF ok] env times st t(1)])
  then have "sums_ok ns_limit (unat n + unat qd) (sums t)"
    unfolding sums_ok_def using mult_le_mono2 [OF c, of ns_limit] by linarith
  ultimately show ?thesis using t(1) by blast
qed

text \<open>All threads of a configuration together.\<close>

lemma threads_totals:
  assumes cfg: "(nt, qd, sz) \<in> set bench_configs" and len: "length runs = unat nt" and n: "unat n \<le> 2048"
    and start: "\<And>inps. served data_ok qd n inps \<Longrightarrow> start inps = bench_loop data_ok qd n inps (bench_start qd)"
    and env: "\<forall>inps \<in> set runs. served data_ok qd n inps"
  shows "\<exists>ts. list_all2 (\<lambda>inps t. start inps = Inr t) runs ts \<and> run_threads start runs = Inr (map sums ts) \<and>
    unat nt * unat n \<le> sum_list (map (unat \<circ> req_complete) ts) \<and>
    sums_ok ns_limit (unat nt * (unat n + unat qd)) (report_totals (map sums ts)) \<and>
    unat (sum_client (report_totals (map sums ts))) = sum_list (map (unat \<circ> sum_client \<circ> sums) ts) \<and>
    unat (sum_db (report_totals (map sums ts))) = sum_list (map (unat \<circ> sum_db \<circ> sums) ts)"
proof -
  note b = configs_bounds [OF cfg]
  let ?N = "unat n + unat qd"
  let ?P = "\<lambda>t. unat n \<le> unat (req_complete t) \<and> sums_ok ns_limit ?N (sums t)"
  have ok: "bench_ok qd n" using b n by (simp add: bench_ok_def)
  have N: "?N \<le> 3072" using b(4) n by linarith
  then have fit: "ns_limit * ?N < 18446744073709551616"
    using mult_le_mono2 [OF N, of ns_limit] by (simp add: ns_limit_def)
  have "\<forall>inps \<in> set runs. \<exists>t. start inps = Inr t \<and> ?P t"
    using thread_sums [OF ok fit] start env by auto
  from run_threads_ok [OF this] obtain ts where
    ts: "list_all2 (\<lambda>inps t. start inps = Inr t) runs ts" "\<forall>t \<in> set ts. ?P t"
      "run_threads start runs = Inr (map sums ts)" by blast
  have l: "length ts = unat nt" using ts(1) len by (simp add: list_all2_lengthD)
  have "length ts * unat n \<le> sum_list (map (unat \<circ> req_complete) ts)"
    using ts(2) by (induction ts) auto
  moreover have all: "\<forall>x \<in> set (map sums ts). sums_ok ns_limit ?N x" using ts(2) by simp
  have "unat nt * (ns_limit * ?N) \<le> 1000 * (ns_limit * 3072)"
    by (intro mult_le_mono b(2) N order_refl)
  then have "length (map sums ts) * (ns_limit * ?N) < 18446744073709551616"
    by (simp add: l ns_limit_def del: distrib_left_numeral)
  note report_totals_ok [OF all this]
  ultimately show ?thesis using ts(1,3) l by (auto simp: o_assoc)
qed

text \<open>
  The lines of the put benchmark (exp2): in every configuration of \<open>main\<close>, with servers that serve
  every thread, all threads end, the averages printed are the exact totals of the threads divided by the
  number of requests asked for, which is at most the number of requests counted (so that an average
  may be too high, never too low), and no difference printed wraps.
\<close>

theorem put_report_exact:
  assumes "(nt, qd, sz) \<in> set bench_configs" and "length runs = unat nt"
    and "\<forall>inps \<in> set runs. served (\<lambda>k. k = 0) qd MaxRequests_exp2 inps"
  shows "\<exists>row ts. main_exp2 nt qd sz d runs = Inr row \<and>
    list_all2 (\<lambda>inps t. start_benchmark_exp2 sz qd MaxRequests_exp2 inps = Inr t) runs ts \<and>
    unat (row_total row) = unat nt * 1000 \<and>
    unat (row_total row) \<le> sum_list (map (unat \<circ> req_complete) ts) \<and>
    unat (row_client row) = sum_list (map (unat \<circ> sum_client \<circ> sums) ts) div unat (row_total row) \<and>
    unat (row_db row) = sum_list (map (unat \<circ> sum_db \<circ> sums) ts) div unat (row_total row) \<and>
    unat (row_client_db row) + unat (row_db row) = unat (row_client row) \<and>
    unat (row_db_leaf row) + unat (row_leaf row) = unat (row_db row) \<and>
    unat (row_rest row) + unat (row_io row) + unat (row_cpu row) = unat (row_leaf row)"
proof -
  let ?nr = "MaxRequests_exp2 * ucast nt :: u64"
  have n: "unat MaxRequests_exp2 = 1000" by (simp add: MaxRequests_exp2_def)
  have nr: "unat ?nr = unat nt * 1000" using configs_bounds(2) [OF assms(1)] n by (simp add: unat_word_ariths)
  obtain ts where ts: "list_all2 (\<lambda>inps t. start_benchmark_exp2 sz qd MaxRequests_exp2 inps = Inr t) runs ts"
      "run_threads (start_benchmark_exp2 sz qd MaxRequests_exp2) runs = Inr (map sums ts)"
      "unat nt * 1000 \<le> sum_list (map (unat \<circ> req_complete) ts)"
      "sums_ok ns_limit (unat nt * (1000 + unat qd)) (report_totals (map sums ts))"
      "unat (sum_client (report_totals (map sums ts))) = sum_list (map (unat \<circ> sum_client \<circ> sums) ts)"
      "unat (sum_db (report_totals (map sums ts))) = sum_list (map (unat \<circ> sum_db \<circ> sums) ts)"
    using threads_totals [OF assms(1,2) _ _ assms(3), of "start_benchmark_exp2 sz qd MaxRequests_exp2"] n
    by (auto simp: start_benchmark_exp2_def)
  have "?nr \<noteq> 0" using nr configs_bounds(1) [OF assms(1)] by auto
  then show ?thesis
    unfolding main_exp2_def ts(2) bindE_simps report_exp2_def Let_def
    using ts nr average_columns [OF ts(4), of ?nr] by (auto simp: unat_div)
qed


text \<open>One thread, one request at a time: the states of the run in closed form.\<close>

definition solo_input :: "nat \<Rightarrow> nat \<Rightarrow> bench_input" where
  "solo_input len i =
     \<lparr>send_clock = (\<lambda>j. 0), arrivals = [(10, \<lparr>reply_id = of_nat i + 1, reply_length = len, reply_db = 3,
        reply_leaf = 2, reply_io = 1, reply_cpu = 1\<rparr>)]\<rparr>"

definition solo_state :: "nat \<Rightarrow> nat \<Rightarrow> bench_state" where
  "solo_state n i =
     \<lparr>req_complete = of_nat i, req_tosend = (if i < n then 1 else 0), req_out = 0, req_sched = of_nat i,
      req_id = of_nat i + 1, req_time = Map.empty, wire = map (\<lambda>j. (of_nat j + 1, 0)) [0..<i],
      sums = \<lparr>sum_client = of_nat (10 * i), sum_db = of_nat (3 * i), sum_leaf = of_nat (2 * i), sum_io = of_nat i,
        sum_cpu = of_nat i\<rparr>\<rparr>"

lemma solo_sent:
  "send_batch clk (Suc 0) (solo_state n i) = (solo_state n i)\<lparr>req_time := [of_nat i + 1 \<mapsto> clk 0],
     req_sched := of_nat i + 1, wire := wire (solo_state n i) @ [(of_nat i + 1, 0)], req_out := 1,
     req_id := of_nat i + 1 + 1\<rparr>"
  by (simp add: send_batch_def send_request_def solo_state_def Let_def)

lemma solo_round:
  assumes "i < n" and "n < 9223372036854775808"
  shows "answers_out (\<lambda>k. k = len) (arrivals (solo_input len i)) (send_batch (send_clock (solo_input len i)) (Suc 0) (solo_state n i))"
    and "all_timed ns_limit (arrivals (solo_input len i)) (send_batch (send_clock (solo_input len i)) (Suc 0) (solo_state n i))"
    and "bench_body (\<lambda>k. k = len) 1 (of_nat n) (solo_input len i) (solo_state n i) = Inr (solo_state n (Suc i))"
proof -
  show "answers_out (\<lambda>k. k = len) (arrivals (solo_input len i)) (send_batch (send_clock (solo_input len i)) (Suc 0) (solo_state n i))"
    unfolding solo_sent by (simp add: answers_out_def solo_input_def in_time_def)
  show "all_timed ns_limit (arrivals (solo_input len i)) (send_batch (send_clock (solo_input len i)) (Suc 0) (solo_state n i))"
    unfolding solo_sent by (simp add: all_timed_def timed_def solo_input_def ns_limit_def)
  have k: "unat (req_tosend (solo_state n i)) = Suc 0" using assms(1) by (simp add: solo_state_def)
  have u: "unat (of_nat j :: u64) = j" if "j \<le> n" for j using that assms(2) by (intro unat_of_nat_u64) simp
  have w: "(of_nat i + 1 :: u64) = of_nat (Suc i)" "(1 :: u64) + of_nat (Suc i) = of_nat (Suc (Suc i))" by simp_all
  have c: "(of_nat n :: u64) < 1 + of_nat (Suc i) \<longleftrightarrow> n \<le> Suc i" "(of_nat (Suc i) :: u64) < of_nat n \<longleftrightarrow> Suc i < n"
    using u [of n] u [of "Suc i"] assms unat_of_nat_u64 [of "Suc (Suc i)"]
    unfolding w by (simp_all add: word_less_nat_alt del: of_nat_Suc) auto
  have sent: "send_batch clk (unat (req_tosend (solo_state n i))) (solo_state n i) =
      (solo_state n i)\<lparr>req_time := [of_nat i + 1 \<mapsto> clk 0], req_sched := of_nat i + 1,
        wire := wire (solo_state n i) @ [(of_nat i + 1, 0)], req_out := 1, req_id := of_nat i + 1 + 1\<rparr>" for clk
    unfolding k by (rule solo_sent)
  have k31: "unat (req_tosend (solo_state n i)) \<le> 2147483647" unfolding k by simp
  have got: "foldE (receive_reply (\<lambda>k. k = len)) (arrivals (solo_input len i))
      (send_batch (send_clock (solo_input len i)) (unat (req_tosend (solo_state n i))) (solo_state n i)) =
      Inr ((solo_state n (Suc i))\<lparr>req_tosend := 1\<rparr>)"
    unfolding sent using assms(1)
    by (simp add: solo_input_def receive_reply_def Let_def) (simp add: solo_state_def algebra_simps)
  have "next_tosend 1 (of_nat n) ((solo_state n (Suc i))\<lparr>req_tosend := 1\<rparr>) = solo_state n (Suc i)"
    using c by (simp add: next_tosend_def solo_state_def Let_def add.commute)
  then show "bench_body (\<lambda>k. k = len) 1 (of_nat n) (solo_input len i) (solo_state n i) = Inr (solo_state n (Suc i))"
    unfolding bench_body_def send_loop_batch [OF k31] bindE_simps got by simp
qed

lemma solo_served:
  assumes "n < 9223372036854775808"
  shows "served (\<lambda>k. k = len) 1 (of_nat n) (map (solo_input len) [0..<n])"
proof -
  have u: "unat (of_nat j :: u64) = j" if "j \<le> n" for j using that assms by (intro unat_of_nat_u64) simp
  have env: "bench_env (\<lambda>k. k = len) 1 (of_nat n) (map (solo_input len) [n - m..<n]) (solo_state n (n - m)) \<and>
      timed_env ns_limit (\<lambda>k. k = len) 1 (of_nat n) (map (solo_input len) [n - m..<n]) (solo_state n (n - m))"
    if "m \<le> n" for m
    using that
  proof (induction m)
    case (Suc m)
    then have i: "n - Suc m < n" "Suc (n - Suc m) = n - m" by simp_all
    have l: "[n - Suc m..<n] = (n - Suc m) # [n - m..<n]" using i by (simp add: upt_conv_Cons)
    have k: "unat (req_tosend (solo_state n (n - Suc m))) = Suc 0" using i(1) by (simp add: solo_state_def)
    show ?case
      using Suc solo_round [OF i(1) assms, of len] unfolding i(2) l by (simp add: k)
  qed simp
  have "bench_start 1 = solo_state n 0" if "0 < n" using that by (simp add: bench_start_def solo_state_def)
  then show ?thesis
    using env [of n] u [of n] by (cases "n = 0") (simp_all add: served_def solo_input_def o_def sum_list_triv)
qed

theorem put_report_exact_witness:
  "\<exists>row. main_exp2 1 1 4096 20000 [map (solo_input 0) [0..<1000]] = Inr row \<and> unat (row_total row) = 1000 \<and>
     unat (row_db_leaf row) + unat (row_leaf row) = unat (row_db row)"
proof -
  have "(1, 1, 4096) \<in> set bench_configs"
    by (simp add: bench_configs_def nthreads_def queue_depths_def req_sizes_def)
  from put_report_exact [OF this, of "[map (solo_input 0) [0..<1000]]" 20000] solo_served [of 1000 0]
  show ?thesis by (auto simp: MaxRequests_exp2_def)
qed


text \<open>
  The lines of the read benchmark (exp3): in every configuration of \<open>main\<close>, with servers that serve
  every thread, each thread first lays down its files and then ends, the averages are the exact totals
  divided by the number of requests asked for, and no difference printed wraps. The database
  server's figure, which this experiment's replies do not have, is only asked to lie between the leaf's
  and the client's.
\<close>

theorem read_report_exact:
  assumes "(nt, qd, sz) \<in> set bench_configs" and "length runs = unat nt"
    and "\<forall>inps \<in> set runs. served (\<lambda>k. k = unat sz) qd MaxRequests_exp3 inps"
  shows "\<exists>row ts. main_exp3 nt qd sz d runs = Inr row \<and>
    list_all2 (\<lambda>inps t. \<exists>files. start_benchmark_exp3 sz qd MaxRequests_exp3 inps = Inr (files, t)) runs ts \<and>
    unat (row_total row) = unat nt * 2048 \<and>
    unat (row_total row) \<le> sum_list (map (unat \<circ> req_complete) ts) \<and>
    unat (row_db row) = sum_list (map (unat \<circ> sum_client \<circ> sums) ts) div unat (row_total row) \<and>
    unat (row_db_leaf row) + unat (row_leaf row) = unat (row_db row) \<and>
    unat (row_rest row) + unat (row_io row) + unat (row_cpu row) = unat (row_leaf row)"
proof -
  let ?nr = "MaxRequests_exp3 * ucast nt :: u64"
  let ?start = "\<lambda>inps. bindE (start_benchmark_exp3 sz qd MaxRequests_exp3 inps) (\<lambda>(files, t). Inr t)"
  have n: "unat MaxRequests_exp3 = 2048" by (simp add: MaxRequests_exp3_def)
  have nr: "unat ?nr = unat nt * 2048" using configs_bounds(2) [OF assms(1)] n by (simp add: unat_word_ariths)
  have eq: "?start inps = bench_loop (\<lambda>k. k = unat sz) qd MaxRequests_exp3 inps (bench_start qd)" for inps
    using n by (cases "bench_loop (\<lambda>k. k = unat sz) qd MaxRequests_exp3 inps (bench_start qd)")
      (simp_all add: start_benchmark_exp3_def laydown_files_eq)
  obtain ts where ts: "list_all2 (\<lambda>inps t. ?start inps = Inr t) runs ts"
      "run_threads ?start runs = Inr (map sums ts)" "unat nt * 2048 \<le> sum_list (map (unat \<circ> req_complete) ts)"
      "sums_ok ns_limit (unat nt * (2048 + unat qd)) (report_totals (map sums ts))"
      "unat (sum_client (report_totals (map sums ts))) = sum_list (map (unat \<circ> sum_client \<circ> sums) ts)"
    using threads_totals [OF assms(1,2) _ eq assms(3)] by (auto simp: n)
  have "list_all2 (\<lambda>inps t. \<exists>files. start_benchmark_exp3 sz qd MaxRequests_exp3 inps = Inr (files, t)) runs ts"
    by (rule list_all2_mono [OF ts(1)]) (auto simp: result_simps)
  moreover have "?nr \<noteq> 0" using nr configs_bounds(1) [OF assms(1)] by auto
  ultimately show ?thesis
    unfolding main_exp3_def ts(2) bindE_simps report_exp3_def Let_def
    using ts nr average_columns [OF ts(4), of ?nr] by (auto simp: unat_div)
qed

theorem read_report_exact_witness:
  "\<exists>row. main_exp3 1 1 4096 40000 [map (solo_input 4096) [0..<2048]] = Inr row \<and> unat (row_total row) = 2048 \<and>
     unat (row_db_leaf row) + unat (row_leaf row) = unat (row_db row)"
proof -
  have "(1, 1, 4096) \<in> set bench_configs"
    by (simp add: bench_configs_def nthreads_def queue_depths_def req_sizes_def)
  from read_report_exact [OF this, of "[map (solo_input 4096) [0..<2048]]" 40000] solo_served [of 2048 4096]
  show ?thesis by (auto simp: MaxRequests_exp3_def)
qed

text \<open>
  The line of exp1 holds no sums: for every configuration it is printed whenever the calls of the threads
  are answered as \<open>bench_env\<close> says, and its number of requests does not wrap.
\<close>

lemma exp1_line:
  assumes "(nt, qd, sz) \<in> set bench_configs"
    and "\<forall>inps \<in> set runs. bench_env (\<lambda>n. True) qd MaxRequests_exp1 inps (bench_start qd)"
  shows "\<exists>avg total_avg nr. main_exp1 nt qd sz d runs = Inr (avg, nr, total_avg) \<and> unat nr = unat nt * 100000"
proof -
  note b = configs_bounds [OF assms(1)]
  let ?nr = "MaxRequests_exp1 * ucast nt :: u64"
  have n: "unat MaxRequests_exp1 = 100000" by (simp add: MaxRequests_exp1_def)
  have nr: "unat ?nr = unat nt * 100000" using b(2) n by (simp add: unat_word_ariths)
  then have "?nr \<noteq> 0" using b(1) by auto
  have ok: "bench_ok qd MaxRequests_exp1" using b n by (simp add: bench_ok_def)
  have "\<forall>inps \<in> set runs. \<exists>t. start_benchmark_exp1 sz qd MaxRequests_exp1 inps = Inr t \<and> True"
    using bench_run_ok [OF ok, of "\<lambda>n. True"] assms(2) by (fastforce simp: start_benchmark_exp1_def)
  from run_threads_ok [OF this] show ?thesis
    using nr \<open>?nr \<noteq> 0\<close> by (auto simp: main_exp1_def report_exp1_def)
qed

end
