(* ===== verification/Exp2System.thy ===== *)
theory Exp2System
  imports DBServer BenchReport
begin

text \<open>
  \<open>fbthrift/exp2\<close> as a whole: the handler of \<open>DB/DBServer.cpp\<close> with its connections and round-robin choice
  (the class \<open>Leaf\<close> is that of \<open>exp3\<close>, see \<open>DBServer\<close>), the handlers of the leaf servers of
  \<open>LEAF/LeafServer.cpp\<close> with their worker threads, and the calls and answers under way between them. A step of
  the system is one step of one server or the delivery of one message, in any order; steps are
  stamped with a common clock. What is shown is that no assertion fails, that no put is lost or
  answered twice, and that the figures in an answer lie within each other, which is what the
  client's report relies on.
\<close>

section \<open>The database server\<close>

record db2_state =
  leafs2 :: "Leaf list"
  curLeaf2 :: u32
  calls2 :: nat                                            \<comment> \<open>futures handed out so far\<close>
  open2 :: "(nat \<times> nat \<times> DBData2 \<times> int) list"      \<comment> \<open>future, callback, request, start\<close>
  replies2 :: "(nat \<times> DBData2) list"
  dropped2 :: "(nat \<times> DBData2) list"                 \<comment> \<open>callbacks destroyed without an answer\<close>

definition DBHandler2_new :: "Leaf list \<Rightarrow> db2_state" where
  "DBHandler2_new ls = \<lparr>leafs2 = ls, curLeaf2 = 0, calls2 = 0, open2 = [], replies2 = [], dropped2 = []\<rparr>"

definition getLeaf2 :: "db2_state \<Rightarrow> (nat \<times> db2_state) result" where
  "getLeaf2 s =
     (if leafs2 s = [] then Inl Div_By_Zero
      else
        let i = (ucast ((ucast (curLeaf2 s + 1) :: u64) mod of_nat (length (leafs2 s))) :: u32) in
        Inr (unat i, s\<lparr>curLeaf2 := i\<rparr>))"

text \<open>
  \<open>key_put\<close> up to the call of the leaf; the result says which leaf is called as which future and with what. The
  continuation is what \<open>open2\<close> keeps.
\<close>

definition db2_key_put ::
  "bool \<Rightarrow> int \<Rightarrow> nat \<Rightarrow> DBData2 \<Rightarrow> db2_state \<Rightarrow> ((nat \<times> nat \<times> LeafData2) \<times> db2_state) result" where
  "db2_key_put in_evb now cb bench s =
     bindE (getLeaf2 s) (\<lambda>(i, s).
       let l = leafs2 s ! i in
       bindE (if \<not> isConnected l then connect in_evb l else Inr l) (\<lambda>l.
         assertE (getConnection l \<noteq> None)
           (Inr ((i, calls2 s, db2_to_leaf bench),
              s\<lparr>leafs2 := (leafs2 s)[i := l], calls2 := Suc (calls2 s),
                open2 := open2 s @ [(calls2 s, cb, bench, now)]\<rparr>))))"

definition db2_answered :: "int \<Rightarrow> nat \<Rightarrow> LeafData2 \<Rightarrow> db2_state \<Rightarrow> db2_state result" where
  "db2_answered now f r s =
     (case map_of (open2 s) f of
        None \<Rightarrow> Inr s
      | Some (cb, bench, t0) \<Rightarrow>
          bindE (db2_reply (now - t0) bench r) (\<lambda>ret.
            Inr (s\<lparr>open2 := filter (\<lambda>x. fst x \<noteq> f) (open2 s), replies2 := replies2 s @ [(cb, ret)]\<rparr>)))"

text \<open>
  The call fails (the leaf cannot be reached, its channel closes, it times out): the continuation, which
  takes a result only, does not run, and with it goes the callback.
\<close>

definition db2_failed :: "nat \<Rightarrow> db2_state \<Rightarrow> db2_state" where
  "db2_failed f s =
     (case map_of (open2 s) f of
        None \<Rightarrow> s
      | Some (cb, bench, t0) \<Rightarrow>
          s\<lparr>open2 := filter (\<lambda>x. fst x \<noteq> f) (open2 s), dropped2 := dropped2 s @ [(cb, bench)]\<rparr>)"

section \<open>A leaf server\<close>

text \<open>A call goes to the pool's queue, runs on a worker, waits for the event thread, and is answered.\<close>

record leaf2_state =
  queue2 :: "(nat \<times> u64 \<times> int) list"                \<comment> \<open>callback, identifier, start\<close>
  running2 :: "(nat \<times> u64 \<times> int \<times> int) list"       \<comment> \<open>and start of the burning\<close>
  burnt2 :: "(nat \<times> u64 \<times> int \<times> int) list"         \<comment> \<open>and CPU time burnt\<close>
  answers2 :: "(nat \<times> LeafData2) list"

definition LeafHandler2_new :: leaf2_state where
  "LeafHandler2_new = \<lparr>queue2 = [], running2 = [], burnt2 = [], answers2 = []\<rparr>"

definition leaf2_call :: "int \<Rightarrow> nat \<Rightarrow> LeafData2 \<Rightarrow> leaf2_state \<Rightarrow> leaf2_state" where
  "leaf2_call now cb ldb s = s\<lparr>queue2 := queue2 s @ [(cb, l2_request_id ldb, now)]\<rparr>"

text \<open>A free worker takes the oldest task.\<close>

definition leaf2_start :: "int \<Rightarrow> leaf2_state \<Rightarrow> leaf2_state" where
  "leaf2_start cs s =
     (case queue2 s of
        [] \<Rightarrow> s
      | (cb, reqid, t) # q \<Rightarrow> s\<lparr>queue2 := q, running2 := running2 s @ [(cb, reqid, t, cs)]\<rparr>)"

definition leaf2_burnt :: "nat \<Rightarrow> int \<Rightarrow> leaf2_state \<Rightarrow> leaf2_state" where
  "leaf2_burnt k ce s =
     (if k < length (running2 s) then
        case running2 s ! k of (cb, reqid, t, cs) \<Rightarrow>
          s\<lparr>running2 := take k (running2 s) @ drop (Suc k) (running2 s), burnt2 := burnt2 s @ [(cb, reqid, t, ce - cs)]\<rparr>
      else s)"

definition leaf2_respond :: "nat \<Rightarrow> int \<Rightarrow> leaf2_state \<Rightarrow> leaf2_state" where
  "leaf2_respond k e s =
     (if k < length (burnt2 s) then
        case burnt2 s ! k of (cb, reqid, t, cpu) \<Rightarrow>
          s\<lparr>burnt2 := take k (burnt2 s) @ drop (Suc k) (burnt2 s),
            answers2 := answers2 s @ [(cb, leaf2_reply (e - t) cpu reqid)]\<rparr>
      else s)"

section \<open>The system\<close>

record sys2 =
  db2 :: db2_state
  leaf_servers :: "leaf2_state list"
  calls_on_wire :: "(nat \<times> nat \<times> LeafData2) list"    \<comment> \<open>leaf, future, data\<close>
  puts2 :: "(nat \<times> DBData2 \<times> int) list"             \<comment> \<open>every put that arrived: callback, data, when\<close>
  clock2 :: int

datatype event2 =
    Put_Arrives nat DBData2
  | Call_Arrives nat
  | Worker_Starts nat
  | Worker_Done nat nat
  | Leaf_Answers nat nat
  | Answer_Arrives nat nat
  | Channel_Closed nat
  | Call_Fails nat

definition on_leaf :: "nat \<Rightarrow> (leaf2_state \<Rightarrow> leaf2_state) \<Rightarrow> sys2 \<Rightarrow> sys2" where
  "on_leaf i f s =
     (if i < length (leaf_servers s) then s\<lparr>leaf_servers := (leaf_servers s)[i := f (leaf_servers s ! i)]\<rparr> else s)"

definition sys2_event :: "int \<Rightarrow> event2 \<Rightarrow> sys2 \<Rightarrow> sys2 result" where
  "sys2_event now e s =
     (case e of
        Put_Arrives cb bench \<Rightarrow>
          bindE (db2_key_put True now cb bench (db2 s)) (\<lambda>(call, d).
            Inr (s\<lparr>db2 := d, calls_on_wire := calls_on_wire s @ [call], puts2 := puts2 s @ [(cb, bench, now)]\<rparr>))
      | Call_Arrives k \<Rightarrow>
          Inr (if k < length (calls_on_wire s) then
                 case calls_on_wire s ! k of (i, f, ldb) \<Rightarrow>
                   on_leaf i (leaf2_call now f ldb)
                     (s\<lparr>calls_on_wire := take k (calls_on_wire s) @ drop (Suc k) (calls_on_wire s)\<rparr>)
               else s)
      | Worker_Starts i \<Rightarrow> Inr (on_leaf i (leaf2_start now) s)
      | Worker_Done i k \<Rightarrow> Inr (on_leaf i (leaf2_burnt k now) s)
      | Leaf_Answers i k \<Rightarrow> Inr (on_leaf i (leaf2_respond k now) s)
      | Answer_Arrives i k \<Rightarrow>
          if i < length (leaf_servers s) \<and> k < length (answers2 (leaf_servers s ! i)) then
            case answers2 (leaf_servers s ! i) ! k of (f, r) \<Rightarrow>
              bindE (db2_answered now f r (db2 s)) (\<lambda>d.
                Inr (on_leaf i (\<lambda>l. l\<lparr>answers2 := take k (answers2 l) @ drop (Suc k) (answers2 l)\<rparr>) (s\<lparr>db2 := d\<rparr>)))
          else Inr s
      | Channel_Closed i \<Rightarrow>
          Inr (s\<lparr>db2 := (db2 s)\<lparr>leafs2 := (leafs2 (db2 s))[i := channelClosed (leafs2 (db2 s) ! i)]\<rparr>\<rparr>)
      | Call_Fails f \<Rightarrow> Inr (s\<lparr>db2 := db2_failed f (db2 s)\<rparr>))"

text \<open>Time does not run backwards: an event that lies before the clock happens at the clock.\<close>

definition sys2_step :: "int \<times> event2 \<Rightarrow> sys2 \<Rightarrow> sys2 result" where
  "sys2_step ev s =
     (case ev of (t, e) \<Rightarrow> let now = max t (clock2 s) in sys2_event now e (s\<lparr>clock2 := now\<rparr>))"

definition sys2_start :: "Leaf list \<Rightarrow> sys2" where
  "sys2_start ls =
     \<lparr>db2 = DBHandler2_new ls, leaf_servers = replicate (length ls) LeafHandler2_new, calls_on_wire = [],
      puts2 = [], clock2 = 0\<rparr>"

section \<open>Invariants\<close>

text \<open>Where a put is on its way, and what is known about it there.\<close>

definition put_id :: "(nat \<times> DBData2 \<times> int) list \<Rightarrow> nat \<Rightarrow> u64" where
  "put_id P f = d2_request_id (fst (snd (P ! f)))"

definition put_time :: "(nat \<times> DBData2 \<times> int) list \<Rightarrow> nat \<Rightarrow> int" where
  "put_time P f = snd (snd (P ! f))"

definition queue_ok :: "(nat \<times> DBData2 \<times> int) list \<Rightarrow> int \<Rightarrow> nat \<times> u64 \<times> int \<Rightarrow> bool" where
  "queue_ok P c x \<longleftrightarrow>
     (case x of (f, i, t) \<Rightarrow> f < length P \<and> i = put_id P f \<and> put_time P f \<le> t \<and> t \<le> c)"

definition running_ok :: "(nat \<times> DBData2 \<times> int) list \<Rightarrow> int \<Rightarrow> nat \<times> u64 \<times> int \<times> int \<Rightarrow> bool" where
  "running_ok P c x \<longleftrightarrow>
     (case x of (f, i, t, cs) \<Rightarrow> f < length P \<and> i = put_id P f \<and> put_time P f \<le> t \<and> t \<le> cs \<and> cs \<le> c)"

definition burnt_ok :: "(nat \<times> DBData2 \<times> int) list \<Rightarrow> int \<Rightarrow> nat \<times> u64 \<times> int \<times> int \<Rightarrow> bool" where
  "burnt_ok P c x \<longleftrightarrow>
     (case x of (f, i, t, cpu) \<Rightarrow> f < length P \<and> i = put_id P f \<and> put_time P f \<le> t \<and> 0 \<le> cpu \<and> t + cpu \<le> c)"

definition answer_ok :: "(nat \<times> DBData2 \<times> int) list \<Rightarrow> int \<Rightarrow> nat \<times> LeafData2 \<Rightarrow> bool" where
  "answer_ok P c x \<longleftrightarrow>
     (case x of (f, r) \<Rightarrow> f < length P \<and> l2_request_id r = put_id P f \<and> l2_io_latency r = 0 \<and>
        0 \<le> l2_cpu_consumed r \<and> l2_cpu_consumed r \<le> l2_leaf_latency r \<and> put_time P f + l2_leaf_latency r \<le> c)"

definition call_ok :: "(nat \<times> DBData2 \<times> int) list \<Rightarrow> int \<Rightarrow> nat \<times> nat \<times> LeafData2 \<Rightarrow> bool" where
  "call_ok P c x \<longleftrightarrow>
     (case x of (i, f, r) \<Rightarrow> f < length P \<and> l2_request_id r = put_id P f \<and> put_time P f \<le> c)"

definition open_ok :: "(nat \<times> DBData2 \<times> int) list \<Rightarrow> nat \<times> nat \<times> DBData2 \<times> int \<Rightarrow> bool" where
  "open_ok P x \<longleftrightarrow> fst x < length P \<and> P ! fst x = snd x"

text \<open>The figures of an answer to the client.\<close>

definition reply2_ok :: "(nat \<times> DBData2 \<times> int) list \<Rightarrow> int \<Rightarrow> nat \<times> DBData2 \<Rightarrow> bool" where
  "reply2_ok P c x \<longleftrightarrow>
     (\<exists>bench t0. (fst x, bench, t0) \<in> set P \<and> d2_request_id (snd x) = d2_request_id bench \<and>
        d2_data (snd x) = [] \<and> d2_io_latency (snd x) = 0 \<and> 0 \<le> d2_cpu_consumed (snd x) \<and>
        d2_cpu_consumed (snd x) \<le> d2_leaf_latency (snd x) \<and> d2_leaf_latency (snd x) \<le> d2_db_latency (snd x) \<and>
        t0 + d2_db_latency (snd x) \<le> c)"

lemmas item_defs = queue_ok_def running_ok_def burnt_ok_def answer_ok_def call_ok_def open_ok_def

lemma items_mono:
  assumes "c \<le> c'"
  shows "queue_ok P c x1 \<Longrightarrow> queue_ok (P @ Q) c' x1" and "running_ok P c x2 \<Longrightarrow> running_ok (P @ Q) c' x2"
    and "burnt_ok P c x3 \<Longrightarrow> burnt_ok (P @ Q) c' x3" and "answer_ok P c x4 \<Longrightarrow> answer_ok (P @ Q) c' x4"
    and "call_ok P c x5 \<Longrightarrow> call_ok (P @ Q) c' x5" and "open_ok P x6 \<Longrightarrow> open_ok (P @ Q) x6"
    and "reply2_ok P c x7 \<Longrightarrow> reply2_ok (P @ Q) c' x7"
proof -
  show "reply2_ok P c x7 \<Longrightarrow> reply2_ok (P @ Q) c' x7"
    using assms unfolding reply2_ok_def by (metis Un_iff order_trans set_append)
qed (use assms in \<open>auto simp: item_defs put_id_def put_time_def nth_append split: prod.splits\<close>)

definition leaf2_ok :: "(nat \<times> DBData2 \<times> int) list \<Rightarrow> int \<Rightarrow> leaf2_state \<Rightarrow> bool" where
  "leaf2_ok P c l \<longleftrightarrow>
     (\<forall>x \<in> set (queue2 l). queue_ok P c x) \<and> (\<forall>x \<in> set (running2 l). running_ok P c x) \<and>
     (\<forall>x \<in> set (burnt2 l). burnt_ok P c x) \<and> (\<forall>x \<in> set (answers2 l). answer_ok P c x)"

lemma leaf2_ok_mono: "leaf2_ok P c l \<Longrightarrow> c \<le> c' \<Longrightarrow> leaf2_ok (P @ Q) c' l"
  unfolding leaf2_ok_def using items_mono [of c c' P _ Q] by blast

text \<open>The futures a leaf server holds.\<close>

definition held :: "leaf2_state \<Rightarrow> nat multiset" where
  "held l = mset (map fst (queue2 l)) + mset (map fst (running2 l)) + mset (map fst (burnt2 l)) +
     mset (map fst (answers2 l))"

definition under_way :: "sys2 \<Rightarrow> nat multiset" where
  "under_way s = mset (map (fst \<circ> snd) (calls_on_wire s)) + sum_list (map held (leaf_servers s))"

text \<open>
  Each future is under way at most once, only those handed out are, and all that the database server still waits
  for are; a future whose call has failed may be under way all the same.
\<close>

definition flying_ok :: "nat multiset \<Rightarrow> nat \<Rightarrow> nat set \<Rightarrow> bool" where
  "flying_ok U n F \<longleftrightarrow> (\<forall>f. count U f \<le> 1) \<and> (\<forall>f \<in># U. f < n) \<and> F \<subseteq> set_mset U"

lemma flying_new: "flying_ok U n F \<Longrightarrow> flying_ok (add_mset n U) (Suc n) (insert n F)"
  by (auto simp: flying_ok_def count_eq_zero_iff)

lemma flying_gone:
  assumes "flying_ok (add_mset f U) n F"
  shows "flying_ok U n (F - {f})"
proof -
  have "count U g \<le> count (add_mset f U) g" for g by simp
  then have "count U g \<le> 1" for g using assms unfolding flying_ok_def by (meson order_trans)
  then show ?thesis using assms by (auto simp: flying_ok_def)
qed

lemma flying_less: "flying_ok U n F \<Longrightarrow> F' \<subseteq> F \<Longrightarrow> flying_ok U n F'"
  by (auto simp: flying_ok_def)

lemma flying_open: "flying_ok U n F \<Longrightarrow> f \<in> F \<Longrightarrow> count U f = 1"
  unfolding flying_ok_def by (metis One_nat_def count_greater_eq_one_iff le_antisym subsetD)

lemmas held_update = sum_list_update_mset [where f = held]

text \<open>A leaf's own steps keep its items well-formed and neither lose nor create any.\<close>

lemma leaf2_steps:
  assumes "leaf2_ok P c l"
  shows "leaf2_ok P c (leaf2_start c l) \<and> held (leaf2_start c l) = held l"
    and "leaf2_ok P c (leaf2_burnt k c l) \<and> held (leaf2_burnt k c l) = held l"
    and "leaf2_ok P c (leaf2_respond k c l) \<and> held (leaf2_respond k c l) = held l"
proof -
  show "leaf2_ok P c (leaf2_start c l) \<and> held (leaf2_start c l) = held l"
    using assms by (auto simp: leaf2_ok_def held_def leaf2_start_def queue_ok_def running_ok_def split: list.splits)
  show "leaf2_ok P c (leaf2_burnt k c l) \<and> held (leaf2_burnt k c l) = held l"
  proof (cases "k < length (running2 l)")
    case True
    obtain f i t cs where x: "running2 l ! k = (f, i, t, cs)" by (cases "running2 l ! k")
    have "running_ok P c (f, i, t, cs)" using assms True x by (metis leaf2_ok_def nth_mem)
    then show ?thesis
      using assms True x mset_take_nth [OF True, of fst]
      by (auto simp: leaf2_ok_def held_def leaf2_burnt_def running_ok_def burnt_ok_def ac_simps
          dest: in_set_takeD in_set_dropD)
  qed (simp add: leaf2_burnt_def assms)
  show "leaf2_ok P c (leaf2_respond k c l) \<and> held (leaf2_respond k c l) = held l"
  proof (cases "k < length (burnt2 l)")
    case True
    obtain f i t cpu where x: "burnt2 l ! k = (f, i, t, cpu)" by (cases "burnt2 l ! k")
    have "burnt_ok P c (f, i, t, cpu)" using assms True x by (metis leaf2_ok_def nth_mem)
    then show ?thesis
      using assms True x mset_take_nth [OF True, of fst]
      by (auto simp: leaf2_ok_def held_def leaf2_respond_def leaf2_reply_def burnt_ok_def answer_ok_def ac_simps
          dest: in_set_takeD in_set_dropD)
  qed (simp add: leaf2_respond_def assms)
qed


text \<open>The invariant of the system.\<close>

definition sys2_ok :: "sys2 \<Rightarrow> bool" where
  "sys2_ok s \<longleftrightarrow>
     leafs2 (db2 s) \<noteq> [] \<and> length (leafs2 (db2 s)) < 4294967296 \<and> (\<forall>l \<in> set (leafs2 (db2 s)). leaf_wf l) \<and>
     unat (curLeaf2 (db2 s)) < length (leafs2 (db2 s)) \<and> length (leaf_servers s) = length (leafs2 (db2 s)) \<and>
     calls2 (db2 s) = length (puts2 s) \<and> distinct (map fst (open2 (db2 s))) \<and>
     (\<forall>x \<in> set (open2 (db2 s)). open_ok (puts2 s) x) \<and>
     (\<forall>x \<in> set (calls_on_wire s). call_ok (puts2 s) (clock2 s) x \<and> fst x < length (leafs2 (db2 s))) \<and>
     (\<forall>l \<in> set (leaf_servers s). leaf2_ok (puts2 s) (clock2 s) l) \<and>
     (\<forall>x \<in> set (replies2 (db2 s)). reply2_ok (puts2 s) (clock2 s) x) \<and>
     flying_ok (under_way s) (length (puts2 s)) (fst ` set (open2 (db2 s))) \<and>
     mset (map fst (puts2 s)) =
       mset (map (fst \<circ> snd) (open2 (db2 s))) + mset (map fst (replies2 (db2 s))) + mset (map fst (dropped2 (db2 s)))"

lemma on_leaf_simps [simp]:
  "db2 (on_leaf i f s) = db2 s" "puts2 (on_leaf i f s) = puts2 s" "clock2 (on_leaf i f s) = clock2 s"
  "calls_on_wire (on_leaf i f s) = calls_on_wire s" "length (leaf_servers (on_leaf i f s)) = length (leaf_servers s)"
  by (simp_all add: on_leaf_def)

lemma on_leaf_ok:
  assumes "\<forall>l \<in> set (leaf_servers s). leaf2_ok P c l" and "\<And>l. leaf2_ok P c l \<Longrightarrow> leaf2_ok P c (f l)"
  shows "\<forall>l \<in> set (leaf_servers (on_leaf i f s)). leaf2_ok P c l"
  using assms by (auto simp: on_leaf_def dest: in_set_update)

lemma on_leaf_held:
  assumes "i < length (leaf_servers s)"
  shows "sum_list (map held (leaf_servers (on_leaf i f s))) + held (leaf_servers s ! i) =
    sum_list (map held (leaf_servers s)) + held (f (leaf_servers s ! i))"
  using assms held_update [of i "leaf_servers s"] by (simp add: on_leaf_def)

text \<open>A step of a leaf alone.\<close>

lemma local_step_ok:
  assumes ok: "sys2_ok s" and c: "clock2 s = c"
    and f: "\<And>l. leaf2_ok (puts2 s) c l \<Longrightarrow> leaf2_ok (puts2 s) c (f l) \<and> held (f l) = held l"
  shows "sys2_ok (on_leaf i f s)"
proof -
  have leafs: "\<forall>l \<in> set (leaf_servers s). leaf2_ok (puts2 s) c l" using ok c by (simp add: sys2_ok_def)
  then have "\<forall>l \<in> set (leaf_servers (on_leaf i f s)). leaf2_ok (puts2 s) c l"
    by (rule on_leaf_ok) (use f in blast)
  moreover have "sum_list (map held (leaf_servers (on_leaf i f s))) = sum_list (map held (leaf_servers s))"
  proof (cases "i < length (leaf_servers s)")
    case True
    then have "leaf2_ok (puts2 s) c (leaf_servers s ! i)" using leafs by simp
    then show ?thesis using on_leaf_held [OF True, of f] f [of "leaf_servers s ! i"] by simp
  qed (simp add: on_leaf_def)
  ultimately show ?thesis using ok c by (simp add: sys2_ok_def under_way_def)
qed

text \<open>The clock may advance at any time.\<close>

lemma clock_ok:
  assumes "sys2_ok s" and "clock2 s \<le> c"
  shows "sys2_ok (s\<lparr>clock2 := c\<rparr>)"
proof -
  have m: "reply2_ok (puts2 s) c x7" if "reply2_ok (puts2 s) (clock2 s) x7" for x7
    using items_mono(7) [OF assms(2) that, of "[]"] by simp
  have l: "leaf2_ok (puts2 s) c l" if "leaf2_ok (puts2 s) (clock2 s) l" for l
    using leaf2_ok_mono [OF that assms(2), of "[]"] by simp
  have k: "call_ok (puts2 s) c x" if "call_ok (puts2 s) (clock2 s) x" for x
    using items_mono(5) [OF assms(2) that, of "[]"] by simp
  show ?thesis using assms(1) m l k by (auto simp: sys2_ok_def under_way_def)
qed

text \<open>A put arrives.\<close>

lemma db2_key_put_ok:
  assumes "leafs2 d \<noteq> []" and "length (leafs2 d) < 4294967296" and "unat (curLeaf2 d) < length (leafs2 d)"
    and "\<forall>l \<in> set (leafs2 d). leaf_wf l"
  shows "\<exists>i d'. db2_key_put True now cb bench d = Inr ((i, calls2 d, db2_to_leaf bench), d') \<and>
    i = (unat (curLeaf2 d) + 1) mod length (leafs2 d) \<and> unat (curLeaf2 d') = i \<and>
    leafs2 d' = (leafs2 d)[i := connected_leaf (leafs2 d ! i)] \<and> calls2 d' = Suc (calls2 d) \<and>
    open2 d' = open2 d @ [(calls2 d, cb, bench, now)] \<and> replies2 d' = replies2 d \<and> dropped2 d' = dropped2 d"
proof -
  let ?i = "(unat (curLeaf2 d) + 1) mod length (leafs2 d)"
  note idx = next_leaf_index [OF _ assms(2,3)]
  have i: "?i < length (leafs2 d)" using assms(1) by simp
  then have wf: "leaf_wf (leafs2 (d\<lparr>curLeaf2 := of_nat ?i\<rparr>) ! ?i)" using assms(4) by simp
  have get: "getLeaf2 d = Inr (?i, d\<lparr>curLeaf2 := of_nat ?i\<rparr>)"
    using assms(1) idx by (simp add: getLeaf2_def Let_def)
  show ?thesis
    unfolding db2_key_put_def get bindE_simps prod.case Let_def connect_unless_connected(1) [OF wf]
    using idx(2) assms(1) connect_unless_connected(2) [OF wf] by simp
qed


lemma put_arrives_ok:
  assumes ok: "sys2_ok s" and c: "clock2 s = c"
  shows "\<exists>s'. sys2_event c (Put_Arrives cb bench) s = Inr s' \<and> sys2_ok s' \<and> puts2 s' = puts2 s @ [(cb, bench, c)]"
proof -
  let ?d = "db2 s" and ?P = "puts2 s" and ?Q = "puts2 s @ [(cb, bench, c)]"
  obtain i d' where d': "db2_key_put True c cb bench ?d = Inr ((i, calls2 ?d, db2_to_leaf bench), d')"
      "i = (unat (curLeaf2 ?d) + 1) mod length (leafs2 ?d)" "unat (curLeaf2 d') = i"
      "leafs2 d' = (leafs2 ?d)[i := connected_leaf (leafs2 ?d ! i)]" "calls2 d' = Suc (calls2 ?d)"
      "open2 d' = open2 ?d @ [(calls2 ?d, cb, bench, c)]" "replies2 d' = replies2 ?d" "dropped2 d' = dropped2 ?d"
    using db2_key_put_ok [of ?d c cb bench] ok unfolding sys2_ok_def by blast
  let ?s = "s\<lparr>db2 := d', calls_on_wire := calls_on_wire s @ [(i, calls2 ?d, db2_to_leaf bench)], puts2 := ?Q\<rparr>"
  have n: "calls2 ?d = length ?P" and i: "i < length (leafs2 ?d)" using ok d'(2) by (simp_all add: sys2_ok_def)
  have new: "put_id ?Q (length ?P) = d2_request_id bench" "put_time ?Q (length ?P) = c"
    by (simp_all add: put_id_def put_time_def)
  have old: "\<forall>x \<in> set (open2 ?d). open_ok ?Q x" "\<forall>x \<in> set (calls_on_wire s). call_ok ?Q c x"
    "\<forall>l \<in> set (leaf_servers s). leaf2_ok ?Q c l" "\<forall>x \<in> set (replies2 ?d). reply2_ok ?Q c x"
    using ok c items_mono [of c c ?P _ "[(cb, bench, c)]"] leaf2_ok_mono [of ?P c _ c "[(cb, bench, c)]"]
    by (simp_all add: sys2_ok_def)
  have call: "call_ok ?Q c (i, calls2 ?d, db2_to_leaf bench)"
    by (simp add: call_ok_def n new db2_to_leaf_def)
  have fresh: "calls2 ?d \<notin> fst ` set (open2 ?d)"
    using ok n by (auto simp: sys2_ok_def open_ok_def)
  have wf: "\<forall>l \<in> set (leafs2 d'). leaf_wf l"
    using ok i by (auto simp: sys2_ok_def d'(4) dest: in_set_update)
  have opn: "open_ok ?Q (calls2 ?d, cb, bench, c)" by (simp add: open_ok_def n)
  have fly: "flying_ok (under_way s) (length ?P) (fst ` set (open2 ?d))"
    and acc: "mset (map fst ?P) =
      mset (map (fst \<circ> snd) (open2 ?d)) + mset (map fst (replies2 ?d)) + mset (map fst (dropped2 ?d))"
    using ok by (simp_all add: sys2_ok_def)
  have sv: "length (leaf_servers s) = length (leafs2 ?d)" "length (leafs2 ?d) < 4294967296"
    "distinct (map fst (open2 ?d))" "\<forall>x \<in> set (calls_on_wire s). fst x < length (leafs2 ?d)"
    using ok by (simp_all add: sys2_ok_def)
  have sel: "db2 ?s = d'" "calls_on_wire ?s = calls_on_wire s @ [(i, calls2 ?d, db2_to_leaf bench)]"
    "puts2 ?s = ?Q" "leaf_servers ?s = leaf_servers s" "clock2 ?s = c"
    using c by simp_all
  have inv: "sys2_ok ?s"
    unfolding sys2_ok_def sel
  proof (intro conjI)
    show "leafs2 d' \<noteq> []" using i by (auto simp: d'(4))
    show "length (leafs2 d') < 4294967296" using sv(2) by (simp add: d'(4))
    show "unat (curLeaf2 d') < length (leafs2 d')" using i by (simp add: d'(3,4))
    show "length (leaf_servers s) = length (leafs2 d')" using sv(1) by (simp add: d'(4))
    show "calls2 d' = length ?Q" by (simp add: d'(5) n)
    show "distinct (map fst (open2 d'))" using sv(3) fresh by (simp add: d'(6))
    show "\<forall>x \<in> set (open2 d'). open_ok ?Q x" using old(1) opn by (simp add: d'(6))
    show "\<forall>x \<in> set (calls_on_wire s @ [(i, calls2 ?d, db2_to_leaf bench)]). call_ok ?Q c x \<and> fst x < length (leafs2 d')"
      using old(2) call i sv(4) by (simp add: d'(4))
    show "\<forall>x \<in> set (replies2 d'). reply2_ok ?Q c x" using old(4) by (simp add: d'(7))
    have "under_way ?s = add_mset (length ?P) (under_way s)" by (simp add: under_way_def n)
    then show "flying_ok (under_way ?s) (length ?Q) (fst ` set (open2 d'))"
      using flying_new [OF fly] by (simp add: d'(6) n)
    show "mset (map fst ?Q) =
        mset (map (fst \<circ> snd) (open2 d')) + mset (map fst (replies2 d')) + mset (map fst (dropped2 d'))"
      using acc by (simp add: d'(6-8))
  qed (fact wf, fact old(3))
  have ev: "sys2_event c (Put_Arrives cb bench) s = Inr ?s"
    unfolding sys2_event_def event2.case d'(1) bindE_simps prod.case by (rule refl)
  show ?thesis by (rule exI [of _ ?s], rule conjI [OF ev conjI [OF inv sel(3)]])
qed

lemma call_arrives_ok:
  assumes ok: "sys2_ok s" and c: "clock2 s = c"
  shows "\<exists>s'. sys2_event c (Call_Arrives k) s = Inr s' \<and> sys2_ok s' \<and> puts2 s' = puts2 s"
proof (cases "k < length (calls_on_wire s)")
  case True
  obtain i f r where x: "calls_on_wire s ! k = (i, f, r)" by (cases "calls_on_wire s ! k")
  then have "(i, f, r) \<in> set (calls_on_wire s)" using True by (metis nth_mem)
  then have call: "call_ok (puts2 s) c (i, f, r)" and i: "i < length (leaf_servers s)"
    using ok c by (auto simp: sys2_ok_def)
  let ?w = "take k (calls_on_wire s) @ drop (Suc k) (calls_on_wire s)"
  let ?t = "s\<lparr>calls_on_wire := ?w\<rparr>"
  let ?s = "on_leaf i (leaf2_call c f r) ?t"
  have "\<forall>l \<in> set (leaf_servers ?t). leaf2_ok (puts2 s) c l" using ok c by (simp add: sys2_ok_def)
  then have leafs: "\<forall>l \<in> set (leaf_servers ?s). leaf2_ok (puts2 s) c l"
    by (rule on_leaf_ok) (use call in \<open>auto simp: leaf2_ok_def leaf2_call_def queue_ok_def call_ok_def\<close>)
  have "sum_list (map held (leaf_servers ?s)) + held (leaf_servers s ! i) =
      sum_list (map held (leaf_servers s)) + held (leaf2_call c f r (leaf_servers s ! i))"
    using on_leaf_held [of i ?t] i by simp
  then have "sum_list (map held (leaf_servers ?s)) = add_mset f (sum_list (map held (leaf_servers s)))"
    by (simp add: held_def leaf2_call_def ac_simps)
  moreover have "mset (map (fst \<circ> snd) (calls_on_wire s)) = add_mset f (mset (map (fst \<circ> snd) ?w))"
    using mset_take_nth [OF True, of "fst \<circ> snd"] by (simp add: x)
  ultimately have "under_way ?s = under_way s" by (simp add: under_way_def)
  moreover have "set ?w \<subseteq> set (calls_on_wire s)" by (auto dest: in_set_takeD in_set_dropD)
  then have "\<forall>x \<in> set ?w. call_ok (puts2 s) c x \<and> fst x < length (leafs2 (db2 s))"
    using ok c unfolding sys2_ok_def by blast
  ultimately have "sys2_ok ?s"
    using ok leafs c unfolding sys2_ok_def by simp
  then show ?thesis using True x by (simp add: sys2_event_def)
qed (use ok in \<open>simp add: sys2_event_def\<close>)

lemma answer_arrives_ok:
  assumes ok: "sys2_ok s" and c: "clock2 s = c"
  shows "\<exists>s'. sys2_event c (Answer_Arrives i k) s = Inr s' \<and> sys2_ok s' \<and> puts2 s' = puts2 s"
proof (cases "i < length (leaf_servers s) \<and> k < length (answers2 (leaf_servers s ! i))")
  case True
  let ?l = "leaf_servers s ! i" and ?P = "puts2 s" and ?d = "db2 s"
  obtain f r where x: "answers2 ?l ! k = (f, r)" by (cases "answers2 ?l ! k")
  have leafs: "\<forall>l \<in> set (leaf_servers s). leaf2_ok ?P c l" using ok c by (simp add: sys2_ok_def)
  then have "leaf2_ok ?P c ?l" using True by simp
  then have a: "answer_ok ?P c (f, r)" using True x by (metis leaf2_ok_def nth_mem)
  have acc: "mset (map fst (answers2 ?l)) = add_mset f (mset (map fst (take k (answers2 ?l) @ drop (Suc k) (answers2 ?l))))"
    using mset_take_nth [of k "answers2 ?l" fst] True x by simp
  have dist: "distinct (map fst (open2 ?d))" using ok by (simp add: sys2_ok_def)
  let ?drop = "\<lambda>l. l\<lparr>answers2 := take k (answers2 l) @ drop (Suc k) (answers2 l)\<rparr>"
  have after: "sys2_ok (on_leaf i ?drop (s\<lparr>db2 := d'\<rparr>))"
    if d': "leafs2 d' = leafs2 ?d" "curLeaf2 d' = curLeaf2 ?d" "calls2 d' = calls2 ?d"
        "open2 d' = filter (\<lambda>x. fst x \<noteq> f) (open2 ?d)" "\<forall>x \<in> set (replies2 d'). reply2_ok ?P c x"
        "mset (map fst ?P) = mset (map (fst \<circ> snd) (open2 d')) + mset (map fst (replies2 d')) + mset (map fst (dropped2 d'))"
    for d'
  proof -
    let ?t = "s\<lparr>db2 := d'\<rparr>"
    let ?s = "on_leaf i ?drop ?t"
    have "\<forall>l \<in> set (leaf_servers ?t). leaf2_ok ?P c l" using leafs by simp
    then have leafs': "\<forall>l \<in> set (leaf_servers ?s). leaf2_ok ?P c l"
      by (rule on_leaf_ok) (auto simp: leaf2_ok_def dest: in_set_takeD in_set_dropD)
    have "sum_list (map held (leaf_servers ?s)) + held ?l = sum_list (map held (leaf_servers s)) + held (?drop ?l)"
      using on_leaf_held [of i ?t ?drop] True by simp
    moreover have "held ?l = add_mset f (held (?drop ?l))" unfolding held_def using acc by simp
    ultimately have "add_mset f (sum_list (map held (leaf_servers ?s))) = sum_list (map held (leaf_servers s))" by simp
    then have w: "under_way s = add_mset f (under_way ?s)" by (simp add: under_way_def [of s] under_way_def [of ?s])
    have "flying_ok (under_way s) (length ?P) (fst ` set (open2 ?d))" using ok by (simp add: sys2_ok_def)
    then have "flying_ok (under_way ?s) (length ?P) (fst ` set (open2 ?d) - {f})" unfolding w by (rule flying_gone)
    then have "flying_ok (under_way ?s) (length ?P) (fst ` set (open2 d'))" by (rule flying_less) (auto simp: d'(4))
    moreover have "distinct (map fst (open2 d'))" using dist by (simp add: d'(4) distinct_map_filter)
    ultimately show ?thesis
      using ok c leafs' d' unfolding sys2_ok_def by simp
  qed
  show ?thesis
  proof (cases "map_of (open2 ?d) f")
    case None
    then have "filter (\<lambda>x. fst x \<noteq> f) (open2 ?d) = open2 ?d" by (auto simp: filter_id_conv map_of_eq_None_iff)
    then have "sys2_ok (on_leaf i ?drop (s\<lparr>db2 := ?d\<rparr>))"
      by (intro after) (use ok c in \<open>simp_all add: sys2_ok_def\<close>)
    moreover have "sys2_event c (Answer_Arrives i k) s = Inr (on_leaf i ?drop (s\<lparr>db2 := ?d\<rparr>))"
      using True None by (simp add: sys2_event_def x db2_answered_def)
    ultimately show ?thesis by simp
  next
    case (Some y)
    obtain cb bench t0 where look: "map_of (open2 ?d) f = Some (cb, bench, t0)" using Some by (cases y) simp
    then have "(f, cb, bench, t0) \<in> set (open2 ?d)" by (rule map_of_SomeD)
    then have P: "f < length ?P" "?P ! f = (cb, bench, t0)" using ok by (auto simp: sys2_ok_def open_ok_def)
    let ?ret = "\<lparr>d2_request_id = l2_request_id r, d2_db_latency = c - t0, d2_leaf_latency = l2_leaf_latency r,
       d2_io_latency = l2_io_latency r, d2_cpu_consumed = l2_cpu_consumed r, d2_data = [], d2_data_size = 0\<rparr>"
    have "db2_reply (c - t0) bench r = Inr ?ret"
      using a P by (simp add: db2_reply_def answer_ok_def put_id_def)
    then have ans: "db2_answered c f r ?d = Inr (?d\<lparr>open2 := filter (\<lambda>x. fst x \<noteq> f) (open2 ?d),
        replies2 := replies2 ?d @ [(cb, ?ret)]\<rparr>)" (is "_ = Inr ?d'")
      by (simp add: db2_answered_def look)
    have fk: "mset (open2 ?d) = add_mset (f, cb, bench, t0) (mset (filter (\<lambda>x. fst x \<noteq> f) (open2 ?d)))"
      by (rule filter_key [OF dist look])
    have puts: "mset (map fst ?P) =
        mset (map (fst \<circ> snd) (open2 ?d')) + mset (map fst (replies2 ?d')) + mset (map fst (dropped2 ?d'))"
      using ok arg_cong [OF fk, of "image_mset (fst \<circ> snd)"] by (simp add: sys2_ok_def)
    have rep: "reply2_ok ?P c (cb, ?ret)"
      unfolding reply2_ok_def using a P nth_mem [OF P(1)]
      by (intro exI [of _ bench] exI [of _ t0]) (auto simp: answer_ok_def put_id_def put_time_def)
    have "sys2_ok (on_leaf i ?drop (s\<lparr>db2 := ?d'\<rparr>))"
      by (rule after) (use ok c rep puts in \<open>auto simp: sys2_ok_def\<close>)
    moreover have "sys2_event c (Answer_Arrives i k) s = Inr (on_leaf i ?drop (s\<lparr>db2 := ?d'\<rparr>))"
      using True by (simp add: sys2_event_def x ans)
    ultimately show ?thesis by simp
  qed
next
  case False
  then have "sys2_event c (Answer_Arrives i k) s = Inr s" unfolding sys2_event_def event2.case by (rule if_not_P)
  with ok show ?thesis by simp
qed

lemma channel_closed_ok:
  assumes "sys2_ok s"
  shows "\<exists>s'. sys2_event c (Channel_Closed i) s = Inr s' \<and> sys2_ok s' \<and> puts2 s' = puts2 s"
proof -
  let ?ls = "leafs2 (db2 s)"
  have "\<forall>l \<in> set (?ls[i := channelClosed (?ls ! i)]). leaf_wf l"
    using assms leaf_wf_ops(3) [of "?ls ! i"] by (auto simp: sys2_ok_def dest: in_set_update)
  then show ?thesis using assms by (simp add: sys2_event_def sys2_ok_def under_way_def)
qed

lemma call_fails_ok:
  assumes ok: "sys2_ok s"
  shows "\<exists>s'. sys2_event c (Call_Fails f) s = Inr s' \<and> sys2_ok s' \<and> puts2 s' = puts2 s"
proof (cases "map_of (open2 (db2 s)) f")
  case (Some y)
  let ?d = "db2 s"
  obtain cb bench t0 where look: "map_of (open2 ?d) f = Some (cb, bench, t0)" using Some by (cases y) simp
  let ?d' = "?d\<lparr>open2 := filter (\<lambda>x. fst x \<noteq> f) (open2 ?d), dropped2 := dropped2 ?d @ [(cb, bench)]\<rparr>"
  have dist: "distinct (map fst (open2 ?d))" using ok by (simp add: sys2_ok_def)
  have fk: "mset (open2 ?d) = add_mset (f, cb, bench, t0) (mset (filter (\<lambda>x. fst x \<noteq> f) (open2 ?d)))"
    by (rule filter_key [OF dist look])
  have puts: "mset (map fst (puts2 s)) =
      mset (map (fst \<circ> snd) (open2 ?d')) + mset (map fst (replies2 ?d')) + mset (map fst (dropped2 ?d'))"
    using ok arg_cong [OF fk, of "image_mset (fst \<circ> snd)"] by (simp add: sys2_ok_def)
  have "flying_ok (under_way s) (length (puts2 s)) (fst ` set (open2 ?d))" using ok by (simp add: sys2_ok_def)
  then have "flying_ok (under_way s) (length (puts2 s)) (fst ` set (open2 ?d'))" by (rule flying_less) auto
  moreover have "distinct (map fst (open2 ?d'))" using dist by (simp add: distinct_map_filter)
  moreover have "under_way (s\<lparr>db2 := ?d'\<rparr>) = under_way s" by (simp add: under_way_def)
  ultimately have "sys2_ok (s\<lparr>db2 := ?d'\<rparr>)" using ok puts unfolding sys2_ok_def by auto
  then show ?thesis by (simp add: sys2_event_def db2_failed_def look)
qed (use ok in \<open>simp add: sys2_event_def db2_failed_def\<close>)

lemma sys2_step_ok:
  assumes "sys2_ok s"
  shows "\<exists>s' Q. sys2_step ev s = Inr s' \<and> sys2_ok s' \<and> puts2 s' = puts2 s @ Q"
proof -
  obtain t e where ev: "ev = (t, e)" by (cases ev)
  let ?c = "max t (clock2 s)"
  let ?s = "s\<lparr>clock2 := ?c\<rparr>"
  have ok: "sys2_ok ?s" by (rule clock_ok [OF assms]) simp
  have c: "clock2 ?s = ?c" by simp
  have loc: "sys2_ok (on_leaf i f ?s)"
    if "\<And>l. leaf2_ok (puts2 ?s) ?c l \<Longrightarrow> leaf2_ok (puts2 ?s) ?c (f l) \<and> held (f l) = held l" for i f
    by (rule local_step_ok [OF ok c that])
  have "\<exists>s' Q. sys2_event ?c e ?s = Inr s' \<and> sys2_ok s' \<and> puts2 s' = puts2 ?s @ Q"
  proof (cases e)
    case (Put_Arrives cb bench)
    then show ?thesis using put_arrives_ok [OF ok c] by blast
  next
    case (Call_Arrives k)
    then show ?thesis using call_arrives_ok [OF ok c] by (metis append_Nil2)
  next
    case (Answer_Arrives i k)
    then show ?thesis using answer_arrives_ok [OF ok c] by (metis append_Nil2)
  next
    case (Channel_Closed i)
    then show ?thesis using channel_closed_ok [OF ok] by (metis append_Nil2)
  next
    case (Call_Fails f)
    then show ?thesis using call_fails_ok [OF ok] by (metis append_Nil2)
  qed (use loc leaf2_steps in \<open>auto simp: sys2_event_def\<close>)
  then show ?thesis by (simp add: ev sys2_step_def Let_def)
qed


lemma sys2_start_ok:
  assumes "ls \<noteq> []" and "length ls < 4294967296" and "\<forall>l \<in> set ls. leaf_wf l"
  shows "sys2_ok (sys2_start ls)"
proof -
  have "held LeafHandler2_new = {#}" by (simp add: held_def LeafHandler2_new_def)
  then have "sum_list (map held (replicate n LeafHandler2_new)) = {#}" for n by (induction n) simp_all
  then show ?thesis
    using assms
    by (simp add: sys2_ok_def sys2_start_def DBHandler2_new_def under_way_def leaf2_ok_def LeafHandler2_new_def flying_ok_def)
qed

lemma sys2_run_ok: "sys2_ok s \<Longrightarrow> \<exists>t. foldE sys2_step evs s = Inr t \<and> sys2_ok t"
proof (induction evs arbitrary: s)
  case (Cons ev evs)
  from sys2_step_ok [OF Cons.prems, of ev] obtain u where "sys2_step ev s = Inr u" "sys2_ok u" by blast
  with Cons.IH show ?case by simp
qed simp

definition new_leafs :: "(string \<times> u32) list \<Rightarrow> Leaf list" where
  "new_leafs addrs = map (\<lambda>(ip, port). Leaf_new ip port) addrs"

text \<open>\<open>main\<close> of \<open>DB/DBServer.cpp\<close> up to the handler, for the value of its flag.\<close>

definition db2_main :: "string \<Rightarrow> db2_state result option" where
  "db2_main flag = map_option (\<lambda>r. bindE r (\<lambda>ls. Inr (DBHandler2_new ls))) (parse_leafs flag)"

lemma db2_main_printed:
  assumes "addrs \<noteq> []" and "\<forall>l \<in> set addrs. plain_ip (fst l)"
    and "length (print_leafs (map (map_prod id unat) addrs)) < npos"
  shows "db2_main (print_leafs (map (map_prod id unat) addrs)) = Some (Inr (db2 (sys2_start (new_leafs addrs))))"
  using parse_printed_addrs [OF assms] by (simp add: db2_main_def sys2_start_def new_leafs_def)

lemma new_leafs_ok:
  assumes "addrs \<noteq> []" and "length addrs < 4294967296"
  shows "sys2_ok (sys2_start (new_leafs addrs))"
  by (rule sys2_start_ok) (use assms in \<open>auto simp: new_leafs_def leaf_wf_ops\<close>)

section \<open>What the system guarantees\<close>



text \<open>What the client makes of an answer: it adds the 64-bit signed figures to unsigned sums.\<close>

definition client2_reply :: "DBData2 \<Rightarrow> bench_reply" where
  "client2_reply r =
     \<lparr>reply_id = d2_request_id r, reply_length = length (d2_data r), reply_db = of_int (d2_db_latency r),
      reply_leaf = of_int (d2_leaf_latency r), reply_io = of_int (d2_io_latency r), reply_cpu = of_int (d2_cpu_consumed r)\<rparr>"

lemma timed_client2_reply:
  assumes "d2_io_latency r = 0" and "0 \<le> d2_cpu_consumed r" and "d2_cpu_consumed r \<le> d2_leaf_latency r"
    and "d2_leaf_latency r \<le> d2_db_latency r" and "sent + d2_db_latency r \<le> recv"
    and "recv - sent \<le> int B" and "B < 18446744073709551616"
  shows "timed B (recv, client2_reply r) sent"
proof -
  have u: "unat (of_int x :: u64) = nat x" if "0 \<le> x" "x \<le> d2_db_latency r" for x
    by (rule unat_of_int_u64) (use that assms in linarith)+
  have "0 \<le> d2_leaf_latency r" "0 \<le> d2_db_latency r" using assms by linarith+
  with assms u show ?thesis
    by (simp add: timed_def client2_reply_def word_le_nat_alt del: of_nat_unat) linarith
qed

text \<open>
  Every answer of the servers is one the client's report can rely on: it belongs to a put that arrived, has
  its identifier and no data, and seen from any client that sent the put before it arrived and gets
  the answer after it was given, CPU and IO time lie within the leaf's latency, that within the database
  server's, and that within the client's own measurement.
\<close>

theorem exp2_answers_timed:
  assumes "addrs \<noteq> []" and "length addrs < 4294967296"
    and "foldE sys2_step evs (sys2_start (new_leafs addrs)) = Inr s" and "(cb, r) \<in> set (replies2 (db2 s))"
  shows "\<exists>bench t0. (cb, bench, t0) \<in> set (puts2 s) \<and> reply_id (client2_reply r) = d2_request_id bench \<and>
    reply_length (client2_reply r) = 0 \<and>
    (\<forall>sent recv B. sent \<le> t0 \<and> clock2 s \<le> recv \<and> recv - sent \<le> int B \<and> B < 18446744073709551616 \<longrightarrow>
       timed B (recv, client2_reply r) sent)"
proof -
  have "sys2_ok s" using sys2_run_ok [OF new_leafs_ok [OF assms(1,2)], of evs] assms(3) by auto
  with assms(4) have "reply2_ok (puts2 s) (clock2 s) (cb, r)" by (auto simp: sys2_ok_def)
  then obtain bench t0 where r: "(cb, bench, t0) \<in> set (puts2 s)" "d2_request_id r = d2_request_id bench"
      "d2_data r = []" "d2_io_latency r = 0" "0 \<le> d2_cpu_consumed r" "d2_cpu_consumed r \<le> d2_leaf_latency r"
      "d2_leaf_latency r \<le> d2_db_latency r" "t0 + d2_db_latency r \<le> clock2 s"
    by (auto simp: reply2_ok_def)
  have "timed B (recv, client2_reply r) sent"
    if w: "sent \<le> t0" "clock2 s \<le> recv" "recv - sent \<le> int B" "B < 18446744073709551616" for sent recv B
    by (rule timed_client2_reply [OF r(4-7) _ w(3,4)]) (use r(8) w in linarith)
  then show ?thesis
    using r(1-3) by (intro exI [of _ bench] exI [of _ t0] conjI allI impI) (simp_all add: client2_reply_def)
qed

text \<open>A put that is passed to the only leaf at time 4, burns from 5 to 8, and is answered at 9 and 12.\<close>

definition demo2 :: "(int \<times> event2) list" where
  "demo2 = [(3, Put_Arrives 7 (put2 1)), (4, Call_Arrives 0), (5, Worker_Starts 0), (8, Worker_Done 0 0),
     (9, Leaf_Answers 0 0), (12, Answer_Arrives 0 0)]"

lemma demo2_run:
  "\<exists>s. foldE sys2_step demo2 (sys2_start (new_leafs [(''a'', 1)])) = Inr s \<and> clock2 s = 12 \<and>
     replies2 (db2 s) = [(7, \<lparr>d2_request_id = 1, d2_db_latency = 9, d2_leaf_latency = 5, d2_io_latency = 0,
       d2_cpu_consumed = 3, d2_data = [], d2_data_size = 0\<rparr>)]"
  by (simp add: demo2_def sys2_start_def new_leafs_def DBHandler2_new_def LeafHandler2_new_def sys2_step_def
      sys2_event_def db2_key_put_def getLeaf2_def isConnected_def connect_def getConnection_def Leaf_new_def Let_def
      on_leaf_def leaf2_call_def leaf2_start_def leaf2_burnt_def leaf2_respond_def leaf2_reply_def
      db2_answered_def db2_reply_def db2_to_leaf_def put2_def)

theorem exp2_answers_timed_witness:
  "\<exists>s r bench t0. foldE sys2_step demo2 (sys2_start (new_leafs [(''a'', 1)])) = Inr s \<and>
     (7, r) \<in> set (replies2 (db2 s)) \<and> (7, bench, t0) \<in> set (puts2 s) \<and>
     reply_id (client2_reply r) = d2_request_id bench"
proof -
  obtain s r where "foldE sys2_step demo2 (sys2_start (new_leafs [(''a'', 1)])) = Inr s" "(7, r) \<in> set (replies2 (db2 s))"
    using demo2_run by auto
  with exp2_answers_timed [of "[(''a'', 1)]" demo2 s 7 r] show ?thesis by auto
qed


end
