(* ===== verification/Exp2Experiment.thy ===== *)
theory Exp2Experiment
  imports Exp2System
begin

text \<open>
  The whole experiment of \<open>fbthrift/exp2\<close>: any number of benchmark threads (\<open>BenchClient\<close>), each with its own
  connection, the database server and its leaf servers (\<open>Exp2System\<close>), and the puts and answers under way
  between clients and servers. A client's loop is taken apart into its sends, the replies it
  handles while its event loop polls, and the end of a round; all steps of all programs interleave.
  The callback a put has at the database server is the number of the client it came from.
\<close>

section \<open>The system\<close>

datatype client_pc = Sending nat | Polling | Finished

record put_client =
  bench :: bench_state
  pc :: client_pc

record trial =
  clients :: "put_client list"
  servers :: sys2
  sent :: "(nat \<times> DBData2) list"         \<comment> \<open>puts on their way: client and request\<close>
  inbox :: "(nat \<times> DBData2) list"        \<comment> \<open>answers on their way back\<close>

datatype exp_event =
    Client_Sends nat
  | Put_Delivered nat              \<comment> \<open>which of those sent\<close>
  | Server_Event event2
  | Client_Receives nat            \<comment> \<open>which of those answered\<close>
  | Client_Loops nat

text \<open>The request that iteration \<open>i\<close> of the send loop builds.\<close>

definition client2_put :: "u32 \<Rightarrow> u64 \<Rightarrow> DBData2" where
  "client2_put sz i =
     \<lparr>d2_request_id = i, d2_db_latency = 0, d2_leaf_latency = 0, d2_io_latency = 0, d2_cpu_consumed = 0,
      d2_data = replicate (unat sz) 65, d2_data_size = ucast sz\<rparr>"

definition new_client :: "u32 \<Rightarrow> u64 \<Rightarrow> put_client" where
  "new_client qd n = \<lparr>bench = bench_start qd, pc = (if 0 < n then Sending 0 else Finished)\<rparr>"

definition client_sends :: "int \<Rightarrow> put_client \<Rightarrow> put_client" where
  "client_sends now cl =
     (case pc cl of
        Sending i \<Rightarrow>
          if i < unat (req_tosend (bench cl)) then cl\<lparr>bench := send_request now i (bench cl), pc := Sending (Suc i)\<rparr>
          else cl\<lparr>pc := Polling\<rparr>
      | _ \<Rightarrow> cl)"

definition client_put_now :: "u32 \<Rightarrow> put_client \<Rightarrow> DBData2 list" where
  "client_put_now sz cl =
     (case pc cl of
        Sending i \<Rightarrow> if i < unat (req_tosend (bench cl)) then [client2_put sz (req_id (bench cl))] else []
      | _ \<Rightarrow> [])"

definition client_loops :: "u32 \<Rightarrow> u64 \<Rightarrow> put_client \<Rightarrow> put_client" where
  "client_loops qd n cl =
     (case pc cl of
        Polling \<Rightarrow>
          let b = next_tosend qd n (bench cl) in
          cl\<lparr>bench := b, pc := (if req_complete b < n then Sending 0 else Finished)\<rparr>
      | _ \<Rightarrow> cl)"

definition set_client :: "nat \<Rightarrow> put_client \<Rightarrow> trial \<Rightarrow> trial" where
  "set_client c cl x = x\<lparr>clients := (clients x)[c := cl]\<rparr>"

text \<open>What the servers do; answers they give set out for the clients.\<close>

definition servers_do :: "int \<Rightarrow> event2 \<Rightarrow> trial \<Rightarrow> trial result" where
  "servers_do now e x =
     bindE (sys2_event now e (servers x)) (\<lambda>s.
       Inr (x\<lparr>servers := s, inbox := inbox x @ drop (length (replies2 (db2 (servers x)))) (replies2 (db2 s))\<rparr>))"

definition exp_event :: "u32 \<Rightarrow> u64 \<Rightarrow> u32 \<Rightarrow> int \<Rightarrow> exp_event \<Rightarrow> trial \<Rightarrow> trial result" where
  "exp_event qd n sz now e x =
     (case e of
        Client_Sends c \<Rightarrow>
          Inr (if c < length (clients x) then
                 (set_client c (client_sends now (clients x ! c)) x)
                   \<lparr>sent := sent x @ map (Pair c) (client_put_now sz (clients x ! c))\<rparr>
               else x)
      | Put_Delivered k \<Rightarrow>
          if k < length (sent x) then
            servers_do now (Put_Arrives (fst (sent x ! k)) (snd (sent x ! k)))
              (x\<lparr>sent := take k (sent x) @ drop (Suc k) (sent x)\<rparr>)
          else Inr x
      | Server_Event e2 \<Rightarrow> (case e2 of Put_Arrives cb p \<Rightarrow> Inr x | _ \<Rightarrow> servers_do now e2 x)
      | Client_Receives k \<Rightarrow>
          if k < length (inbox x) \<and> fst (inbox x ! k) < length (clients x) \<and>
             pc (clients x ! fst (inbox x ! k)) = Polling then
            let c = fst (inbox x ! k); cl = clients x ! c in
            bindE (receive_reply (\<lambda>k. k = 0) (now, client2_reply (snd (inbox x ! k))) (bench cl)) (\<lambda>b.
              Inr ((set_client c (cl\<lparr>bench := b\<rparr>) x)\<lparr>inbox := take k (inbox x) @ drop (Suc k) (inbox x)\<rparr>))
          else Inr x
      | Client_Loops c \<Rightarrow>
          Inr (if c < length (clients x) then set_client c (client_loops qd n (clients x ! c)) x else x))"

definition exp_step :: "u32 \<Rightarrow> u64 \<Rightarrow> u32 \<Rightarrow> int \<times> exp_event \<Rightarrow> trial \<Rightarrow> trial result" where
  "exp_step qd n sz ev x =
     (case ev of (t, e) \<Rightarrow>
        let now = max t (clock2 (servers x)) in
        exp_event qd n sz now e (x\<lparr>servers := (servers x)\<lparr>clock2 := now\<rparr>\<rparr>))"

definition exp_start :: "u32 \<Rightarrow> u64 \<Rightarrow> nat \<Rightarrow> (string \<times> u32) list \<Rightarrow> trial" where
  "exp_start qd n nt addrs =
     \<lparr>clients = replicate nt (new_client qd n), servers = sys2_start (new_leafs addrs), sent = [], inbox = []\<rparr>"

section \<open>A client between two steps\<close>

definition client_ok :: "u32 \<Rightarrow> u64 \<Rightarrow> put_client \<Rightarrow> bool" where
  "client_ok qd n cl \<longleftrightarrow>
     bench_ids (bench cl) \<and>
     unat (req_sched (bench cl)) = unat (req_complete (bench cl)) + unat (req_out (bench cl)) \<and>
     unat (req_out (bench cl)) \<le> unat qd \<and> unat (req_sched (bench cl)) \<le> unat n + unat qd \<and>
     (case pc cl of
        Sending i \<Rightarrow>
          i \<le> unat (req_tosend (bench cl)) \<and>
          unat (req_out (bench cl)) + (unat (req_tosend (bench cl)) - i) \<le> unat qd \<and>
          unat (req_sched (bench cl)) + (unat (req_tosend (bench cl)) - i) \<le> unat n + unat qd
      | Polling \<Rightarrow> True
      | Finished \<Rightarrow> unat n \<le> unat (req_complete (bench cl)))"

lemma new_client_ok: "bench_ok qd n \<Longrightarrow> client_ok qd n (new_client qd n)"
  using bench_inv_start [of qd n]
  by (auto simp: client_ok_def new_client_def bench_inv_def bench_start_def bench_ok_def word_less_nat_alt)

lemma client_sends_ok:
  assumes ok: "bench_ok qd n" and cl: "client_ok qd n cl" and pc: "pc cl = Sending i" and i: "i < unat (req_tosend (bench cl))"
  shows "client_ok qd n (client_sends now cl)"
proof -
  let ?b = "bench cl" and ?t = "send_request now i (bench cl)"
  have c: "bench_ids ?b" "unat (req_sched ?b) = unat (req_complete ?b) + unat (req_out ?b)"
    "unat (req_out ?b) + (unat (req_tosend ?b) - i) \<le> unat qd"
    "unat (req_sched ?b) + (unat (req_tosend ?b) - i) \<le> unat n + unat qd"
    using cl pc by (auto simp: client_ok_def)
  have lim: "unat n + unat qd < 18446744073709551615" using ok by (simp add: bench_ok_def)
  have "bench_ids ?t" by (rule send_request_ids [OF c(1)]) (use c(2-4) lim i in linarith)+
  moreover have "unat (req_sched ?b + 1) = unat (req_sched ?b) + 1" "unat (req_out ?b + 1) = unat (req_out ?b) + 1"
    using unat_add_u64 [of "req_sched ?b" 1] unat_add_u64 [of "req_out ?b" 1] c lim i by simp_all
  moreover have "req_sched ?t = req_sched ?b + 1" "req_out ?t = req_out ?b + 1" "req_complete ?t = req_complete ?b"
    "req_tosend ?t = req_tosend ?b"
    by (simp_all add: send_request_def Let_def)
  ultimately show ?thesis
    using c pc i by (simp add: client_ok_def client_sends_def) linarith
qed

lemma client_sends_new:
  assumes cfg: "bench_ok qd n" and cl: "client_ok qd n cl" and pc: "pc cl = Sending i" "i < unat (req_tosend (bench cl))"
  shows "req_id (bench cl) \<notin> in_time (bench cl)"
    and "in_time (bench (client_sends now cl)) = insert (req_id (bench cl)) (in_time (bench cl))"
proof -
  let ?b = "bench cl"
  have ids: "req_id ?b = req_sched ?b + 1" "\<forall>j \<in> in_time ?b. 1 \<le> unat j \<and> unat j \<le> unat (req_sched ?b)"
  proof -
    have "bench_ids ?b" using cl by (simp add: client_ok_def)
    then show "req_id ?b = req_sched ?b + 1" "\<forall>j \<in> in_time ?b. 1 \<le> unat j \<and> unat j \<le> unat (req_sched ?b)"
      by (simp_all add: bench_ids_def)
  qed
  have "unat (req_sched ?b) < 18446744073709551615" using cl cfg by (simp add: client_ok_def bench_ok_def)
  then have "unat (req_id ?b) = unat (req_sched ?b) + 1" using unat_add_u64 [of "req_sched ?b" 1] by (simp add: ids(1))
  then show "req_id ?b \<notin> in_time ?b" using ids(2) by auto
  show "in_time (bench (client_sends now cl)) = insert (req_id ?b) (in_time ?b)"
    using pc by (simp add: client_sends_def send_request_def Let_def in_time_def)
qed

lemma client_sends_quiet:
  assumes "client_ok qd n cl" and "\<not> (\<exists>i. pc cl = Sending i \<and> i < unat (req_tosend (bench cl)))"
  shows "client_ok qd n (client_sends now cl)" and "bench (client_sends now cl) = bench cl"
  using assms by (auto simp: client_sends_def client_ok_def split: client_pc.splits)

lemma client_receives_ok:
  assumes cl: "client_ok qd n cl" and pc: "pc cl = Polling" and id: "reply_id r \<in> in_time (bench cl)"
    and data: "data_ok (reply_length r)"
  shows "\<exists>b. receive_reply data_ok (now, r) (bench cl) = Inr b \<and> client_ok qd n (cl\<lparr>bench := b\<rparr>) \<and>
    in_time b = in_time (bench cl) - {reply_id r} \<and> unat (req_complete b) = Suc (unat (req_complete (bench cl)))"
proof -
  let ?b = "bench cl"
  have c: "bench_ids ?b" "unat (req_sched ?b) = unat (req_complete ?b) + unat (req_out ?b)"
    using cl by (simp_all add: client_ok_def)
  from receive_reply_ok [of data_ok "(now, r)" ?b] id data obtain t where
    t: "receive_reply data_ok (now, r) ?b = Inr t" "in_time t = in_time ?b - {reply_id r}" "req_sched t = req_sched ?b"
      "req_id t = req_id ?b" "wire t = wire ?b" "req_out t = req_out ?b - 1" "req_complete t = req_complete ?b + 1"
    by auto
  have a: "answers_out data_ok [(now, r)] ?b" using id data by (simp add: answers_out_def)
  have out: "1 \<le> unat (req_out ?b)" using answers_bound [OF c(1) a] by simp
  have "bench_ids t"
    by (rule receive_all_ids [OF c(1) a]) (use t in simp_all)
  moreover have "unat (req_out t) = unat (req_out ?b) - 1" using unat_sub_of_nat [of 1 "req_out ?b"] out by (simp add: t(6))
  moreover have "unat (req_sched ?b) < 2 ^ LENGTH(64)" by (rule unsigned_less)
  then have "unat (req_complete t) = unat (req_complete ?b) + 1"
    using unat_add_u64 [of "req_complete ?b" 1] c(2) out by (simp add: t(7))
  moreover have le: "unat (req_out ?b) \<le> unat qd" "unat (req_sched ?b) \<le> unat n + unat qd"
    using cl by (simp_all add: client_ok_def)
  moreover have "unat (req_out ?b) - 1 \<le> unat qd" using le(1) by linarith
  ultimately show ?thesis using c pc out t by (simp add: client_ok_def)
qed

lemma client_loops_ok:
  assumes ok: "bench_ok qd n" and cl: "client_ok qd n cl" and pc: "pc cl = Polling"
  shows "client_ok qd n (client_loops qd n cl)"
proof -
  let ?b = "bench cl" and ?t = "next_tosend qd n (bench cl)"
  have c: "bench_ids ?b" "unat (req_sched ?b) = unat (req_complete ?b) + unat (req_out ?b)"
    "unat (req_out ?b) \<le> unat qd" "unat (req_sched ?b) \<le> unat n + unat qd"
    using cl by (simp_all add: client_ok_def)
  have lim: "unat qd \<le> 2147483647" "unat n < 9223372036854775808" using ok by (simp_all add: bench_ok_def)
  note f = next_tosend_frame [of qd n ?b]
  have "unat (req_tosend ?t) =
      (if unat qd - unat (req_out ?b) + unat (req_complete ?b) > unat n then unat n - unat (req_complete ?b)
       else unat qd - unat (req_out ?b))"
    by (rule next_tosend_value [OF c(3)]) (use c lim in linarith)
  moreover have "bench_ids ?t" using c(1) f by (simp add: bench_ids_def)
  ultimately show ?thesis
    using c f pc by (auto simp: client_ok_def client_loops_def Let_def word_less_nat_alt)
qed

section \<open>What is under way\<close>

text \<open>
  Every request under way, as the client it belongs to and its identifier; and those lost because the
  database server's call failed, of which the client never hears.
\<close>

definition items :: "trial \<Rightarrow> (nat \<times> u64) list" where
  "items x =
     map (\<lambda>y. (fst y, d2_request_id (snd y))) (sent x) @
     map (\<lambda>y. (fst (snd y), d2_request_id (fst (snd (snd y))))) (open2 (db2 (servers x))) @
     map (\<lambda>y. (fst y, d2_request_id (snd y))) (inbox x) @
     map (\<lambda>y. (fst y, d2_request_id (snd y))) (dropped2 (db2 (servers x)))"

text \<open>Every request that the clients wait for.\<close>

definition awaited :: "put_client list \<Rightarrow> (nat \<times> u64) set" where
  "awaited cls = {(c, i). c < length cls \<and> i \<in> in_time (bench (cls ! c))}"

definition sent_at :: "put_client list \<Rightarrow> nat \<times> u64 \<Rightarrow> int \<Rightarrow> bool" where
  "sent_at cls y t0 \<longleftrightarrow> fst y < length cls \<and> req_time (bench (cls ! fst y)) (snd y) = Some t0"

definition sent_ok :: "put_client list \<Rightarrow> int \<Rightarrow> nat \<times> DBData2 \<Rightarrow> bool" where
  "sent_ok cls clk y \<longleftrightarrow> (\<exists>t0. sent_at cls (fst y, d2_request_id (snd y)) t0 \<and> 0 \<le> t0 \<and> t0 \<le> clk)"

definition handled_ok :: "put_client list \<Rightarrow> nat \<times> nat \<times> DBData2 \<times> int \<Rightarrow> bool" where
  "handled_ok cls y \<longleftrightarrow>
     (\<exists>t0. sent_at cls (fst (snd y), d2_request_id (fst (snd (snd y)))) t0 \<and> 0 \<le> t0 \<and> t0 \<le> snd (snd (snd y)))"

definition inbox_ok :: "put_client list \<Rightarrow> int \<Rightarrow> nat \<times> DBData2 \<Rightarrow> bool" where
  "inbox_ok cls clk y \<longleftrightarrow>
     (\<exists>t0. sent_at cls (fst y, d2_request_id (snd y)) t0 \<and> 0 \<le> t0 \<and> t0 + d2_db_latency (snd y) \<le> clk) \<and>
     d2_data (snd y) = [] \<and> d2_io_latency (snd y) = 0 \<and> 0 \<le> d2_cpu_consumed (snd y) \<and>
     d2_cpu_consumed (snd y) \<le> d2_leaf_latency (snd y) \<and> d2_leaf_latency (snd y) \<le> d2_db_latency (snd y)"

text \<open>The sums of a client are exact as long as the experiment has not lasted longer than \<open>B\<close>.\<close>

definition sums_in_time :: "nat \<Rightarrow> int \<Rightarrow> put_client \<Rightarrow> bool" where
  "sums_in_time B clk cl \<longleftrightarrow> (clk \<le> int B \<longrightarrow> sums_ok B (unat (req_complete (bench cl))) (sums (bench cl)))"

definition trial_ok :: "u32 \<Rightarrow> u64 \<Rightarrow> nat \<Rightarrow> trial \<Rightarrow> bool" where
  "trial_ok qd n B x \<longleftrightarrow>
     sys2_ok (servers x) \<and> 0 \<le> clock2 (servers x) \<and>
     (\<forall>cl \<in> set (clients x). client_ok qd n cl \<and> sums_in_time B (clock2 (servers x)) cl) \<and>
     distinct (items x) \<and> set (items x) = awaited (clients x) \<and>
     (\<forall>y \<in> set (sent x). sent_ok (clients x) (clock2 (servers x)) y) \<and>
     (\<forall>y \<in> set (open2 (db2 (servers x))). handled_ok (clients x) y) \<and>
     (\<forall>y \<in> set (inbox x). inbox_ok (clients x) (clock2 (servers x)) y)"

lemma items_member:
  "y \<in> set (sent x) \<Longrightarrow> (fst y, d2_request_id (snd y)) \<in> set (items x)"
  "z \<in> set (open2 (db2 (servers x))) \<Longrightarrow> (fst (snd z), d2_request_id (fst (snd (snd z)))) \<in> set (items x)"
  "w \<in> set (inbox x) \<Longrightarrow> (fst w, d2_request_id (snd w)) \<in> set (items x)"
  by (simp_all add: items_def)

text \<open>A change of the clients that keeps the send times of what is under way.\<close>

lemma times_kept:
  assumes "\<forall>y \<in> set (items x). \<forall>t0. sent_at cls y t0 \<longrightarrow> sent_at cls' y t0"
  shows "y \<in> set (sent x) \<Longrightarrow> sent_ok cls clk y \<Longrightarrow> sent_ok cls' clk y"
    and "z \<in> set (open2 (db2 (servers x))) \<Longrightarrow> handled_ok cls z \<Longrightarrow> handled_ok cls' z"
    and "w \<in> set (inbox x) \<Longrightarrow> inbox_ok cls clk w \<Longrightarrow> inbox_ok cls' clk w"
  unfolding sent_ok_def handled_ok_def inbox_ok_def by (meson assms items_member)+

lemma trial_clock:
  assumes "trial_ok qd n B x" and "clock2 (servers x) \<le> c"
  shows "trial_ok qd n B (x\<lparr>servers := (servers x)\<lparr>clock2 := c\<rparr>\<rparr>)"
proof -
  have "sys2_ok ((servers x)\<lparr>clock2 := c\<rparr>)" using clock_ok assms by (simp add: trial_ok_def)
  moreover have "items (x\<lparr>servers := (servers x)\<lparr>clock2 := c\<rparr>\<rparr>) = items x" by (simp add: items_def)
  moreover have "sums_in_time B c cl" if "sums_in_time B (clock2 (servers x)) cl" for cl
    using that assms(2) by (auto simp: sums_in_time_def)
  moreover have "sent_ok (clients x) c y" if "sent_ok (clients x) (clock2 (servers x)) y" for y
    using that assms(2) unfolding sent_ok_def by (meson order_trans)
  moreover have "inbox_ok (clients x) c y" if "inbox_ok (clients x) (clock2 (servers x)) y" for y
    using that assms(2) unfolding inbox_ok_def by (meson order_trans)
  ultimately show ?thesis using assms by (auto simp: trial_ok_def)
qed

section \<open>Steps of a client\<close>

lemma set_client_simps [simp]:
  "clients (set_client c cl x) = (clients x)[c := cl]" "servers (set_client c cl x) = servers x"
  "sent (set_client c cl x) = sent x" "inbox (set_client c cl x) = inbox x" "items (set_client c cl x) = items x"
  by (simp_all add: set_client_def items_def)

text \<open>Steps that change neither what a client waits for nor its sums.\<close>

lemma quiet_client:
  assumes ok: "trial_ok qd n B x" and c: "c < length (clients x)" and cl: "client_ok qd n cl"
    and same: "req_time (bench cl) = req_time (bench (clients x ! c))" "sums (bench cl) = sums (bench (clients x ! c))"
      "req_complete (bench cl) = req_complete (bench (clients x ! c))"
  shows "trial_ok qd n B (set_client c cl x)"
proof -
  let ?cls = "(clients x)[c := cl]"
  have at: "sent_at ?cls y t0 = sent_at (clients x) y t0" for y t0
    using same(1) c by (cases "fst y = c") (simp_all add: sent_at_def)
  have aw: "awaited ?cls = awaited (clients x)"
    using same(1) c by (auto simp: awaited_def in_time_def nth_list_update split: if_splits)
  have "sums_in_time B k cl = sums_in_time B k (clients x ! c)" for k
    by (simp add: sums_in_time_def same(2,3))
  then have "\<forall>y \<in> set ?cls. client_ok qd n y \<and> sums_in_time B (clock2 (servers x)) y"
    using ok cl c nth_mem [OF c] by (auto simp: trial_ok_def dest!: in_set_update)
  then show ?thesis
    using ok unfolding trial_ok_def sent_ok_def handled_ok_def inbox_ok_def set_client_simps aw at by simp
qed

lemma send_ok:
  assumes ok: "trial_ok qd n B x" and cfg: "bench_ok qd n" and c: "c < length (clients x)"
    and pc: "pc (clients x ! c) = Sending i" and i: "i < unat (req_tosend (bench (clients x ! c)))"
  shows "trial_ok qd n B ((set_client c (client_sends (clock2 (servers x)) (clients x ! c)) x)
    \<lparr>sent := sent x @ [(c, client2_put sz (req_id (bench (clients x ! c))))]\<rparr>)"
proof -
  let ?cl = "clients x ! c" and ?now = "clock2 (servers x)"
  let ?b = "bench ?cl" and ?new = "client_sends ?now ?cl" and ?p = "client2_put sz (req_id (bench ?cl))"
  let ?cls = "(clients x)[c := ?new]"
  have cl: "client_ok qd n ?cl" "sums_in_time B ?now ?cl" using ok nth_mem [OF c] by (auto simp: trial_ok_def)
  have new: "bench ?new = send_request ?now i ?b" using pc i by (simp add: client_sends_def)
  have f: "req_time (bench ?new) = (req_time ?b)(req_id ?b \<mapsto> ?now)" "sums (bench ?new) = sums ?b"
    "req_complete (bench ?new) = req_complete ?b"
    unfolding new by (simp_all add: send_request_def Let_def)
  have fresh: "req_id ?b \<notin> in_time ?b" by (rule client_sends_new(1) [OF cfg cl(1) pc i])
  have aw: "awaited ?cls = insert (c, req_id ?b) (awaited (clients x))"
    using c by (auto simp: awaited_def in_time_def nth_list_update f(1) split: if_splits)
  have fresh': "(c, req_id ?b) \<notin> set (items x)" using ok fresh by (simp add: trial_ok_def awaited_def)
  have at: "sent_at ?cls (d, j) t0" if "(d, j) \<in> set (items x)" "sent_at (clients x) (d, j) t0" for d j t0
    using that c fresh' by (cases "d = c") (auto simp: sent_at_def f(1))
  have at': "sent_at ?cls (c, req_id ?b) ?now" using c by (simp add: sent_at_def f(1))
  then have new_ok: "sent_ok ?cls ?now (c, ?p)"
    using ok by (auto simp: sent_ok_def client2_put_def trial_ok_def)
  have "client_ok qd n ?new" by (rule client_sends_ok [OF cfg cl(1) pc i])
  moreover have "sums_in_time B ?now ?new" using cl(2) by (simp add: sums_in_time_def f)
  ultimately have all: "\<forall>y \<in> set ?cls. client_ok qd n y \<and> sums_in_time B ?now y"
    using ok by (auto simp: trial_ok_def dest!: in_set_update)
  let ?x = "(set_client c ?new x)\<lparr>sent := sent x @ [(c, ?p)]\<rparr>"
  have sel: "clients ?x = ?cls" "servers ?x = servers x" "sent ?x = sent x @ [(c, ?p)]" "inbox ?x = inbox x"
    by simp_all
  have it: "mset (items ?x) = add_mset (c, req_id ?b) (mset (items x))"
    by (simp add: items_def client2_put_def)
  have "\<forall>y \<in> set (items x). \<forall>t0. sent_at (clients x) y t0 \<longrightarrow> sent_at ?cls y t0"
    using at by auto
  note t = times_kept [OF this]
  show ?thesis
    unfolding trial_ok_def sel
  proof (intro conjI)
    show "distinct (items ?x)"
      using ok fresh' mset_eq_imp_distinct_iff [of "items ?x" "(c, req_id ?b) # items x"] it
      by (simp add: trial_ok_def)
    show "set (items ?x) = awaited ?cls"
      using ok aw arg_cong [OF it, of set_mset] by (simp add: trial_ok_def)
    show "\<forall>y \<in> set (sent x @ [(c, ?p)]). sent_ok ?cls ?now y"
      using ok t(1) new_ok by (simp add: trial_ok_def)
    show "\<forall>y \<in> set (open2 (db2 (servers x))). handled_ok ?cls y" using ok t(2) by (simp add: trial_ok_def)
    show "\<forall>y \<in> set (inbox x). inbox_ok ?cls ?now y" using ok t(3) by (simp add: trial_ok_def)
  qed (use ok all in \<open>simp_all add: trial_ok_def\<close>)
qed


lemma receive_ok:
  assumes ok: "trial_ok qd n B x" and fit: "B * (unat n + unat qd) < 18446744073709551616"
    and k: "k < length (inbox x)" and y: "inbox x ! k = (c, r)" and pc: "pc (clients x ! c) = Polling"
  shows "\<exists>b. receive_reply (\<lambda>k. k = 0) (clock2 (servers x), client2_reply r) (bench (clients x ! c)) = Inr b \<and>
    trial_ok qd n B ((set_client c ((clients x ! c)\<lparr>bench := b\<rparr>) x)\<lparr>inbox := take k (inbox x) @ drop (Suc k) (inbox x)\<rparr>)"
proof -
  let ?cl = "clients x ! c" and ?now = "clock2 (servers x)" and ?id = "d2_request_id r"
  let ?in = "take k (inbox x) @ drop (Suc k) (inbox x)"
  have "(c, r) \<in> set (inbox x)" using k y by (metis nth_mem)
  then have "inbox_ok (clients x) ?now (c, r)" using ok by (simp add: trial_ok_def)
  then obtain t0 where t0: "c < length (clients x)" "req_time (bench ?cl) ?id = Some t0" "0 \<le> t0"
      "t0 + d2_db_latency r \<le> ?now" and fig: "d2_data r = []" "d2_io_latency r = 0" "0 \<le> d2_cpu_consumed r"
      "d2_cpu_consumed r \<le> d2_leaf_latency r" "d2_leaf_latency r \<le> d2_db_latency r"
    by (auto simp: inbox_ok_def sent_at_def)
  have cl: "client_ok qd n ?cl" "sums_in_time B ?now ?cl" using ok nth_mem [OF t0(1)] by (auto simp: trial_ok_def)
  have rep: "reply_id (client2_reply r) = ?id" "reply_length (client2_reply r) = 0"
    by (simp_all add: client2_reply_def fig(1))
  obtain b where b: "receive_reply (\<lambda>k. k = 0) (?now, client2_reply r) (bench ?cl) = Inr b"
      "client_ok qd n (?cl\<lparr>bench := b\<rparr>)" "in_time b = in_time (bench ?cl) - {?id}"
      "unat (req_complete b) = Suc (unat (req_complete (bench ?cl)))"
    using client_receives_ok [OF cl(1) pc, of "client2_reply r" "\<lambda>k. k = 0" ?now] t0(2) rep by (auto simp: in_time_def)
  have f: "req_time b = (req_time (bench ?cl))(?id := None)"
    "sums b = \<lparr>sum_client = sum_client (sums (bench ?cl)) + of_int (?now - t0),
       sum_db = sum_db (sums (bench ?cl)) + reply_db (client2_reply r),
       sum_leaf = sum_leaf (sums (bench ?cl)) + reply_leaf (client2_reply r),
       sum_io = sum_io (sums (bench ?cl)) + reply_io (client2_reply r),
       sum_cpu = sum_cpu (sums (bench ?cl)) + reply_cpu (client2_reply r)\<rparr>"
    using b(1) t0(2) rep by (auto simp: receive_reply_def Let_def simp del: of_int_diff)
  let ?new = "?cl\<lparr>bench := b\<rparr>" and ?cls = "(clients x)[c := ?cl\<lparr>bench := b\<rparr>]"
  have "?now \<le> int B \<longrightarrow> sums_ok B (unat (req_complete b)) (sums b)"
  proof
    assume lim: "?now \<le> int B"
    have "Suc (unat (req_complete (bench ?cl))) \<le> unat n + unat qd" using b(2,4) by (simp add: client_ok_def)
    then have fit': "B * Suc (unat (req_complete (bench ?cl))) < 18446744073709551616"
      using fit mult_le_mono2 order_le_less_trans by blast
    then have "B < 18446744073709551616" by simp
    then have "timed B (?now, client2_reply r) t0"
      by (intro timed_client2_reply fig(2-5) t0(4)) (use lim t0(3) in simp_all)
    from sums_ok_add [OF _ this fit'] cl(2) lim show "sums_ok B (unat (req_complete b)) (sums b)"
      unfolding b(4) f(2) by (simp add: sums_in_time_def del: of_int_diff)
  qed
  then have "sums_in_time B ?now ?new" by (simp add: sums_in_time_def)
  then have all: "\<forall>y \<in> set ?cls. client_ok qd n y \<and> sums_in_time B ?now y"
    using ok b(2) by (auto simp: trial_ok_def dest!: in_set_update)
  let ?x = "(set_client c ?new x)\<lparr>inbox := ?in\<rparr>"
  have sel: "clients ?x = ?cls" "servers ?x = servers x" "sent ?x = sent x" "inbox ?x = ?in" by simp_all
  have it: "mset (items x) = add_mset (c, ?id) (mset (items ?x))"
    using mset_take_nth [OF k, of "\<lambda>y. (fst y, d2_request_id (snd y))"] by (simp add: items_def y)
  have dist: "distinct ((c, ?id) # items ?x)"
    using ok mset_eq_imp_distinct_iff [of "items x" "(c, ?id) # items ?x"] it by (simp add: trial_ok_def)
  have set: "insert (c, ?id) (set (items ?x)) = awaited (clients x)"
    using ok arg_cong [OF it, of set_mset] by (simp add: trial_ok_def)
  have aw: "awaited ?cls = awaited (clients x) - {(c, ?id)}"
    using t0(1) by (auto simp: awaited_def in_time_def nth_list_update f(1) split: if_splits)
  have "sent_at ?cls (d, j) t" if "(d, j) \<in> set (items ?x)" "sent_at (clients x) (d, j) t" for d j t
    using that t0(1) dist by (cases "d = c") (auto simp: sent_at_def f(1))
  then have kept: "\<forall>y \<in> set (items ?x). \<forall>t. sent_at (clients x) y t \<longrightarrow> sent_at ?cls y t" by auto
  note t = times_kept [OF kept]
  have sub: "y \<in> set (inbox x)" if "y \<in> set ?in" for y using that by (auto dest: in_set_takeD in_set_dropD)
  have "trial_ok qd n B ?x"
    unfolding trial_ok_def sel
  proof (intro conjI)
    show "distinct (items ?x)" using dist by simp
    show "set (items ?x) = awaited ?cls" using set dist unfolding aw by auto
    show "\<forall>y \<in> set (sent x). sent_ok ?cls ?now y" using ok t(1) by (simp add: trial_ok_def)
    show "\<forall>y \<in> set (open2 (db2 (servers x))). handled_ok ?cls y" using ok t(2) by (simp add: trial_ok_def)
    show "\<forall>y \<in> set ?in. inbox_ok ?cls ?now y" using ok t(3) sub by (simp add: trial_ok_def)
  qed (use ok all in \<open>simp_all add: trial_ok_def\<close>)
  with b(1) show ?thesis by blast
qed


section \<open>Steps of the servers\<close>

lemma sys2_event_ok:
  assumes "sys2_ok s" and "clock2 s = c"
  shows "\<exists>s'. sys2_event c e s = Inr s' \<and> sys2_ok s'"
  using sys2_step_ok [OF assms(1), of "(c, e)"] assms(2) by (auto simp: sys2_step_def Let_def)

lemma sys2_event_clock: "sys2_event c e s = Inr s' \<Longrightarrow> clock2 s' = clock2 s"
  by (cases e) (auto simp: sys2_event_def result_simps split: if_splits prod.splits)

lemma put_effect:
  assumes "sys2_ok s" and "sys2_event c (Put_Arrives cb p) s = Inr s'"
  shows "\<exists>f. open2 (db2 s') = open2 (db2 s) @ [(f, cb, p, c)] \<and> replies2 (db2 s') = replies2 (db2 s) \<and>
    dropped2 (db2 s') = dropped2 (db2 s)"
proof -
  have ok: "leafs2 (db2 s) \<noteq> []" "length (leafs2 (db2 s)) < 4294967296" "unat (curLeaf2 (db2 s)) < length (leafs2 (db2 s))"
    "\<forall>l \<in> set (leafs2 (db2 s)). leaf_wf l"
    using assms(1) by (simp_all add: sys2_ok_def)
  from assms(2) obtain call d' where d: "db2_key_put True c cb p (db2 s) = Inr (call, d')" "db2 s' = d'"
    by (auto simp: sys2_event_def result_simps)
  with db2_key_put_ok [OF ok, of c cb p] show ?thesis by auto
qed

text \<open>An answer that arrives closes the call it belongs to.\<close>

lemma db2_answered_effect:
  assumes "distinct (map fst (open2 d))" and "db2_answered now f r d = Inr d'"
  shows "d' = d \<or>
    (\<exists>y ret. mset (open2 d) = add_mset y (mset (open2 d')) \<and> replies2 d' = replies2 d @ [(fst (snd y), ret)] \<and>
       dropped2 d' = dropped2 d \<and>
       d2_request_id ret = d2_request_id (fst (snd (snd y))) \<and> d2_db_latency ret = now - snd (snd (snd y)))"
proof (cases "map_of (open2 d) f")
  case (Some z)
  obtain cb p t0 where z: "z = (cb, p, t0)" by (cases z)
  with Some assms(2) obtain ret where ret: "db2_reply (now - t0) p r = Inr ret"
    and d': "d' = d\<lparr>open2 := filter (\<lambda>x. fst x \<noteq> f) (open2 d), replies2 := replies2 d @ [(cb, ret)]\<rparr>"
    by (auto simp: db2_answered_def result_simps)
  have "mset (open2 d) = add_mset (f, z) (mset (filter (\<lambda>x. fst x \<noteq> f) (open2 d)))"
    by (rule filter_key [OF assms(1) Some])
  moreover have "d2_request_id ret = d2_request_id p" "d2_db_latency ret = now - t0"
    using ret by (auto simp: db2_reply_def result_simps)
  ultimately show ?thesis unfolding d' z by (intro disjI2 exI [of _ "(f, cb, p, t0)"] exI [of _ ret]) simp
qed (use assms(2) in \<open>simp add: db2_answered_def\<close>)

text \<open>A call that fails loses it.\<close>

lemma db2_failed_effect:
  assumes "distinct (map fst (open2 d))"
  shows "db2_failed f d = d \<or>
    (\<exists>y. mset (open2 d) = add_mset y (mset (open2 (db2_failed f d))) \<and> replies2 (db2_failed f d) = replies2 d \<and>
       dropped2 (db2_failed f d) = dropped2 d @ [(fst (snd y), fst (snd (snd y)))])"
proof (cases "map_of (open2 d) f")
  case (Some z)
  obtain cb p t0 where z: "z = (cb, p, t0)" by (cases z)
  have "mset (open2 d) = add_mset (f, z) (mset (filter (\<lambda>x. fst x \<noteq> f) (open2 d)))"
    by (rule filter_key [OF assms Some])
  then show ?thesis using Some by (intro disjI2 exI [of _ "(f, z)"]) (simp add: db2_failed_def z)
qed (simp add: db2_failed_def)

definition unchanged :: "db2_state \<Rightarrow> db2_state \<Rightarrow> bool" where
  "unchanged d d' \<longleftrightarrow> open2 d' = open2 d \<and> replies2 d' = replies2 d \<and> dropped2 d' = dropped2 d"

definition answers :: "int \<Rightarrow> db2_state \<Rightarrow> db2_state \<Rightarrow> bool" where
  "answers c d d' \<longleftrightarrow>
     (\<exists>y ret. mset (open2 d) = add_mset y (mset (open2 d')) \<and> replies2 d' = replies2 d @ [(fst (snd y), ret)] \<and>
        dropped2 d' = dropped2 d \<and>
        d2_request_id ret = d2_request_id (fst (snd (snd y))) \<and> d2_db_latency ret = c - snd (snd (snd y)))"

definition loses :: "db2_state \<Rightarrow> db2_state \<Rightarrow> bool" where
  "loses d d' \<longleftrightarrow>
     (\<exists>y. mset (open2 d) = add_mset y (mset (open2 d')) \<and> replies2 d' = replies2 d \<and>
        dropped2 d' = dropped2 d @ [(fst (snd y), fst (snd (snd y)))])"

lemma server_effect:
  assumes "sys2_ok s" and "sys2_event c e s = Inr s'" and "\<And>cb p. e \<noteq> Put_Arrives cb p"
  shows "unchanged (db2 s) (db2 s') \<or> answers c (db2 s) (db2 s') \<or> loses (db2 s) (db2 s')"
proof -
  have dist: "distinct (map fst (open2 (db2 s)))" using assms(1) by (simp add: sys2_ok_def)
  consider "db2 s' = db2 s" | (closed) i where "e = Channel_Closed i" | (fails) f where "e = Call_Fails f"
    | (answer) i k where "e = Answer_Arrives i k"
    using assms(2,3) by (cases e) (auto simp: sys2_event_def split: prod.splits if_splits)
  then show ?thesis
  proof cases
    case fails
    then have "db2 s' = db2_failed f (db2 s)" using assms(2) by (auto simp: sys2_event_def)
    with db2_failed_effect [OF dist, of f] show ?thesis by (auto simp: unchanged_def loses_def)
  next
    case answer
    show ?thesis
    proof (cases "db2 s' = db2 s")
      case False
      then obtain f r where "db2_answered c f r (db2 s) = Inr (db2 s')"
        using assms(2) answer by (auto simp: sys2_event_def result_simps split: prod.splits if_splits)
      from db2_answered_effect [OF dist this] False show ?thesis by (auto simp: answers_def)
    qed (simp add: unchanged_def)
  qed (use assms(2) in \<open>auto simp: sys2_event_def unchanged_def\<close>)
qed

text \<open>A change of the servers under which every request under way stays so.\<close>

lemma servers_change:
  assumes ok: "trial_ok qd n B x" and s: "sys2_ok s" "clock2 s = clock2 (servers x)"
    and it: "mset (items (x\<lparr>servers := s, sent := S, inbox := I\<rparr>)) = mset (items x)"
    and S: "set S \<subseteq> set (sent x)" and opn: "\<forall>y \<in> set (open2 (db2 s)). handled_ok (clients x) y"
    and I: "\<forall>y \<in> set I. inbox_ok (clients x) (clock2 (servers x)) y"
  shows "trial_ok qd n B (x\<lparr>servers := s, sent := S, inbox := I\<rparr>)"
proof -
  let ?x = "x\<lparr>servers := s, sent := S, inbox := I\<rparr>"
  have "distinct (items ?x)" using ok mset_eq_imp_distinct_iff [OF it] by (simp add: trial_ok_def)
  moreover have "set (items ?x) = awaited (clients x)" using ok mset_eq_setD [OF it] by (simp add: trial_ok_def)
  moreover have "\<forall>y \<in> set S. sent_ok (clients x) (clock2 (servers x)) y" using ok S by (auto simp: trial_ok_def)
  ultimately show ?thesis
    using ok s opn I unfolding trial_ok_def trial.simps by (simp add: s)
qed


lemma servers_do_ok:
  assumes ok: "trial_ok qd n B x" and c: "clock2 (servers x) = c" and e: "\<And>cb p. e \<noteq> Put_Arrives cb p"
  shows "\<exists>x'. servers_do c e x = Inr x' \<and> trial_ok qd n B x'"
proof -
  have s: "sys2_ok (servers x)" using ok by (simp add: trial_ok_def)
  from sys2_event_ok [OF s c] obtain s' where s': "sys2_event c e (servers x) = Inr s'" "sys2_ok s'" by blast
  let ?I = "inbox x @ drop (length (replies2 (db2 (servers x)))) (replies2 (db2 s'))"
  let ?x = "x\<lparr>servers := s', sent := sent x, inbox := ?I\<rparr>"
  have clk: "clock2 s' = clock2 (servers x)" by (rule sys2_event_clock [OF s'(1)])
  have opn: "\<forall>y \<in> set (open2 (db2 (servers x))). handled_ok (clients x) y"
    and inb: "\<forall>y \<in> set (inbox x). inbox_ok (clients x) (clock2 (servers x)) y"
    using ok by (simp_all add: trial_ok_def)
  have "trial_ok qd n B ?x"
    using server_effect [OF s s'(1) e]
  proof (elim disjE)
    assume same: "unchanged (db2 (servers x)) (db2 s')"
    show ?thesis
      by (rule servers_change [OF ok s'(2) clk]) (use same opn inb in \<open>simp_all add: items_def unchanged_def\<close>)
  next
    assume "answers c (db2 (servers x)) (db2 s')"
    then obtain y ret where y: "mset (open2 (db2 (servers x))) = add_mset y (mset (open2 (db2 s')))"
      "replies2 (db2 s') = replies2 (db2 (servers x)) @ [(fst (snd y), ret)]"
      "dropped2 (db2 s') = dropped2 (db2 (servers x))"
      "d2_request_id ret = d2_request_id (fst (snd (snd y)))" "d2_db_latency ret = c - snd (snd (snd y))"
      unfolding answers_def by blast
    have set: "set (open2 (db2 (servers x))) = insert y (set (open2 (db2 s')))"
      using arg_cong [OF y(1), of set_mset] by simp
    have I: "?I = inbox x @ [(fst (snd y), ret)]" by (simp add: y(2))
    have "handled_ok (clients x) y" using opn set by simp
    moreover have "reply2_ok (puts2 s') c (fst (snd y), ret)" using s'(2) clk c by (simp add: sys2_ok_def y(2))
    ultimately have new: "inbox_ok (clients x) (clock2 (servers x)) (fst (snd y), ret)"
      using y(4,5) c by (auto simp: inbox_ok_def handled_ok_def reply2_ok_def)
    have it: "mset (items ?x) = mset (items x)"
      using arg_cong [OF y(1), of "image_mset (\<lambda>y. (fst (snd y), d2_request_id (fst (snd (snd y)))))"] y(3,4)
      by (simp add: items_def I del: drop_append)
    show ?thesis
      by (rule servers_change [OF ok s'(2) clk it]) (use set opn inb new in \<open>simp_all add: y(2)\<close>)
  next
    assume "loses (db2 (servers x)) (db2 s')"
    then obtain y where y: "mset (open2 (db2 (servers x))) = add_mset y (mset (open2 (db2 s')))"
      "replies2 (db2 s') = replies2 (db2 (servers x))"
      "dropped2 (db2 s') = dropped2 (db2 (servers x)) @ [(fst (snd y), fst (snd (snd y)))]"
      unfolding loses_def by blast
    have set: "set (open2 (db2 (servers x))) = insert y (set (open2 (db2 s')))"
      using arg_cong [OF y(1), of set_mset] by simp
    have it: "mset (items ?x) = mset (items x)"
      using arg_cong [OF y(1), of "image_mset (\<lambda>y. (fst (snd y), d2_request_id (fst (snd (snd y)))))"]
      by (simp add: items_def y(2,3))
    show ?thesis
      by (rule servers_change [OF ok s'(2) clk it]) (use set opn inb in \<open>simp_all add: y(2)\<close>)
  qed
  then show ?thesis by (simp add: servers_do_def s'(1))
qed

lemma put_delivered_ok:
  assumes ok: "trial_ok qd n B x" and c: "clock2 (servers x) = c" and k: "k < length (sent x)"
  shows "\<exists>x'. servers_do c (Put_Arrives (fst (sent x ! k)) (snd (sent x ! k)))
      (x\<lparr>sent := take k (sent x) @ drop (Suc k) (sent x)\<rparr>) = Inr x' \<and> trial_ok qd n B x'"
proof -
  let ?S = "take k (sent x) @ drop (Suc k) (sent x)" and ?y = "sent x ! k"
  have s: "sys2_ok (servers x)" using ok by (simp add: trial_ok_def)
  from sys2_event_ok [OF s c] obtain s' where
    s': "sys2_event c (Put_Arrives (fst ?y) (snd ?y)) (servers x) = Inr s'" "sys2_ok s'" by blast
  from put_effect [OF s s'(1)] obtain f where
    f: "open2 (db2 s') = open2 (db2 (servers x)) @ [(f, fst ?y, snd ?y, c)]"
      "replies2 (db2 s') = replies2 (db2 (servers x))" "dropped2 (db2 s') = dropped2 (db2 (servers x))" by blast
  let ?x = "x\<lparr>servers := s', sent := ?S, inbox := inbox x\<rparr>"
  have "?y \<in> set (sent x)" using k by simp
  then have "sent_ok (clients x) c ?y" using ok c by (simp add: trial_ok_def)
  then have new: "handled_ok (clients x) (f, fst ?y, snd ?y, c)" by (simp add: sent_ok_def handled_ok_def)
  have it: "mset (items ?x) = mset (items x)"
    using mset_take_nth [OF k, of "\<lambda>y. (fst y, d2_request_id (snd y))"] by (simp add: items_def f(1,3))
  have "set ?S \<subseteq> set (sent x)" by (auto dest: in_set_takeD in_set_dropD)
  then have "trial_ok qd n B ?x"
    by (intro servers_change [OF ok s'(2) sys2_event_clock [OF s'(1)] it])
      (use ok new in \<open>simp_all add: f(1) trial_ok_def\<close>)
  moreover have "?x = x\<lparr>sent := ?S, servers := s'\<rparr>" by (cases x) simp
  ultimately show ?thesis by (simp add: servers_do_def s'(1) f(2))
qed

section \<open>Whole runs\<close>

lemma exp_event_ok:
  assumes ok: "trial_ok qd n B x" and cfg: "bench_ok qd n" and fit: "B * (unat n + unat qd) < 18446744073709551616"
    and c: "clock2 (servers x) = now"
  shows "\<exists>x'. exp_event qd n sz now e x = Inr x' \<and> trial_ok qd n B x'"
proof (cases e)
  case (Client_Sends k)
  show ?thesis
  proof (cases "\<exists>i. k < length (clients x) \<and> pc (clients x ! k) = Sending i \<and> i < unat (req_tosend (bench (clients x ! k)))")
    case True
    then obtain i where i: "k < length (clients x)" "pc (clients x ! k) = Sending i"
      "i < unat (req_tosend (bench (clients x ! k)))" by blast
    from send_ok [OF ok cfg i] show ?thesis
      using i by (simp add: Client_Sends exp_event_def client_put_now_def c)
  next
    case False
    show ?thesis
    proof (cases "k < length (clients x)")
      case True
      then have cl: "client_ok qd n (clients x ! k)" using ok by (simp add: trial_ok_def)
      have none: "\<not> (\<exists>i. pc (clients x ! k) = Sending i \<and> i < unat (req_tosend (bench (clients x ! k))))"
        using True False by blast
      then have "client_put_now sz (clients x ! k) = []" by (auto simp: client_put_now_def split: client_pc.splits)
      with quiet_client [OF ok True client_sends_quiet(1) [OF cl none]] client_sends_quiet(2) [OF cl none] show ?thesis
        using True by (simp add: Client_Sends exp_event_def set_client_def)
    qed (use ok in \<open>simp add: Client_Sends exp_event_def\<close>)
  qed
next
  case (Put_Delivered k)
  then show ?thesis using put_delivered_ok [OF ok c, of k] ok by (simp add: exp_event_def)
next
  case (Server_Event e2)
  show ?thesis
  proof (cases "\<exists>cb p. e2 = Put_Arrives cb p")
    case False
    then have "exp_event qd n sz now e x = servers_do now e2 x"
      by (cases e2) (simp_all add: Server_Event exp_event_def)
    with servers_do_ok [OF ok c, of e2] False show ?thesis by auto
  qed (use ok in \<open>auto simp: Server_Event exp_event_def\<close>)
next
  case (Client_Receives k)
  obtain cl r where y: "inbox x ! k = (cl, r)" by fastforce
  show ?thesis
  proof (cases "k < length (inbox x) \<and> cl < length (clients x) \<and> pc (clients x ! cl) = Polling")
    case True
    with receive_ok [OF ok fit _ y] show ?thesis by (auto simp: Client_Receives exp_event_def y c Let_def)
  next
    case False
    then have "exp_event qd n sz now e x = Inr x" by (auto simp: Client_Receives exp_event_def y)
    with ok show ?thesis by simp
  qed
next
  case (Client_Loops k)
  show ?thesis
  proof (cases "k < length (clients x) \<and> pc (clients x ! k) = Polling")
    case True
    then have k: "k < length (clients x)" and pc: "pc (clients x ! k) = Polling" by simp_all
    have "client_ok qd n (clients x ! k)" using ok k by (simp add: trial_ok_def)
    from client_loops_ok [OF cfg this pc] have "trial_ok qd n B (set_client k (client_loops qd n (clients x ! k)) x)"
      by (rule quiet_client [OF ok k]) (simp_all add: client_loops_def pc Let_def next_tosend_def)
    with k show ?thesis by (simp add: Client_Loops exp_event_def)
  next
    case False
    then have "k < length (clients x) \<longrightarrow> client_loops qd n (clients x ! k) = clients x ! k"
      by (auto simp: client_loops_def split: client_pc.splits)
    then have "exp_event qd n sz now e x = Inr x" by (auto simp: Client_Loops exp_event_def set_client_def)
    with ok show ?thesis by simp
  qed
qed

lemma exp_step_ok:
  assumes "trial_ok qd n B x" and "bench_ok qd n" and "B * (unat n + unat qd) < 18446744073709551616"
  shows "\<exists>x'. exp_step qd n sz ev x = Inr x' \<and> trial_ok qd n B x'"
proof -
  obtain t e where ev: "ev = (t, e)" by (cases ev)
  let ?now = "max t (clock2 (servers x))"
  have "trial_ok qd n B (x\<lparr>servers := (servers x)\<lparr>clock2 := ?now\<rparr>\<rparr>)" by (rule trial_clock [OF assms(1)]) simp
  from exp_event_ok [OF this assms(2,3)] show ?thesis by (simp add: exp_step_def ev Let_def)
qed

lemma exp_run_ok:
  assumes "bench_ok qd n" and "B * (unat n + unat qd) < 18446744073709551616"
  shows "trial_ok qd n B x \<Longrightarrow> \<exists>x'. foldE (exp_step qd n sz) evs x = Inr x' \<and> trial_ok qd n B x'"
  by (rule foldE_total [where P = "trial_ok qd n B"]) (use exp_step_ok [OF _ assms] in blast)+

lemma exp_start_ok:
  assumes "addrs \<noteq> []" and "length addrs < 4294967296" and "bench_ok qd n"
  shows "trial_ok qd n B (exp_start qd n nt addrs)"
proof -
  have "awaited (replicate nt (new_client qd n)) = {}"
    by (auto simp: awaited_def new_client_def in_time_def bench_start_def)
  moreover have "sums_in_time B 0 (new_client qd n)"
    by (simp add: sums_in_time_def new_client_def bench_start_def sums_ok_def)
  ultimately show ?thesis
    using new_leafs_ok [OF assms(1,2)] new_client_ok [OF assms(3)]
    by (simp add: trial_ok_def exp_start_def items_def sys2_start_def DBHandler2_new_def)
qed


lemma exp_step_clients: "exp_step qd n sz ev x = Inr x' \<Longrightarrow> length (clients x') = length (clients x)"
  by (cases ev; cases "snd ev")
    (auto simp: exp_step_def exp_event_def servers_do_def Let_def result_simps split: if_splits event2.splits)

lemma exp_run:
  assumes "addrs \<noteq> []" and "length addrs < 4294967296" and "bench_ok qd n"
    and "B * (unat n + unat qd) < 18446744073709551616"
  obtains x where "foldE (exp_step qd n sz) evs (exp_start qd n nt addrs) = Inr x" "trial_ok qd n B x"
    "length (clients x) = nt"
proof -
  from exp_run_ok [OF assms(3,4) exp_start_ok [OF assms(1-3)], of sz evs nt] obtain x where
    x: "foldE (exp_step qd n sz) evs (exp_start qd n nt addrs) = Inr x" "trial_ok qd n B x" by blast
  have "length (clients x) = nt"
    by (rule foldE_invariant [OF x(1)]) (auto simp: exp_start_def dest: exp_step_clients)
  with x show ?thesis by (rule that)
qed




text \<open>One client, one leaf, one put, to the end.\<close>

definition demo_trial :: "(int \<times> exp_event) list" where
  "demo_trial =
     [(10, Client_Sends 0), (11, Client_Sends 0), (12, Put_Delivered 0), (13, Server_Event (Call_Arrives 0)),
      (14, Server_Event (Worker_Starts 0)), (15, Server_Event (Worker_Done 0 0)),
      (16, Server_Event (Leaf_Answers 0 0)), (17, Server_Event (Answer_Arrives 0 0)), (20, Client_Receives 0),
      (21, Client_Loops 0)]"

lemmas trial_evals = exp_step_def exp_event_def exp_start_def servers_do_def set_client_def client_sends_def
  client_put_now_def client_loops_def client2_put_def new_client_def bench_start_def send_request_def
  receive_reply_def next_tosend_def client2_reply_def sys2_start_def new_leafs_def DBHandler2_new_def
  LeafHandler2_new_def sys2_event_def db2_key_put_def getLeaf2_def isConnected_def connect_def getConnection_def
  Leaf_new_def Let_def on_leaf_def leaf2_call_def leaf2_start_def leaf2_burnt_def leaf2_respond_def
  leaf2_reply_def db2_answered_def db2_reply_def db2_to_leaf_def

lemma demo_trial_run:
  "\<exists>x. foldE (exp_step 1 1 1) demo_trial (exp_start 1 1 1 [(''a'', 1)]) = Inr x \<and> clock2 (servers x) = 21 \<and>
     (\<forall>cl \<in> set (clients x). pc cl = Finished) \<and> unat (sum_client (report_totals (map (sums \<circ> bench) (clients x)))) = 10"
  by (simp add: demo_trial_def trial_evals report_totals_def add_sums_def no_sums_def)



section \<open>Lost calls\<close>

text \<open>The puts of client \<open>c\<close> whose calls have failed.\<close>

definition lost_of :: "nat \<Rightarrow> trial \<Rightarrow> (nat \<times> DBData2) list" where
  "lost_of c x = filter (\<lambda>y. fst y = c) (dropped2 (db2 (servers x)))"

definition items_of :: "nat \<Rightarrow> trial \<Rightarrow> (nat \<times> u64) list" where
  "items_of c x = filter (\<lambda>y. fst y = c) (items x)"

lemma items_of_count:
  assumes "trial_ok qd n B x" and "c < length (clients x)"
  shows "length (items_of c x) = unat (req_out (bench (clients x ! c)))"
proof -
  have "client_ok qd n (clients x ! c)" using assms by (simp add: trial_ok_def)
  then have card: "card (in_time (bench (clients x ! c))) = unat (req_out (bench (clients x ! c)))"
    by (simp add: client_ok_def bench_ids_def)
  have "set (items_of c x) = Pair c ` in_time (bench (clients x ! c))"
    using assms by (auto simp: items_of_def trial_ok_def awaited_def)
  moreover have "distinct (items_of c x)" using assms(1) by (simp add: items_of_def trial_ok_def)
  ultimately have "length (items_of c x) = card (Pair c ` in_time (bench (clients x ! c)))"
    by (metis distinct_card)
  also have "\<dots> = card (in_time (bench (clients x ! c)))" by (rule card_image) (simp add: inj_on_def)
  finally show ?thesis by (simp add: card)
qed

lemma lost_and_inbox:
  "length (lost_of c x) + length (filter (\<lambda>y. fst y = c) (inbox x)) \<le> length (items_of c x)"
  by (simp add: lost_of_def items_of_def items_def filter_map comp_def)

lemma sys2_event_dropped:
  assumes "sys2_ok s" and "sys2_event c e s = Inr s'"
  shows "\<exists>Q. dropped2 (db2 s') = dropped2 (db2 s) @ Q"
proof (cases "\<exists>cb p. e = Put_Arrives cb p")
  case True
  then show ?thesis using put_effect [OF assms(1)] assms(2) by fastforce
next
  case False
  then show ?thesis using server_effect [OF assms] by (auto simp: unchanged_def answers_def loses_def)
qed

lemma servers_do_frame:
  assumes "sys2_ok (servers x)" and "servers_do now e x = Inr x'"
  shows "clients x' = clients x \<and> (\<exists>Q. dropped2 (db2 (servers x')) = dropped2 (db2 (servers x)) @ Q)"
  using assms(2) sys2_event_dropped [OF assms(1)] by (auto simp: servers_do_def result_simps)

lemma exp_event_dropped:
  assumes s: "sys2_ok (servers x)" and ev: "exp_event qd n sz now e x = Inr x'"
  shows "\<exists>Q. dropped2 (db2 (servers x')) = dropped2 (db2 (servers x)) @ Q"
proof (cases e)
  case (Put_Delivered i)
  have t: "sys2_ok (servers (x\<lparr>sent := S\<rparr>))" for S using s by simp
  show ?thesis using ev servers_do_frame [OF t] by (auto simp: Put_Delivered exp_event_def split: if_splits)
next
  case (Server_Event e2)
  show ?thesis
  proof (cases "\<exists>cb p. e2 = Put_Arrives cb p")
    case False
    then have "servers_do now e2 x = Inr x'" using ev by (cases e2) (simp_all add: Server_Event exp_event_def)
    from servers_do_frame [OF s this] show ?thesis by simp
  qed (use ev in \<open>auto simp: Server_Event exp_event_def\<close>)
qed (use ev in \<open>auto simp: exp_event_def Let_def result_simps split: if_splits\<close>)

definition stuck :: "u32 \<Rightarrow> u64 \<Rightarrow> nat \<Rightarrow> nat \<Rightarrow> nat \<Rightarrow> trial \<Rightarrow> bool" where
  "stuck qd n B c k x \<longleftrightarrow>
     trial_ok qd n B x \<and> c < length (clients x) \<and> unat qd \<le> length (lost_of c x) \<and>
     unat (req_complete (bench (clients x ! c))) = k"

text \<open>A client all of whose slots are lost receives nothing any more.\<close>

lemma stuck_inbox:
  assumes "stuck qd n B c k x"
  shows "\<forall>y \<in> set (inbox x). fst y \<noteq> c"
proof -
  have ok: "trial_ok qd n B x" and c: "c < length (clients x)" using assms by (simp_all add: stuck_def)
  have "client_ok qd n (clients x ! c)" using ok c by (simp add: trial_ok_def)
  then have "unat (req_out (bench (clients x ! c))) \<le> unat qd" by (simp add: client_ok_def)
  moreover have "unat qd \<le> length (lost_of c x)" using assms by (simp add: stuck_def)
  ultimately have "length (filter (\<lambda>y. fst y = c) (inbox x)) = 0"
    using items_of_count [OF ok c] lost_and_inbox [of c x] by linarith
  then show ?thesis by (simp add: filter_empty_conv)
qed

lemma stuck_event:
  assumes st: "stuck qd n B c k x" and ev: "exp_event qd n sz now e x = Inr x'" and ok': "trial_ok qd n B x'"
  shows "stuck qd n B c k x'"
proof -
  have s: "sys2_ok (servers x)" using st by (simp add: stuck_def trial_ok_def)
  have loops: "req_complete (bench (client_loops qd n cl)) = req_complete (bench cl)"
    "req_complete (bench (client_sends now cl)) = req_complete (bench cl)" for cl
    by (simp_all add: client_loops_def client_sends_def next_tosend_def send_request_def Let_def split: client_pc.splits)
  have "length (clients x') = length (clients x) \<and>
      req_complete (bench (clients x' ! c)) = req_complete (bench (clients x ! c))"
  proof (cases e)
    case (Client_Receives i)
    show ?thesis
    proof (cases "i < length (inbox x)")
      case True
      then have "fst (inbox x ! i) \<noteq> c" using stuck_inbox [OF st] by auto
      then show ?thesis
        using ev by (auto simp: Client_Receives exp_event_def Let_def result_simps split: if_splits)
    qed (use ev in \<open>simp add: Client_Receives exp_event_def\<close>)
  next
    case (Client_Sends i)
    then show ?thesis using ev loops by (auto simp: exp_event_def nth_list_update)
  next
    case (Client_Loops i)
    then show ?thesis using ev loops by (auto simp: exp_event_def nth_list_update)
  qed (use ev in \<open>auto simp: exp_event_def servers_do_def result_simps split: if_splits event2.splits\<close>)
  with st ok' exp_event_dropped [OF s ev] show ?thesis by (auto simp: stuck_def lost_of_def)
qed


lemma stuck_step:
  assumes st: "stuck qd n B c k x" and cfg: "bench_ok qd n" "B * (unat n + unat qd) < 18446744073709551616"
    and ev: "exp_step qd n sz ev x = Inr x'"
  shows "stuck qd n B c k x'"
proof -
  obtain t e where e: "ev = (t, e)" by (cases ev)
  let ?now = "max t (clock2 (servers x))"
  let ?x = "x\<lparr>servers := (servers x)\<lparr>clock2 := ?now\<rparr>\<rparr>"
  have ok: "trial_ok qd n B x" using st by (simp add: stuck_def)
  then have "trial_ok qd n B ?x" by (rule trial_clock) simp
  then have "stuck qd n B c k ?x" using st by (simp add: stuck_def lost_of_def)
  moreover have "exp_event qd n sz ?now e ?x = Inr x'" using ev by (simp add: exp_step_def e Let_def)
  moreover have "trial_ok qd n B x'" using exp_step_ok [OF ok cfg, of sz ev] ev by auto
  ultimately show ?thesis by (rule stuck_event)
qed

text \<open>
  C10. A put whose call failed is never given up by its client, which has no handler for errors: once
  as many of a client's puts as its queue depth have been lost, and it needs more replies, it goes round its loop
  for ever. Whatever happens from then on, it completes no further request and never finishes.
\<close>

theorem exp2_lost_calls_block:
  assumes "addrs \<noteq> []" and "length addrs < 4294967296"
    and "1 \<le> unat qd" and "unat qd \<le> 2147483647" and "unat n < 9223372036854775808"
    and "foldE (exp_step qd n sz) evs (exp_start qd n nt addrs) = Inr x" and "c < nt"
    and "unat qd \<le> length (lost_of c x)" and "req_complete (bench (clients x ! c)) < n"
    and "foldE (exp_step qd n sz) evs' x = Inr x'"
  shows "pc (clients x' ! c) \<noteq> Finished \<and>
    req_complete (bench (clients x' ! c)) = req_complete (bench (clients x ! c))"
proof -
  let ?k = "unat (req_complete (bench (clients x ! c)))"
  have cfg: "bench_ok qd n" using assms(3-5) by (simp add: bench_ok_def)
  from exp_run [OF assms(1,2) cfg, of 0 sz evs nt] assms(6) have
    "trial_ok qd n 0 x" "length (clients x) = nt" by auto
  with assms(7,8) have "stuck qd n 0 c ?k x" by (simp add: stuck_def)
  then have st: "stuck qd n 0 c ?k x'"
    by (rule foldE_invariant [OF assms(10)]) (rule stuck_step [OF _ cfg], simp_all)
  then have "client_ok qd n (clients x' ! c)" "unat (req_complete (bench (clients x' ! c))) = ?k"
    by (simp_all add: stuck_def trial_ok_def)
  moreover have "?k < unat n" using assms(9) by (simp add: word_less_nat_alt)
  ultimately show ?thesis by (auto simp: client_ok_def intro: word_unat_eq_iff [THEN iffD2])
qed

lemma lost_trial_run:
  "\<exists>x. foldE (exp_step 1 1 1) [(10, Client_Sends 0), (11, Client_Sends 0), (12, Put_Delivered 0),
       (13, Server_Event (Call_Fails 0))] (exp_start 1 1 1 [(''a'', 1)]) = Inr x \<and>
     length (lost_of 0 x) = 1 \<and> req_complete (bench (clients x ! 0)) = 0 \<and>
     (\<exists>x'. foldE (exp_step 1 1 1) [(14, Client_Loops 0), (15, Client_Sends 0), (16, Client_Loops 0)] x = Inr x')"
  by (simp add: trial_evals db2_failed_def lost_of_def)

theorem exp2_lost_calls_block_witness:
  "\<exists>x x'. foldE (exp_step 1 1 1) [(10, Client_Sends 0), (11, Client_Sends 0), (12, Put_Delivered 0),
       (13, Server_Event (Call_Fails 0))] (exp_start 1 1 1 [(''a'', 1)]) = Inr x \<and>
     foldE (exp_step 1 1 1) [(14, Client_Loops 0), (15, Client_Sends 0), (16, Client_Loops 0)] x = Inr x' \<and>
     pc (clients x' ! 0) \<noteq> Finished"
proof -
  let ?evs = "[(10, Client_Sends 0), (11, Client_Sends 0), (12, Put_Delivered 0), (13, Server_Event (Call_Fails 0))]"
  obtain x x' where x: "foldE (exp_step 1 1 1) ?evs (exp_start 1 1 1 [(''a'', 1)]) = Inr x"
    "length (lost_of 0 x) = 1" "req_complete (bench (clients x ! 0)) = 0"
    "foldE (exp_step 1 1 1) [(14, Client_Loops 0), (15, Client_Sends 0), (16, Client_Loops 0)] x = Inr x'"
    using lost_trial_run by blast
  have "pc (clients x' ! 0) \<noteq> Finished \<and> req_complete (bench (clients x' ! 0)) = req_complete (bench (clients x ! 0))"
    by (rule exp2_lost_calls_block [OF _ _ _ _ _ x(1) _ _ _ x(4)]) (simp_all add: x(2,3))
  with x(1,4) show ?thesis by blast
qed

end
