(* ===== verification/Exp2Liveness.thy ===== *)
theory Exp2Liveness
  imports Exp2Experiment
begin

text \<open>
  The put experiment of \<open>fbthrift/exp2\<close> cannot get stuck: as long as no call has failed, there is from every
  reachable state a continuation in which all clients finish. The continuation is built
  for one client at a time: its sends, everything the servers still have to do, its replies, the end
  of its round. A weight of what is under way and the replies still missing are the measures. A second weight, that no
  step increases, bounds how much work any run can contain.
\<close>

section \<open>Continuations\<close>

definition leads :: "u32 \<Rightarrow> u64 \<Rightarrow> u32 \<Rightarrow> trial \<Rightarrow> trial \<Rightarrow> bool" where
  "leads qd n sz x y \<longleftrightarrow> (\<exists>evs. foldE (exp_step qd n sz) evs x = Inr y)"

lemma leads_refl [simp]: "leads qd n sz x x"
  unfolding leads_def by (rule exI [of _ "[]"]) simp

lemma leads_trans: "leads qd n sz x y \<Longrightarrow> leads qd n sz y z \<Longrightarrow> leads qd n sz x z"
  unfolding leads_def by (metis bindE_simps(2) foldE_append)

lemma leads_event:
  assumes "exp_event qd n sz (clock2 (servers x)) e x = Inr y"
  shows "leads qd n sz x y"
  unfolding leads_def using assms
  by (intro exI [of _ "[(clock2 (servers x), e)]"]) (simp add: exp_step_def Let_def)

text \<open>What the stages below keep: the invariant, that no call has failed, and all clients but one.\<close>

definition live_ok :: "u32 \<Rightarrow> u64 \<Rightarrow> trial \<Rightarrow> bool" where
  "live_ok qd n x \<longleftrightarrow> trial_ok qd n 0 x \<and> dropped2 (db2 (servers x)) = []"

definition only :: "nat \<Rightarrow> trial \<Rightarrow> trial \<Rightarrow> bool" where
  "only c x y \<longleftrightarrow> length (clients y) = length (clients x) \<and> (\<forall>d. d \<noteq> c \<longrightarrow> clients y ! d = clients x ! d)"

lemma only_refl [simp]: "only c x x"
  by (simp add: only_def)

lemma only_trans: "only c x y \<Longrightarrow> only c y z \<Longrightarrow> only c x z"
  by (simp add: only_def)

lemma event_live:
  assumes "live_ok qd n x" and "bench_ok qd n" and "exp_event qd n sz (clock2 (servers x)) e x = Inr y"
    and "dropped2 (db2 (servers y)) = dropped2 (db2 (servers x))"
  shows "live_ok qd n y"
  using exp_event_ok [of qd n 0 x "clock2 (servers x)" sz e] assms by (auto simp: live_ok_def)

section \<open>The servers\<close>

text \<open>How many steps the servers still have to make.\<close>

definition leaf_work :: "leaf2_state \<Rightarrow> nat" where
  "leaf_work l = 4 * length (queue2 l) + 3 * length (running2 l) + 2 * length (burnt2 l) + length (answers2 l)"

definition work :: "trial \<Rightarrow> nat" where
  "work x = 6 * length (sent x) + 5 * length (calls_on_wire (servers x)) +
     sum_list (map leaf_work (leaf_servers (servers x)))"

lemma on_leaf_work:
  assumes "i < length (leaf_servers s)" and "leaf_work (f (leaf_servers s ! i)) < leaf_work (leaf_servers s ! i)"
  shows "sum_list (map leaf_work (leaf_servers (on_leaf i f s))) < sum_list (map leaf_work (leaf_servers s))"
proof -
  have "leaf_work (leaf_servers s ! i) \<le> sum_list (map leaf_work (leaf_servers s))"
    using assms(1) by (intro member_le_sum_list) auto
  then show ?thesis
    using assms by (simp add: on_leaf_def map_update sum_list_update)
qed

lemma sum_list_pos: "0 < sum_list (map f xs) \<Longrightarrow> \<exists>x \<in> set xs. 0 < f x" for f :: "'a \<Rightarrow> nat"
  by (induction xs) auto

lemma server_work:
  assumes ok: "trial_ok qd n B x" and w: "sent x = []" "0 < work x"
  shows "\<exists>e s'. (\<forall>cb p. e \<noteq> Put_Arrives cb p) \<and> sys2_event (clock2 (servers x)) e (servers x) = Inr s' \<and>
    dropped2 (db2 s') = dropped2 (db2 (servers x)) \<and>
    5 * length (calls_on_wire s') + sum_list (map leaf_work (leaf_servers s')) < work x"
proof -
  let ?s = "servers x" and ?c = "clock2 (servers x)"
  have s: "sys2_ok ?s" using ok by (simp add: trial_ok_def)
  show ?thesis
  proof (cases "calls_on_wire ?s")
    case (Cons y ys)
    obtain i f r where y: "y = (i, f, r)" by (cases y)
    have i: "i < length (leaf_servers ?s)" using s Cons y by (simp add: sys2_ok_def)
    let ?t = "?s\<lparr>calls_on_wire := ys\<rparr>"
    have "leaf_work (leaf_servers ?s ! i) \<le> sum_list (map leaf_work (leaf_servers ?s))"
      using i by (intro member_le_sum_list) auto
    then have "sum_list (map leaf_work (leaf_servers (on_leaf i (leaf2_call ?c f r) ?t))) =
        sum_list (map leaf_work (leaf_servers ?s)) + 4"
      using i by (simp add: on_leaf_def map_update sum_list_update leaf_work_def leaf2_call_def)
    then show ?thesis
      by (intro exI [of _ "Call_Arrives 0"] exI [of _ "on_leaf i (leaf2_call ?c f r) ?t"])
        (simp add: sys2_event_def Cons y work_def)
  next
    case Nil
    then have "0 < sum_list (map leaf_work (leaf_servers ?s))" using w by (simp add: work_def)
    then obtain i where i: "i < length (leaf_servers ?s)" "0 < leaf_work (leaf_servers ?s ! i)"
      using sum_list_pos [of leaf_work "leaf_servers ?s"] by (auto simp: in_set_conv_nth)
    let ?l = "leaf_servers ?s ! i"
    have local: ?thesis if "e \<in> {Worker_Starts i, Worker_Done i 0, Leaf_Answers i 0}"
      and "leaf_work (g ?l) < leaf_work ?l" and "sys2_event ?c e ?s = Inr (on_leaf i g ?s)" for e g
      using that on_leaf_work [where f = g, OF i(1) that(2)] Nil
      by (intro exI [of _ e] exI [of _ "on_leaf i g ?s"]) (auto simp: work_def)
    consider "queue2 ?l \<noteq> []" | "running2 ?l \<noteq> []" | "burnt2 ?l \<noteq> []" | (answers) "answers2 ?l \<noteq> []"
      using i(2) by (auto simp: leaf_work_def)
    then show ?thesis
    proof cases
      case 1
      then have "leaf_work (leaf2_start ?c ?l) < leaf_work ?l"
        by (cases "queue2 ?l") (auto simp: leaf_work_def leaf2_start_def)
      then show ?thesis by (intro local [of "Worker_Starts i"]) (simp_all add: sys2_event_def)
    next
      case 2
      then have "leaf_work (leaf2_burnt 0 ?c ?l) < leaf_work ?l"
        by (cases "running2 ?l") (auto simp: leaf_work_def leaf2_burnt_def)
      then show ?thesis by (intro local [of "Worker_Done i 0"]) (simp_all add: sys2_event_def)
    next
      case 3
      then have "leaf_work (leaf2_respond 0 ?c ?l) < leaf_work ?l"
        by (cases "burnt2 ?l") (auto simp: leaf_work_def leaf2_respond_def)
      then show ?thesis by (intro local [of "Leaf_Answers i 0"]) (simp_all add: sys2_event_def)
    next
      case answers
      then obtain f r rest where a: "answers2 ?l = (f, r) # rest" by (cases "answers2 ?l") auto
      from sys2_event_ok [OF s, of ?c "Answer_Arrives i 0"] obtain s' where
        s': "sys2_event ?c (Answer_Arrives i 0) ?s = Inr s'" by blast
      then obtain d where d: "db2_answered ?c f r (db2 ?s) = Inr d"
        "s' = on_leaf i (\<lambda>l. l\<lparr>answers2 := take 0 (answers2 l) @ drop (Suc 0) (answers2 l)\<rparr>) (?s\<lparr>db2 := d\<rparr>)"
        using i(1) a by (auto simp: sys2_event_def result_simps)
      have "dropped2 d = dropped2 (db2 ?s)"
        using d(1) by (auto simp: db2_answered_def result_simps split: option.splits)
      moreover have "sum_list (map leaf_work (leaf_servers s')) < sum_list (map leaf_work (leaf_servers ?s))"
        using on_leaf_work [of i "?s\<lparr>db2 := d\<rparr>" "\<lambda>l. l\<lparr>answers2 := take 0 (answers2 l) @ drop (Suc 0) (answers2 l)\<rparr>"]
          i(1) a by (simp add: d(2) leaf_work_def)
      ultimately show ?thesis
        using s' Nil by (intro exI [of _ "Answer_Arrives i 0"] exI [of _ s']) (simp add: d(2) work_def)
    qed
  qed
qed

lemma idle_open:
  assumes "sys2_ok (servers x)" and "work x = 0"
  shows "open2 (db2 (servers x)) = []"
proof -
  have w: "calls_on_wire (servers x) = []" "\<forall>l \<in> set (leaf_servers (servers x)). leaf_work l = 0"
    using assms(2) by (simp_all add: work_def)
  have "held l = {#}" if "leaf_work l = 0" for l using that by (simp add: held_def leaf_work_def)
  with w(2) have "map held (leaf_servers (servers x)) = map (\<lambda>l. {#}) (leaf_servers (servers x))" by simp
  then have "sum_list (map held (leaf_servers (servers x))) = {#}" by (simp only: sum_list_0)
  then have "under_way (servers x) = {#}" using w(1) by (simp add: under_way_def)
  then show ?thesis using assms(1) by (simp add: sys2_ok_def flying_ok_def)
qed

text \<open>All servers can be run until everything under way is an answer.\<close>

lemma drain:
  assumes "live_ok qd n x" and cfg: "bench_ok qd n"
  shows "\<exists>y. leads qd n sz x y \<and> live_ok qd n y \<and> clients y = clients x \<and> sent y = [] \<and>
    open2 (db2 (servers y)) = []"
  using assms(1)
proof (induction "work x" arbitrary: x rule: less_induct)
  case less
  let ?c = "clock2 (servers x)"
  have ok: "trial_ok qd n 0 x" and s: "sys2_ok (servers x)" and none: "dropped2 (db2 (servers x)) = []"
    using less.prems by (simp_all add: live_ok_def trial_ok_def)
  have step: ?case if ev: "exp_event qd n sz ?c e x = Inr y" and fr: "clients y = clients x"
      "dropped2 (db2 (servers y)) = dropped2 (db2 (servers x))" and w: "work y < work x" for e y
  proof -
    have "live_ok qd n y" by (rule event_live [OF less.prems cfg ev fr(2)])
    from less.hyps [OF w this] leads_event [OF ev] fr(1) show ?thesis by (metis leads_trans)
  qed
  show ?case
  proof (cases "sent x = []")
    case False
    then obtain p ps where p: "sent x = p # ps" by (cases "sent x") auto
    from sys2_event_ok [OF s refl] obtain s' where s': "sys2_event ?c (Put_Arrives (fst p) (snd p)) (servers x) = Inr s'"
      by blast
    have "dropped2 (db2 s') = dropped2 (db2 (servers x))" using put_effect [OF s s'] by auto
    moreover have "length (calls_on_wire s') = Suc (length (calls_on_wire (servers x)))"
      "leaf_servers s' = leaf_servers (servers x)"
      using s' by (auto simp: sys2_event_def result_simps)
    ultimately show ?thesis
      by (intro step [of "Put_Delivered 0" "x\<lparr>sent := ps, servers := s',
            inbox := inbox x @ drop (length (replies2 (db2 (servers x)))) (replies2 (db2 s'))\<rparr>"])
        (use s' in \<open>simp_all add: exp_event_def servers_do_def p work_def\<close>)
  next
    case True
    show ?thesis
    proof (cases "work x = 0")
      case False
      then obtain e s' where e: "\<forall>cb p. e \<noteq> Put_Arrives cb p" "sys2_event ?c e (servers x) = Inr s'"
        "dropped2 (db2 s') = dropped2 (db2 (servers x))"
        "5 * length (calls_on_wire s') + sum_list (map leaf_work (leaf_servers s')) < work x"
        using server_work [OF ok True] by auto
      then have "exp_event qd n sz ?c (Server_Event e) x = servers_do ?c e x"
        by (cases e) (simp_all add: exp_event_def)
      then show ?thesis
        by (intro step [of "Server_Event e" "x\<lparr>servers := s',
              inbox := inbox x @ drop (length (replies2 (db2 (servers x)))) (replies2 (db2 s'))\<rparr>"])
          (use e True in \<open>simp_all add: servers_do_def work_def\<close>)
    next
      case idle: True
      then show ?thesis using less.prems True idle_open [OF s] leads_refl by blast
    qed
  qed
qed

section \<open>One client\<close>

lemma client_view:
  assumes "live_ok qd n x" and "c < length (clients x)"
  shows "client_ok qd n (clients x ! c)"
  using assms by (simp add: live_ok_def trial_ok_def)

lemma sends_sched:
  assumes "client_ok qd n cl" and "bench_ok qd n" and "pc cl = Sending i" and "i < unat (req_tosend (bench cl))"
  shows "unat (req_sched (bench (client_sends now cl))) = unat (req_sched (bench cl)) + 1"
    and "unat (req_sched (bench cl)) + 1 \<le> unat n + unat qd"
proof -
  show le: "unat (req_sched (bench cl)) + 1 \<le> unat n + unat qd"
  proof -
    have "unat (req_sched (bench cl)) + (unat (req_tosend (bench cl)) - i) \<le> unat n + unat qd"
      using assms(1,3) by (auto simp: client_ok_def)
    with assms(4) show ?thesis by linarith
  qed
  have "req_sched (bench (client_sends now cl)) = req_sched (bench cl) + 1"
    using assms(3,4) by (simp add: client_sends_def send_request_def Let_def)
  then show "unat (req_sched (bench (client_sends now cl))) = unat (req_sched (bench cl)) + 1"
    using le assms(2) unat_add_u64 [of "req_sched (bench cl)" 1] by (simp add: bench_ok_def)
qed

text \<open>A client finishes the sends of its round.\<close>

lemma finish_sends:
  assumes "live_ok qd n x" and cfg: "bench_ok qd n" and "c < length (clients x)" and "pc (clients x ! c) = Sending i"
  shows "\<exists>y. leads qd n sz x y \<and> live_ok qd n y \<and> only c x y \<and> pc (clients y ! c) = Polling \<and>
    unat (req_sched (bench (clients y ! c))) =
      unat (req_sched (bench (clients x ! c))) + (unat (req_tosend (bench (clients x ! c))) - i)"
  using assms(1,3,4)
proof (induction "unat (req_tosend (bench (clients x ! c))) - i" arbitrary: x i)
  case 0
  let ?y = "set_client c (client_sends (clock2 (servers x)) (clients x ! c)) x"
  have ge: "\<not> i < unat (req_tosend (bench (clients x ! c)))" using 0(1) by simp
  then have y: "exp_event qd n sz (clock2 (servers x)) (Client_Sends c) x = Inr ?y"
    using 0(3,4) by (simp add: exp_event_def client_put_now_def set_client_def)
  have "live_ok qd n ?y" by (rule event_live [OF 0(2) cfg y]) simp
  moreover have "only c x ?y" by (simp add: only_def)
  ultimately show ?case
    using leads_event [OF y] ge 0 by (intro exI [of _ ?y]) (simp add: client_sends_def)
next
  case (Suc m)
  let ?cl = "clients x ! c"
  let ?y = "(set_client c (client_sends (clock2 (servers x)) ?cl) x)
    \<lparr>sent := sent x @ [(c, client2_put sz (req_id (bench ?cl)))]\<rparr>"
  have lt: "i < unat (req_tosend (bench ?cl))" using Suc.hyps(2) by simp
  have y: "exp_event qd n sz (clock2 (servers x)) (Client_Sends c) x = Inr ?y"
    using Suc.prems(2,3) lt by (simp add: exp_event_def client_put_now_def)
  have live: "live_ok qd n ?y" by (rule event_live [OF Suc.prems(1) cfg y]) simp
  have new: "pc (clients ?y ! c) = Sending (Suc i)" "req_tosend (bench (clients ?y ! c)) = req_tosend (bench ?cl)"
    "unat (req_sched (bench (clients ?y ! c))) = unat (req_sched (bench ?cl)) + 1"
    using Suc.prems(2,3) lt sends_sched [OF client_view [OF Suc.prems(1,2)] cfg Suc.prems(3) lt]
    by (simp_all add: client_sends_def send_request_def Let_def)
  have "m = unat (req_tosend (bench (clients ?y ! c))) - Suc i" "c < length (clients ?y)"
    unfolding new(2) using Suc.hyps(2) Suc.prems(2) by simp_all
  from Suc.hyps(1) [OF this(1) live this(2) new(1)] obtain z where
    z: "leads qd n sz ?y z" "live_ok qd n z" "only c ?y z" "pc (clients z ! c) = Polling"
      "unat (req_sched (bench (clients z ! c))) =
        unat (req_sched (bench (clients ?y ! c))) + (unat (req_tosend (bench (clients ?y ! c))) - Suc i)" by blast
  have "only c x ?y" by (simp add: only_def)
  then have "only c x z" using z(3) by (rule only_trans)
  moreover have "leads qd n sz x z" by (rule leads_trans [OF leads_event [OF y] z(1)])
  ultimately show ?case using z(2,4,5) lt unfolding new(2,3) by (intro exI [of _ z]) simp
qed


text \<open>With nothing left at the servers, a polling client receives all it waits for.\<close>

lemma receive_rest:
  assumes "live_ok qd n x" and cfg: "bench_ok qd n" and "c < length (clients x)" and "pc (clients x ! c) = Polling"
    and "sent x = []" and "open2 (db2 (servers x)) = []"
  shows "\<exists>y. leads qd n sz x y \<and> live_ok qd n y \<and> only c x y \<and> pc (clients y ! c) = Polling \<and>
    req_out (bench (clients y ! c)) = 0 \<and> req_sched (bench (clients y ! c)) = req_sched (bench (clients x ! c))"
  using assms(1,3-6)
proof (induction "length (inbox x)" arbitrary: x)
  case 0
  then have "items_of c x = []" by (simp add: items_of_def items_def live_ok_def)
  then have "req_out (bench (clients x ! c)) = 0"
    using items_of_count [of qd n 0 x c] 0 by (simp add: live_ok_def unat_eq_0)
  then show ?case using 0 by (intro exI [of _ x]) simp
next
  case (Suc m)
  have ok: "trial_ok qd n 0 x" using Suc.prems(1) by (simp add: live_ok_def)
  show ?case
  proof (cases "\<exists>k < length (inbox x). fst (inbox x ! k) = c")
    case True
    then obtain k r where k: "k < length (inbox x)" "inbox x ! k = (c, r)" by (metis prod.collapse)
    let ?cl = "clients x ! c"
    from receive_ok [OF ok _ k Suc.prems(3)] obtain b where
      b: "receive_reply (\<lambda>k. k = 0) (clock2 (servers x), client2_reply r) (bench ?cl) = Inr b" by auto
    let ?y = "(set_client c (?cl\<lparr>bench := b\<rparr>) x)\<lparr>inbox := take k (inbox x) @ drop (Suc k) (inbox x)\<rparr>"
    have y: "exp_event qd n sz (clock2 (servers x)) (Client_Receives k) x = Inr ?y"
      using k Suc.prems(2,3) b by (simp add: exp_event_def Let_def)
    have live: "live_ok qd n ?y" by (rule event_live [OF Suc.prems(1) cfg y]) simp
    have sched: "req_sched (bench (clients ?y ! c)) = req_sched (bench ?cl)"
      using b Suc.prems(2) by (auto simp: receive_reply_def Let_def result_simps split: option.splits)
    have "m = length (inbox ?y)" using Suc.hyps(2) k(1) by simp
    from Suc.hyps(1) [OF this live] Suc.prems obtain z where
      z: "leads qd n sz ?y z" "live_ok qd n z" "only c ?y z" "pc (clients z ! c) = Polling"
        "req_out (bench (clients z ! c)) = 0" "req_sched (bench (clients z ! c)) = req_sched (bench (clients ?y ! c))"
      by auto
    have "only c x ?y" by (simp add: only_def)
    then have "only c x z" using z(3) by (rule only_trans)
    moreover have "leads qd n sz x z" by (rule leads_trans [OF leads_event [OF y] z(1)])
    ultimately show ?thesis using z(2,4-6) sched by (intro exI [of _ z]) simp
  next
    case False
    then have "\<forall>y \<in> set (inbox x). fst y \<noteq> c" by (metis in_set_conv_nth)
    then have "filter (\<lambda>y. fst y = c) (inbox x) = []" by (simp add: filter_empty_conv)
    then have "items_of c x = []"
      using Suc.prems by (simp add: items_of_def items_def live_ok_def filter_map comp_def)
    then have "req_out (bench (clients x ! c)) = 0"
      using items_of_count [OF ok Suc.prems(2)] by (simp add: unat_eq_0)
    then show ?thesis using Suc.prems by (intro exI [of _ x]) simp
  qed
qed

text \<open>A client that polls gets all its answers.\<close>

lemma collect:
  assumes "live_ok qd n x" and cfg: "bench_ok qd n" and c: "c < length (clients x)" and pc: "pc (clients x ! c) = Polling"
  shows "\<exists>y. leads qd n sz x y \<and> live_ok qd n y \<and> only c x y \<and> pc (clients y ! c) = Polling \<and>
    req_out (bench (clients y ! c)) = 0 \<and>
    unat (req_complete (bench (clients y ! c))) = unat (req_sched (bench (clients x ! c)))"
proof -
  from drain [OF assms(1) cfg, of sz] obtain u where u: "leads qd n sz x u" "live_ok qd n u" "clients u = clients x"
    "sent u = []" "open2 (db2 (servers u)) = []" by blast
  from receive_rest [OF u(2) cfg _ _ u(4,5), of c sz] c pc u(3) obtain y where
    y: "leads qd n sz u y" "live_ok qd n y" "only c u y" "pc (clients y ! c) = Polling"
      "req_out (bench (clients y ! c)) = 0" "req_sched (bench (clients y ! c)) = req_sched (bench (clients u ! c))" by auto
  have "only c x y" using y(3) u(3) by (simp add: only_def)
  moreover have "client_ok qd n (clients y ! c)"
    by (rule client_view [OF y(2)]) (use y(3) u(3) c in \<open>simp add: only_def\<close>)
  then have "unat (req_complete (bench (clients y ! c))) = unat (req_sched (bench (clients y ! c)))"
    using y(5) by (simp add: client_ok_def)
  ultimately show ?thesis
    using leads_trans [OF u(1) y(1)] y(2,4,5,6) u(3) by (intro exI [of _ y]) simp
qed


text \<open>A client with a free slot and more to do sends something in its next round.\<close>

lemma next_tosend_positive:
  assumes cfg: "bench_ok qd n" and free: "unat (req_out b) < unat qd" and todo: "unat (req_complete b) < unat n"
  shows "1 \<le> unat (req_tosend (next_tosend qd n b))"
proof -
  have "unat (req_complete b) + unat qd < 18446744073709551616" using todo cfg by (simp add: bench_ok_def)
  then have "unat (req_tosend (next_tosend qd n b)) = (if unat qd - unat (req_out b) + unat (req_complete b) > unat n
      then unat n - unat (req_complete b) else unat qd - unat (req_out b))"
    by (rule next_tosend_value [rotated]) (use free in simp)
  then show ?thesis using free todo by (simp split: if_splits)
qed

text \<open>The loop of a client ends: every round completes at least one more request.\<close>

lemma rounds_end:
  assumes "live_ok qd n x" and cfg: "bench_ok qd n" and "c < length (clients x)" and "pc (clients x ! c) = Polling"
    and "req_out (bench (clients x ! c)) = 0"
  shows "\<exists>y. leads qd n sz x y \<and> live_ok qd n y \<and> only c x y \<and> pc (clients y ! c) = Finished"
  using assms(1,3-5)
proof (induction "unat n - unat (req_complete (bench (clients x ! c)))" arbitrary: x rule: less_induct)
  case less
  let ?cl = "clients x ! c" and ?t = "next_tosend qd n (bench (clients x ! c))"
  let ?y = "set_client c (client_loops qd n ?cl) x"
  have y: "exp_event qd n sz (clock2 (servers x)) (Client_Loops c) x = Inr ?y"
    using less.prems(2) by (simp add: exp_event_def)
  have live: "live_ok qd n ?y" by (rule event_live [OF less.prems(1) cfg y]) simp
  have yc: "clients ?y ! c = ?cl\<lparr>bench := ?t, pc := (if req_complete ?t < n then Sending 0 else Finished)\<rparr>"
    using less.prems(2,3) by (simp add: client_loops_def Let_def)
  note f = next_tosend_frame [of qd n "bench ?cl"]
  have ey: "only c x ?y" by (simp add: only_def)
  have view: "client_ok qd n ?cl" by (rule client_view [OF less.prems(1,2)])
  show ?case
  proof (cases "req_complete ?t < n")
    case False
    then have "pc (clients ?y ! c) = Finished" unfolding yc by simp
    with leads_event [OF y] live ey show ?thesis by blast
  next
    case True
    then have todo: "unat (req_complete (bench ?cl)) < unat n" using f by (simp add: word_less_nat_alt)
    have "unat (req_out (bench ?cl)) < unat qd" using less.prems(4) cfg by (simp add: bench_ok_def)
    then have pos: "1 \<le> unat (req_tosend ?t)" by (rule next_tosend_positive [OF cfg _ todo])
    have py: "pc (clients ?y ! c) = Sending 0" "bench (clients ?y ! c) = ?t" unfolding yc using True by simp_all
    have cy: "c < length (clients ?y)" using less.prems(2) by simp
    from finish_sends [OF live cfg cy py(1), of sz] obtain u where
      u: "leads qd n sz ?y u" "live_ok qd n u" "only c ?y u" "pc (clients u ! c) = Polling"
        "unat (req_sched (bench (clients u ! c))) = unat (req_sched ?t) + unat (req_tosend ?t)"
      unfolding py(2) by auto
    have cu: "c < length (clients u)" using u(3) cy by (simp add: only_def)
    from collect [OF u(2) cfg cu u(4), of sz] obtain v where
      v: "leads qd n sz u v" "live_ok qd n v" "only c u v" "pc (clients v ! c) = Polling"
        "req_out (bench (clients v ! c)) = 0"
        "unat (req_complete (bench (clients v ! c))) = unat (req_sched (bench (clients u ! c)))" by blast
    have cv: "c < length (clients v)" using v(3) cu by (simp add: only_def)
    have "unat (req_sched (bench ?cl)) = unat (req_complete (bench ?cl))"
      using view less.prems(4) by (simp add: client_ok_def)
    then have "unat (req_complete (bench ?cl)) < unat (req_complete (bench (clients v ! c)))"
      using v(6) u(5) pos f by simp
    with todo have "unat n - unat (req_complete (bench (clients v ! c))) < unat n - unat (req_complete (bench ?cl))"
      by linarith
    from less.hyps [OF this v(2) cv v(4,5)] obtain z where
      z: "leads qd n sz v z" "live_ok qd n z" "only c v z" "pc (clients z ! c) = Finished" by blast
    have "leads qd n sz x z"
      by (rule leads_trans [OF leads_event [OF y] leads_trans [OF u(1) leads_trans [OF v(1) z(1)]]])
    moreover have "only c x z" by (rule only_trans [OF ey only_trans [OF u(3) only_trans [OF v(3) z(3)]]])
    ultimately show ?thesis using z(2,4) by blast
  qed
qed

lemma finish_one:
  assumes live: "live_ok qd n x" and cfg: "bench_ok qd n" and c: "c < length (clients x)"
  shows "\<exists>y. leads qd n sz x y \<and> live_ok qd n y \<and> only c x y \<and> pc (clients y ! c) = Finished"
proof -
  have polling: "\<exists>y. leads qd n sz u y \<and> live_ok qd n y \<and> only c u y \<and> pc (clients y ! c) = Finished"
    if u: "live_ok qd n u" "c < length (clients u)" "pc (clients u ! c) = Polling" for u
  proof -
    from collect [OF u(1) cfg u(2,3), of sz] obtain v where
      v: "leads qd n sz u v" "live_ok qd n v" "only c u v" "pc (clients v ! c) = Polling"
        "req_out (bench (clients v ! c)) = 0" by blast
    have "c < length (clients v)" using v(3) u(2) by (simp add: only_def)
    from rounds_end [OF v(2) cfg this v(4,5), of sz] show ?thesis
      using v(1,3) leads_trans only_trans by blast
  qed
  show ?thesis
  proof (cases "pc (clients x ! c)")
    case (Sending i)
    from finish_sends [OF live cfg c Sending, of sz] obtain u where
      u: "leads qd n sz x u" "live_ok qd n u" "only c x u" "pc (clients u ! c) = Polling" by blast
    have "c < length (clients u)" using u(3) c by (simp add: only_def)
    from polling [OF u(2) this u(4)] show ?thesis using u(1,3) leads_trans only_trans by blast
  next
    case Finished
    with live show ?thesis by (intro exI [of _ x]) simp
  qed (rule polling [OF live c])
qed

text \<open>One client after the other.\<close>

lemma finish_all:
  assumes live: "live_ok qd n x" and cfg: "bench_ok qd n"
  shows "k \<le> length (clients x) \<Longrightarrow> \<exists>y. leads qd n sz x y \<and> live_ok qd n y \<and> length (clients y) = length (clients x) \<and>
    (\<forall>c < k. pc (clients y ! c) = Finished)"
proof (induction k)
  case 0
  with live show ?case by (intro exI [of _ x]) simp
next
  case (Suc k)
  then obtain y where y: "leads qd n sz x y" "live_ok qd n y" "length (clients y) = length (clients x)"
    "\<forall>c < k. pc (clients y ! c) = Finished" by auto
  have k: "k < length (clients y)" using Suc.prems y(3) by simp
  from finish_one [OF y(2) cfg k, of sz] obtain z where
    z: "leads qd n sz y z" "live_ok qd n z" "only k y z" "pc (clients z ! k) = Finished" by blast
  have "\<forall>c < Suc k. pc (clients z ! c) = Finished"
    using y(4) z(3,4) by (auto simp: only_def less_Suc_eq)
  moreover have "length (clients z) = length (clients x)" using z(3) y(3) by (simp add: only_def)
  ultimately show ?case using leads_trans [OF y(1) z(1)] z(2) by blast
qed

section \<open>The experiment can finish\<close>

text \<open>
  C8. The put experiment never gets stuck as long as no call has failed: whatever clients, servers and network
  have done so far, there is a continuation without a failing call after which every client has
  finished, with all its requests complete.
\<close>

theorem exp2_can_finish:
  assumes "addrs \<noteq> []" and "length addrs < 4294967296"
    and "1 \<le> unat qd" and "unat qd \<le> 2147483647" and "unat n < 9223372036854775808"
    and "foldE (exp_step qd n sz) evs (exp_start qd n nt addrs) = Inr x" and "dropped2 (db2 (servers x)) = []"
  shows "\<exists>evs' y. foldE (exp_step qd n sz) (evs @ evs') (exp_start qd n nt addrs) = Inr y \<and>
    length (clients y) = nt \<and> dropped2 (db2 (servers y)) = [] \<and>
    (\<forall>cl \<in> set (clients y). pc cl = Finished \<and> unat n \<le> unat (req_complete (bench cl)))"
proof -
  have cfg: "bench_ok qd n" using assms(3-5) by (simp add: bench_ok_def)
  from exp_run [OF assms(1,2) cfg, of 0 sz evs nt] assms(6,7) have
    live: "live_ok qd n x" and nt: "length (clients x) = nt" by (auto simp: live_ok_def)
  from finish_all [OF live cfg order_refl, of sz] obtain y where
    y: "leads qd n sz x y" "live_ok qd n y" "length (clients y) = nt" "\<forall>c < nt. pc (clients y ! c) = Finished"
    using nt by auto
  have fin: "pc cl = Finished" if "cl \<in> set (clients y)" for cl using that y(3,4) by (auto simp: in_set_conv_nth)
  moreover have "unat n \<le> unat (req_complete (bench cl))" if "cl \<in> set (clients y)" for cl
    using that fin [OF that] y(2) by (auto simp: live_ok_def trial_ok_def client_ok_def)
  moreover obtain evs' where "foldE (exp_step qd n sz) evs' x = Inr y" using y(1) by (auto simp: leads_def)
  then have "foldE (exp_step qd n sz) (evs @ evs') (exp_start qd n nt addrs) = Inr y"
    using assms(6) by (simp add: foldE_append)
  ultimately show ?thesis using y(2,3) by (auto simp: live_ok_def)
qed

theorem exp2_can_finish_witness:
  "\<exists>evs' y. foldE (exp_step 2 3 1) ([(5, Client_Sends 0), (6, Client_Sends 1)] @ evs') (exp_start 2 3 2 [(''a'', 1), (''b'', 1)]) = Inr y \<and>
     (\<forall>cl \<in> set (clients y). pc cl = Finished \<and> 3 \<le> unat (req_complete (bench cl)))"
proof -
  have "\<exists>x. foldE (exp_step 2 3 1) [(5, Client_Sends 0), (6, Client_Sends 1)] (exp_start 2 3 2 [(''a'', 1), (''b'', 1)]) = Inr x \<and>
      dropped2 (db2 (servers x)) = []"
    by (simp add: trial_evals)
  then obtain x where x: "foldE (exp_step 2 3 1) [(5, Client_Sends 0), (6, Client_Sends 1)]
      (exp_start 2 3 2 [(''a'', 1), (''b'', 1)]) = Inr x" "dropped2 (db2 (servers x)) = []" by blast
  from exp2_can_finish [OF _ _ _ _ _ x] show ?thesis by auto
qed

section \<open>The work is bounded\<close>

text \<open>
  Every request passes eight stations: sent, delivered, called, started, burnt, answered by the leaf, answered by the
  database server, received. The load of a state counts the stations that the requests it holds have before them.
\<close>

definition leaf_load :: "leaf2_state \<Rightarrow> nat" where
  "leaf_load l = 5 * length (queue2 l) + 4 * length (running2 l) + 3 * length (burnt2 l) + 2 * length (answers2 l)"

definition servers_load :: "sys2 \<Rightarrow> nat" where
  "servers_load s = 6 * length (calls_on_wire s) + sum_list (map leaf_load (leaf_servers s))"

definition trial_load :: "u32 \<Rightarrow> u64 \<Rightarrow> trial \<Rightarrow> nat" where
  "trial_load qd n x =
     sum_list (map (\<lambda>cl. 8 * (unat n + unat qd - unat (req_sched (bench cl)))) (clients x)) +
     7 * length (sent x) + servers_load (servers x) + length (inbox x)"

text \<open>A step that moves a request, and how many such steps a run has.\<close>

definition moved :: "trial \<Rightarrow> trial \<Rightarrow> bool" where
  "moved x y \<longleftrightarrow>
     (sent y, calls_on_wire (servers y), leaf_servers (servers y), inbox y) \<noteq>
     (sent x, calls_on_wire (servers x), leaf_servers (servers x), inbox x)"

fun moves :: "u32 \<Rightarrow> u64 \<Rightarrow> u32 \<Rightarrow> (int \<times> exp_event) list \<Rightarrow> trial \<Rightarrow> nat" where
  "moves qd n sz [] x = 0"
| "moves qd n sz (ev # evs) x =
     (case exp_step qd n sz ev x of
        Inl err \<Rightarrow> 0
      | Inr y \<Rightarrow> (if moved x y then 1 else 0) + moves qd n sz evs y)"

lemma on_leaf_load:
  assumes "\<And>l. f l = l \<or> leaf_load (f l) < leaf_load l"
  shows "leaf_servers (on_leaf i f s) = leaf_servers s \<or> servers_load (on_leaf i f s) < servers_load s"
proof (cases "i < length (leaf_servers s)")
  case True
  let ?l = "leaf_servers s ! i"
  have le: "leaf_load ?l \<le> sum_list (map leaf_load (leaf_servers s))"
    using True by (intro member_le_sum_list) auto
  show ?thesis
  proof (cases "f ?l = ?l")
    case False
    then have "leaf_load (f ?l) < leaf_load ?l" using assms by blast
    with le True show ?thesis
      by (intro disjI2) (simp add: on_leaf_def servers_load_def map_update sum_list_update)
  qed (use True in \<open>simp add: on_leaf_def\<close>)
qed (simp add: on_leaf_def)

lemma leaf_steps_load:
  "leaf2_start c l = l \<or> leaf_load (leaf2_start c l) < leaf_load l"
  "leaf2_burnt k c l = l \<or> leaf_load (leaf2_burnt k c l) < leaf_load l"
  "leaf2_respond k c l = l \<or> leaf_load (leaf2_respond k c l) < leaf_load l"
  by (auto simp: leaf2_start_def leaf2_burnt_def leaf2_respond_def leaf_load_def split: list.splits prod.splits)

lemma replies_of:
  assumes "sys2_ok s" and "sys2_event c e s = Inr s'" and "\<And>cb p. e \<noteq> Put_Arrives cb p"
  shows "length (replies2 (db2 s')) \<le> Suc (length (replies2 (db2 s)))"
  using server_effect [OF assms] by (auto simp: unchanged_def answers_def loses_def)

lemma server_event_load:
  assumes ok: "sys2_ok s" and ev: "sys2_event c e s = Inr s'" and np: "\<And>cb p. e \<noteq> Put_Arrives cb p"
  shows "servers_load s' + (length (replies2 (db2 s')) - length (replies2 (db2 s))) < servers_load s \<or>
    calls_on_wire s' = calls_on_wire s \<and> leaf_servers s' = leaf_servers s \<and> replies2 (db2 s') = replies2 (db2 s)"
proof -
  have local: ?thesis if "s' = on_leaf i f s" "\<And>l. f l = l \<or> leaf_load (f l) < leaf_load l" for i f
    using on_leaf_load [of f i s] that by (auto simp: on_leaf_def)
  show ?thesis
  proof (cases e)
    case (Call_Arrives k)
    show ?thesis
    proof (cases "k < length (calls_on_wire s)")
      case True
      obtain i f r where y: "calls_on_wire s ! k = (i, f, r)" by (cases "calls_on_wire s ! k")
      let ?t = "s\<lparr>calls_on_wire := take k (calls_on_wire s) @ drop (Suc k) (calls_on_wire s)\<rparr>"
      have s': "s' = on_leaf i (leaf2_call c f r) ?t" using ev True y by (simp add: Call_Arrives sys2_event_def)
      have i: "i < length (leaf_servers s)" using ok True y by (fastforce simp: sys2_ok_def dest: nth_mem)
      have "leaf_load (leaf_servers s ! i) \<le> sum_list (map leaf_load (leaf_servers s))"
        using i by (intro member_le_sum_list) auto
      then have "servers_load s' + 1 = servers_load s"
        using i True by (cases "length (calls_on_wire s)")
          (simp_all add: s' on_leaf_def servers_load_def map_update sum_list_update leaf_load_def leaf2_call_def)
      then show ?thesis unfolding s' by (intro disjI1) (simp add: on_leaf_def i)
    qed (use ev Call_Arrives in \<open>simp add: sys2_event_def\<close>)
  next
    case (Answer_Arrives i k)
    show ?thesis
    proof (cases "i < length (leaf_servers s) \<and> k < length (answers2 (leaf_servers s ! i))")
      case True
      let ?f = "\<lambda>l. l\<lparr>answers2 := take k (answers2 l) @ drop (Suc k) (answers2 l)\<rparr>"
      obtain f r d where d: "s' = on_leaf i ?f (s\<lparr>db2 := d\<rparr>)"
        using ev True by (auto simp: Answer_Arrives sys2_event_def result_simps split: prod.splits)
      have "leaf_load (leaf_servers s ! i) \<le> sum_list (map leaf_load (leaf_servers s))"
        using True by (intro member_le_sum_list) auto
      moreover have "leaf_load (?f (leaf_servers s ! i)) + 2 = leaf_load (leaf_servers s ! i)"
        using True by (cases "length (answers2 (leaf_servers s ! i))") (auto simp: leaf_load_def)
      ultimately have "servers_load s' + 2 = servers_load s"
        using True by (simp add: d on_leaf_def servers_load_def map_update sum_list_update)
      with replies_of [OF ok ev np] show ?thesis by linarith
    next
      case False
      then have "s' = s" using ev unfolding Answer_Arrives sys2_event_def event2.case by (simp only: if_False) simp
      then show ?thesis by simp
    qed
  next
    case (Call_Fails f)
    then show ?thesis using ev by (auto simp: sys2_event_def db2_failed_def split: option.splits)
  next
    case (Worker_Starts i)
    then have "s' = on_leaf i (leaf2_start c) s" using ev by (simp add: sys2_event_def)
    then show ?thesis by (rule local) (rule leaf_steps_load)
  next
    case (Worker_Done i k)
    then have "s' = on_leaf i (leaf2_burnt k c) s" using ev by (simp add: sys2_event_def)
    then show ?thesis by (rule local) (rule leaf_steps_load)
  next
    case (Leaf_Answers i k)
    then have "s' = on_leaf i (leaf2_respond k c) s" using ev by (simp add: sys2_event_def)
    then show ?thesis by (rule local) (rule leaf_steps_load)
  qed (use ev np in \<open>auto simp: sys2_event_def\<close>)
qed


definition budget :: "u32 \<Rightarrow> u64 \<Rightarrow> put_client \<Rightarrow> nat" where
  "budget qd n cl = 8 * (unat n + unat qd - unat (req_sched (bench cl)))"

lemma trial_load_budget:
  "trial_load qd n x = sum_list (map (budget qd n) (clients x)) + 7 * length (sent x) + servers_load (servers x) + length (inbox x)"
  by (simp add: trial_load_def budget_def [abs_def])

lemma budget_update:
  assumes "c < length cls"
  shows "sum_list (map (budget qd n) (cls[c := cl])) + budget qd n (cls ! c) =
    sum_list (map (budget qd n) cls) + budget qd n cl"
proof -
  have "budget qd n (cls ! c) \<le> sum_list (map (budget qd n) cls)" using assms by (intro member_le_sum_list) auto
  then show ?thesis using assms by (simp add: map_update sum_list_update)
qed

lemma servers_do_load:
  assumes ok: "sys2_ok (servers x)" and ev: "servers_do c e x = Inr y" and np: "\<And>cb p. e \<noteq> Put_Arrives cb p"
  shows "trial_load qd n y + (if moved x y then 1 else 0) \<le> trial_load qd n x"
proof -
  obtain s' where s': "sys2_event c e (servers x) = Inr s'"
    and y: "y = x\<lparr>servers := s', inbox := inbox x @ drop (length (replies2 (db2 (servers x)))) (replies2 (db2 s'))\<rparr>"
    using ev by (auto simp: servers_do_def result_simps)
  from server_event_load [OF ok s' np] show ?thesis
  proof (elim disjE)
    assume "servers_load s' + (length (replies2 (db2 s')) - length (replies2 (db2 (servers x)))) < servers_load (servers x)"
    then have "trial_load qd n y < trial_load qd n x" by (simp add: y trial_load_def)
    then show ?thesis by simp
  qed (simp add: y moved_def trial_load_def servers_load_def)
qed

text \<open>Only a put sent takes from the budget of its client.\<close>

lemma quiet_load:
  assumes "c < length (clients x)" and "y = set_client c cl x" and "req_sched (bench cl) = req_sched (bench (clients x ! c))"
  shows "trial_load qd n y + (if moved x y then 1 else 0) \<le> trial_load qd n x"
  using budget_update [OF assms(1), where qd = qd and n = n and cl = cl] assms(2,3)
  by (simp add: trial_load_budget moved_def budget_def)

lemma put_sent_load:
  assumes ok: "trial_ok qd n B x" and cfg: "bench_ok qd n" and c: "c < length (clients x)"
    and ev: "exp_event qd n sz now (Client_Sends c) x = Inr y"
  shows "trial_load qd n y + (if moved x y then 1 else 0) \<le> trial_load qd n x"
proof (cases "\<exists>i. pc (clients x ! c) = Sending i \<and> i < unat (req_tosend (bench (clients x ! c)))")
  case True
  let ?cl = "clients x ! c"
  let ?new = "client_sends now ?cl"
  obtain i where i: "pc ?cl = Sending i" "i < unat (req_tosend (bench ?cl))" using True by blast
  have y: "y = (set_client c ?new x)\<lparr>sent := sent x @ [(c, client2_put sz (req_id (bench ?cl)))]\<rparr>"
    using ev c i by (simp add: exp_event_def client_put_now_def)
  have "client_ok qd n ?cl" using ok c by (simp add: trial_ok_def)
  note sched = sends_sched(1) [OF this cfg i, of now] sends_sched(2) [OF this cfg i]
  then have "budget qd n ?new + 8 = budget qd n ?cl" by (simp add: budget_def)
  then have "sum_list (map (budget qd n) (clients y)) + 8 = sum_list (map (budget qd n) (clients x))"
    using budget_update [OF c, where qd = qd and n = n and cl = ?new] by (simp add: y)
  then have "trial_load qd n y < trial_load qd n x" by (simp add: y trial_load_budget)
  then show ?thesis by simp
next
  case False
  then have "client_put_now sz (clients x ! c) = []" "bench (client_sends now (clients x ! c)) = bench (clients x ! c)"
    by (auto simp: client_put_now_def client_sends_def split: client_pc.splits)
  with ev c show ?thesis
    by (intro quiet_load [OF c, of _ "client_sends now (clients x ! c)"]) (auto simp: exp_event_def set_client_def)
qed

lemma put_delivered_load:
  assumes s: "sys2_ok (servers x)" and k: "k < length (sent x)" and ev: "exp_event qd n sz now (Put_Delivered k) x = Inr y"
  shows "trial_load qd n y < trial_load qd n x"
proof -
  let ?S = "take k (sent x) @ drop (Suc k) (sent x)"
  obtain s' where s': "sys2_event now (Put_Arrives (fst (sent x ! k)) (snd (sent x ! k))) (servers x) = Inr s'"
    and y: "y = x\<lparr>sent := ?S, servers := s',
      inbox := inbox x @ drop (length (replies2 (db2 (servers x)))) (replies2 (db2 s'))\<rparr>"
    using ev k by (auto simp: exp_event_def servers_do_def result_simps)
  have "length (calls_on_wire s') = Suc (length (calls_on_wire (servers x)))" "leaf_servers s' = leaf_servers (servers x)"
    using s' by (auto simp: sys2_event_def result_simps)
  moreover have "replies2 (db2 s') = replies2 (db2 (servers x))" using put_effect [OF s s'] by auto
  moreover have "length ?S + 1 = length (sent x)" using k by simp
  ultimately show ?thesis by (simp add: y trial_load_def servers_load_def)
qed

lemma answer_load:
  assumes ev: "exp_event qd n sz now (Client_Receives k) x = Inr y" and "y \<noteq> x"
  shows "trial_load qd n y < trial_load qd n x"
proof -
  obtain c r where cr: "inbox x ! k = (c, r)" by fastforce
  have k: "k < length (inbox x)" and c: "c < length (clients x)" and p: "pc (clients x ! c) = Polling"
    using assms by (auto simp: exp_event_def cr split: if_splits)
  then obtain b where b: "receive_reply (\<lambda>k. k = 0) (now, client2_reply r) (bench (clients x ! c)) = Inr b"
    and y: "y = (set_client c ((clients x ! c)\<lparr>bench := b\<rparr>) x)\<lparr>inbox := take k (inbox x) @ drop (Suc k) (inbox x)\<rparr>"
    using ev by (auto simp: exp_event_def cr Let_def result_simps)
  have "req_sched b = req_sched (bench (clients x ! c))"
    using b by (auto simp: receive_reply_def Let_def result_simps split: option.splits)
  then have "budget qd n ((clients x ! c)\<lparr>bench := b\<rparr>) = budget qd n (clients x ! c)" by (simp add: budget_def)
  then have "sum_list (map (budget qd n) (clients y)) = sum_list (map (budget qd n) (clients x))"
    using budget_update [OF c, where qd = qd and n = n and cl = "(clients x ! c)\<lparr>bench := b\<rparr>"] by (simp add: y)
  moreover have "length (inbox y) < length (inbox x)" using k by (auto simp: y)
  ultimately show ?thesis by (simp add: y trial_load_budget)
qed

lemma exp_event_load:
  assumes ok: "trial_ok qd n B x" and cfg: "bench_ok qd n" and ev: "exp_event qd n sz now e x = Inr y"
  shows "trial_load qd n y + (if moved x y then 1 else 0) \<le> trial_load qd n x"
proof (cases "y = x")
  case False
  have s: "sys2_ok (servers x)" using ok by (simp add: trial_ok_def)
  have less: ?thesis if "trial_load qd n y < trial_load qd n x" using that by simp
  show ?thesis
  proof (cases e)
    case (Client_Sends c)
    then have "c < length (clients x)" using ev False by (auto simp: exp_event_def split: if_splits)
    from put_sent_load [OF ok cfg this] ev Client_Sends show ?thesis by simp
  next
    case (Put_Delivered k)
    then have "k < length (sent x)" using ev False by (auto simp: exp_event_def split: if_splits)
    from less [OF put_delivered_load [OF s this]] ev Put_Delivered show ?thesis by simp
  next
    case (Server_Event e2)
    then have "servers_do now e2 x = Inr y" "\<And>cb p. e2 \<noteq> Put_Arrives cb p"
      using ev False by (auto simp: exp_event_def split: event2.splits)
    then show ?thesis by (rule servers_do_load [OF s])
  next
    case (Client_Receives k)
    show ?thesis by (rule less, rule answer_load [OF _ False]) (use ev Client_Receives in simp)
  next
    case (Client_Loops c)
    then have "c < length (clients x)" "y = set_client c (client_loops qd n (clients x ! c)) x"
      using ev False by (auto simp: exp_event_def split: if_splits)
    then show ?thesis
      by (rule quiet_load) (simp add: client_loops_def Let_def next_tosend_def split: client_pc.splits)
  qed
qed (simp add: moved_def)

lemma exp_step_load:
  assumes ok: "trial_ok qd n 0 x" and cfg: "bench_ok qd n" and st: "exp_step qd n sz ev x = Inr y"
  shows "trial_load qd n y + (if moved x y then 1 else 0) \<le> trial_load qd n x"
proof -
  obtain t e where e: "ev = (t, e)" by (cases ev)
  let ?x = "x\<lparr>servers := (servers x)\<lparr>clock2 := max t (clock2 (servers x))\<rparr>\<rparr>"
  have "trial_ok qd n 0 ?x" by (rule trial_clock [OF ok]) simp
  moreover have "exp_event qd n sz (max t (clock2 (servers x))) e ?x = Inr y"
    using st by (simp add: exp_step_def e Let_def)
  ultimately have "trial_load qd n y + (if moved ?x y then 1 else 0) \<le> trial_load qd n ?x"
    by (rule exp_event_load [OF _ cfg])
  moreover have "trial_load qd n ?x = trial_load qd n x" "moved ?x y = moved x y"
    by (simp_all add: trial_load_def servers_load_def moved_def)
  ultimately show ?thesis by simp
qed

lemma run_load:
  assumes cfg: "bench_ok qd n"
  shows "trial_ok qd n 0 x \<Longrightarrow> moves qd n sz evs x \<le> trial_load qd n x"
proof (induction evs arbitrary: x)
  case (Cons ev evs)
  from exp_step_ok [OF Cons.prems cfg, of sz ev] obtain y where y: "exp_step qd n sz ev x = Inr y" "trial_ok qd n 0 y"
    by auto
  have "moves qd n sz evs y \<le> trial_load qd n y" by (rule Cons.IH [OF y(2)])
  with exp_step_load [OF Cons.prems cfg y(1)] show ?case by (simp add: y(1) split: if_splits)
qed simp

text \<open>
  The put experiment has only so much to do: however clients, servers and network interleave, with or without
  failing calls, of all the steps of a run at most eight for each request that the clients may schedule
  move a request; all the others are rounds of the clients that find nothing to send, or change connections.
\<close>

theorem exp2_work_bounded:
  assumes "addrs \<noteq> []" and "length addrs < 4294967296"
    and "1 \<le> unat qd" and "unat qd \<le> 2147483647" and "unat n < 9223372036854775808"
  shows "moves qd n sz evs (exp_start qd n nt addrs) \<le> 8 * nt * (unat n + unat qd)"
proof -
  have cfg: "bench_ok qd n" using assms(3-5) by (simp add: bench_ok_def)
  have "leaf_load LeafHandler2_new = 0" by (simp add: leaf_load_def LeafHandler2_new_def)
  then have "trial_load qd n (exp_start qd n nt addrs) = 8 * nt * (unat n + unat qd)"
    by (simp add: trial_load_def exp_start_def sys2_start_def servers_load_def new_client_def bench_start_def
        sum_list_replicate algebra_simps)
  with run_load [OF cfg exp_start_ok [OF assms(1,2) cfg], of sz evs nt] show ?thesis by simp
qed

text \<open>In the run with one put all eight steps are made, out of sixteen allowed.\<close>

theorem exp2_work_bounded_witness:
  "moves 1 1 1 demo_trial (exp_start 1 1 1 [(''a'', 1)]) = 8 \<and>
   moves 1 1 1 demo_trial (exp_start 1 1 1 [(''a'', 1)]) \<le> 8 * 1 * (unat (1 :: u64) + unat (1 :: u32))"
proof -
  have "moves 1 1 1 demo_trial (exp_start 1 1 1 [(''a'', 1)]) = 8"
    by (simp add: demo_trial_def trial_evals moved_def)
  with exp2_work_bounded [of "[(''a'', 1)]" 1 1 1 demo_trial 1] show ?thesis by simp
qed


end
