(* ===== verification/Exp2Fair.thy ===== *)
theory Exp2Fair
  imports Exp2Liveness
begin

text \<open>
  Infinite runs of the put experiment of \<open>fbthrift/exp2\<close>. A schedule says which step each moment has; it is
  fair when every client's thread goes on and, if again and again some request could be moved, again and again one is.
  Then every client finishes that has not lost as many calls as its queue depth.
\<close>

section \<open>Runs\<close>

fun trial_at :: "u32 \<Rightarrow> u64 \<Rightarrow> u32 \<Rightarrow> (nat \<Rightarrow> int \<times> exp_event) \<Rightarrow> trial \<Rightarrow> nat \<Rightarrow> trial" where
  "trial_at qd n sz sch x 0 = x"
| "trial_at qd n sz sch x (Suc m) =
     (case exp_step qd n sz (sch m) (trial_at qd n sz sch x m) of
        Inl err \<Rightarrow> trial_at qd n sz sch x m
      | Inr y \<Rightarrow> y)"

definition can_move :: "u32 \<Rightarrow> u64 \<Rightarrow> u32 \<Rightarrow> trial \<Rightarrow> bool" where
  "can_move qd n sz x \<longleftrightarrow> (\<exists>ev y. exp_step qd n sz ev x = Inr y \<and> moved x y)"

definition fair :: "u32 \<Rightarrow> u64 \<Rightarrow> u32 \<Rightarrow> (nat \<Rightarrow> int \<times> exp_event) \<Rightarrow> trial \<Rightarrow> bool" where
  "fair qd n sz sch x \<longleftrightarrow>
     (\<forall>c < length (clients x). \<forall>m. \<exists>k \<ge> m. snd (sch k) = Client_Sends c) \<and>
     (\<forall>c < length (clients x). \<forall>m. \<exists>k \<ge> m. snd (sch k) = Client_Loops c) \<and>
     ((\<forall>m. \<exists>k \<ge> m. can_move qd n sz (trial_at qd n sz sch x k)) \<longrightarrow>
      (\<forall>m. \<exists>k \<ge> m. moved (trial_at qd n sz sch x k) (trial_at qd n sz sch x (Suc k))))"

lemma fairD:
  assumes "fair qd n sz sch x"
  shows "c < length (clients x) \<Longrightarrow> \<exists>k \<ge> m. snd (sch k) = Client_Sends c"
    and "c < length (clients x) \<Longrightarrow> \<exists>k \<ge> m. snd (sch k) = Client_Loops c"
    and "\<forall>m. \<exists>k \<ge> m. can_move qd n sz (trial_at qd n sz sch x k) \<Longrightarrow>
      \<exists>k \<ge> m. moved (trial_at qd n sz sch x k) (trial_at qd n sz sch x (Suc k))"
  using assms unfolding fair_def by blast+

text \<open>No step of a run fails.\<close>

lemma trial_at_step:
  assumes "trial_ok qd n 0 x" and cfg: "bench_ok qd n"
  shows "trial_ok qd n 0 (trial_at qd n sz sch x m) \<and>
    exp_step qd n sz (sch m) (trial_at qd n sz sch x m) = Inr (trial_at qd n sz sch x (Suc m))"
proof -
  have next_ok: "\<exists>y. exp_step qd n sz ev z = Inr y \<and> trial_ok qd n 0 y" if "trial_ok qd n 0 z" for ev z
    using exp_step_ok [OF that cfg] by simp
  have "trial_ok qd n 0 (trial_at qd n sz sch x m)"
  proof (induction m)
    case (Suc m)
    from next_ok [OF Suc.IH, of "sch m"] show ?case by auto
  qed (use assms(1) in simp)
  with next_ok [OF this, of "sch m"] show ?thesis by auto
qed

declare trial_at.simps(2) [simp del]

section \<open>Quiet states\<close>

text \<open>What cannot move is with the clients, or is lost.\<close>

lemma can_move_event:
  assumes "exp_event qd n sz (clock2 (servers x)) e x = Inr y" and "moved x y"
  shows "can_move qd n sz x"
proof -
  have "exp_step qd n sz (clock2 (servers x), e) x = Inr y" using assms(1) by (simp add: exp_step_def Let_def)
  with assms(2) show ?thesis unfolding can_move_def by blast
qed

lemma quiet_state:
  assumes ok: "trial_ok qd n 0 x" and cfg: "bench_ok qd n" and quiet: "\<not> can_move qd n sz x"
  shows "sent x = []" and "open2 (db2 (servers x)) = []"
    and "\<And>k. k < length (inbox x) \<Longrightarrow> pc (clients x ! fst (inbox x ! k)) \<noteq> Polling"
    and "\<And>c i. c < length (clients x) \<Longrightarrow> pc (clients x ! c) = Sending i \<Longrightarrow> unat (req_tosend (bench (clients x ! c))) \<le> i"
proof -
  let ?c = "clock2 (servers x)"
  have s: "sys2_ok (servers x)" using ok by (simp add: trial_ok_def)
  have total: "\<exists>y. exp_event qd n sz ?c e x = Inr y" for e using exp_event_ok [OF ok cfg _ refl, of sz e] by auto
  show sent: "sent x = []"
  proof (rule ccontr)
    assume ne: "sent x \<noteq> []"
    obtain y where y: "exp_event qd n sz ?c (Put_Delivered 0) x = Inr y" using total by blast
    with ne have "sent y = drop 1 (sent x)" by (auto simp: exp_event_def servers_do_def result_simps)
    with ne have "moved x y" by (cases "sent x") (auto simp: moved_def)
    with can_move_event [OF y] quiet show False by blast
  qed
  show "open2 (db2 (servers x)) = []"
  proof (rule idle_open [OF s], rule ccontr)
    assume "work x \<noteq> 0"
    then obtain e s' where e: "\<forall>cb p. e \<noteq> Put_Arrives cb p" "sys2_event ?c e (servers x) = Inr s'"
      "5 * length (calls_on_wire s') + sum_list (map leaf_work (leaf_servers s')) < work x"
      using server_work [OF ok sent] by auto
    let ?y = "x\<lparr>servers := s', inbox := inbox x @ drop (length (replies2 (db2 (servers x)))) (replies2 (db2 s'))\<rparr>"
    have "exp_event qd n sz ?c (Server_Event e) x = Inr ?y"
      using e(1,2) by (cases e) (simp_all add: exp_event_def servers_do_def)
    moreover have "moved x ?y" using e(3) sent by (auto simp: moved_def work_def)
    ultimately show False using can_move_event quiet by blast
  qed
  show "pc (clients x ! fst (inbox x ! k)) \<noteq> Polling" if k: "k < length (inbox x)" for k
  proof
    assume pc: "pc (clients x ! fst (inbox x ! k)) = Polling"
    have "inbox x ! k \<in> set (inbox x)" using k by simp
    then have "fst (inbox x ! k) < length (clients x)" using ok by (force simp: trial_ok_def inbox_ok_def sent_at_def)
    moreover obtain y where y: "exp_event qd n sz ?c (Client_Receives k) x = Inr y" using total by blast
    ultimately have "inbox y = take k (inbox x) @ drop (Suc k) (inbox x)"
      using k pc by (auto simp: exp_event_def Let_def result_simps)
    then have "length (inbox y) \<noteq> length (inbox x)" using k by simp
    then have "moved x y" by (auto simp: moved_def)
    with can_move_event [OF y] quiet show False by blast
  qed
  show "unat (req_tosend (bench (clients x ! c))) \<le> i" if c: "c < length (clients x)" "pc (clients x ! c) = Sending i" for c i
  proof (rule ccontr)
    assume "\<not> unat (req_tosend (bench (clients x ! c))) \<le> i"
    then have lt: "i < unat (req_tosend (bench (clients x ! c)))" by simp
    obtain y where y: "exp_event qd n sz ?c (Client_Sends c) x = Inr y" using total by blast
    with c lt have "length (sent y) = Suc (length (sent x))" by (auto simp: exp_event_def client_put_now_def)
    then have "moved x y" by (auto simp: moved_def)
    with can_move_event [OF y] quiet show False by blast
  qed
qed

text \<open>A polling client then waits for its lost calls only.\<close>

lemma quiet_polling:
  assumes ok: "trial_ok qd n 0 x" and cfg: "bench_ok qd n" and quiet: "\<not> can_move qd n sz x"
    and c: "c < length (clients x)" and pc: "pc (clients x ! c) = Polling"
  shows "unat (req_out (bench (clients x ! c))) = length (lost_of c x)"
proof -
  note q = quiet_state [OF ok cfg quiet]
  have "fst y \<noteq> c" if "y \<in> set (inbox x)" for y
    using that q(3) pc by (auto simp: in_set_conv_nth)
  then have "filter (\<lambda>y. fst y = c) (inbox x) = []" by (simp add: filter_empty_conv)
  then have "length (items_of c x) = length (lost_of c x)"
    using q(1,2) by (simp add: items_of_def items_def lost_of_def filter_map comp_def)
  with items_of_count [OF ok c] show ?thesis by simp
qed

section \<open>What a step does to one client\<close>

lemma step_own:
  assumes "exp_step qd n sz ev x = Inr y" and "c < length (clients x)"
  shows "snd ev = Client_Sends c \<Longrightarrow> clients y ! c = client_sends (max (fst ev) (clock2 (servers x))) (clients x ! c)"
    and "snd ev = Client_Loops c \<Longrightarrow> clients y ! c = client_loops qd n (clients x ! c)"
  using assms by (cases ev, auto simp: exp_step_def exp_event_def Let_def)+

lemma step_pc:
  assumes st: "exp_step qd n sz ev x = Inr y" and c: "c < length (clients x)"
    and pc: "pc (clients x ! c) = Finished \<or> pc (clients x ! c) = Polling \<and> snd ev \<noteq> Client_Loops c"
  shows "pc (clients y ! c) = pc (clients x ! c)"
proof -
  obtain t e where e: "ev = (t, e)" by (cases ev)
  have fixed: "pc (client_sends now (clients x ! c)) = pc (clients x ! c)" for now
    using pc by (auto simp: client_sends_def)
  have fin: "pc (clients x ! c) = Finished \<Longrightarrow> client_loops qd n (clients x ! c) = clients x ! c"
    by (simp add: client_loops_def)
  show ?thesis
  proof (cases e)
    case (Client_Sends d)
    then show ?thesis
      using st fixed by (cases "d = c") (auto simp: e exp_step_def exp_event_def Let_def split: if_splits)
  next
    case (Client_Loops d)
    then show ?thesis
      using st pc fin by (cases "d = c") (auto simp: e exp_step_def exp_event_def Let_def split: if_splits)
  next
    case (Client_Receives k)
    then show ?thesis
      using st by (cases "fst (inbox x ! k) = c")
        (auto simp: e exp_step_def exp_event_def Let_def result_simps split: if_splits)
  qed (use st in \<open>auto simp: e exp_step_def exp_event_def servers_do_def Let_def result_simps
      split: if_splits event2.splits\<close>)
qed

lemma step_lost:
  assumes ok: "trial_ok qd n 0 x" and st: "exp_step qd n sz ev x = Inr y"
  shows "length (lost_of c x) \<le> length (lost_of c y)"
proof -
  obtain t e where e: "ev = (t, e)" by (cases ev)
  let ?now = "max t (clock2 (servers x))"
  let ?x = "x\<lparr>servers := (servers x)\<lparr>clock2 := ?now\<rparr>\<rparr>"
  have "trial_ok qd n 0 ?x" by (rule trial_clock [OF ok]) simp
  then have "sys2_ok (servers ?x)" by (simp add: trial_ok_def)
  moreover have "exp_event qd n sz ?now e ?x = Inr y" using st by (simp add: exp_step_def e Let_def)
  ultimately have "\<exists>Q. dropped2 (db2 (servers y)) = dropped2 (db2 (servers ?x)) @ Q" by (rule exp_event_dropped)
  then show ?thesis by (auto simp: lost_of_def)
qed

section \<open>A run settles down\<close>

lemma eventually_constant:
  assumes "\<And>m. f (Suc m) \<le> (f m :: nat)"
  shows "\<exists>M. \<forall>k \<ge> M. f (Suc k) = f k"
proof -
  define v where "v = (LEAST v. v \<in> range f)"
  have "v \<in> range f" unfolding v_def by (rule LeastI [of _ "f 0"]) simp
  then obtain M where M: "v = f M" by blast
  have low: "v \<le> f k" for k unfolding v_def by (rule Least_le) simp
  have "f k = v" if "M \<le> k" for k
    using lift_Suc_antimono_le [of f, OF assms that] low [of k] M by simp
  then have "f (Suc k) = f k" if "M \<le> k" for k using that by (metis le_SucI)
  then show ?thesis by blast
qed

text \<open>In a fair run nothing can move any more from some moment on, since every move takes from the load.\<close>

lemma fair_quiet:
  assumes ok: "trial_ok qd n 0 x" and cfg: "bench_ok qd n" and fair: "fair qd n sz sch x"
  shows "\<exists>M. \<forall>k \<ge> M. \<not> can_move qd n sz (trial_at qd n sz sch x k)"
proof -
  let ?at = "trial_at qd n sz sch x"
  have load: "trial_load qd n (?at (Suc m)) + (if moved (?at m) (?at (Suc m)) then 1 else 0) \<le> trial_load qd n (?at m)" for m
    using trial_at_step [OF ok cfg, of sz sch m] exp_step_load [OF _ cfg] by blast
  obtain M where M: "\<forall>k \<ge> M. trial_load qd n (?at (Suc k)) = trial_load qd n (?at k)"
    using eventually_constant [of "\<lambda>m. trial_load qd n (?at m)"] load add_leD1 by blast
  have "\<not> moved (?at k) (?at (Suc k))" if "M \<le> k" for k
    using M that load [of k] by (auto split: if_splits)
  then show ?thesis using fairD(3) [OF fair, of M] by blast
qed

text \<open>Finished clients stay finished, polling clients poll until the end of their round, lost calls stay lost.\<close>

lemma trial_at_length:
  assumes "trial_ok qd n 0 x" and "bench_ok qd n"
  shows "length (clients (trial_at qd n sz sch x m)) = length (clients x)"
proof (induction m)
  case (Suc m)
  from trial_at_step [OF assms, of sz sch m] exp_step_clients Suc show ?case by metis
qed simp

lemma polls_on:
  assumes ok: "trial_ok qd n 0 x" and cfg: "bench_ok qd n" and c: "c < length (clients x)" and "k \<le> m"
    and pc: "pc (clients (trial_at qd n sz sch x k) ! c) = Polling"
    and no: "\<And>j. k \<le> j \<Longrightarrow> j < m \<Longrightarrow> snd (sch j) \<noteq> Client_Loops c"
  shows "pc (clients (trial_at qd n sz sch x m) ! c) = Polling"
  using \<open>k \<le> m\<close> no
proof (induction m rule: dec_induct)
  case (step m)
  have st: "exp_step qd n sz (sch m) (trial_at qd n sz sch x m) = Inr (trial_at qd n sz sch x (Suc m))"
    using trial_at_step [OF ok cfg] by blast
  have "c < length (clients (trial_at qd n sz sch x m))" using c trial_at_length [OF ok cfg] by simp
  from step_pc [OF st this] step show ?case by simp
qed (rule pc)

lemma settled_on:
  assumes ok: "trial_ok qd n 0 x" and cfg: "bench_ok qd n" and c: "c < length (clients x)" and "k \<le> m"
    and fin: "pc (clients (trial_at qd n sz sch x k) ! c) = Finished \<or> unat qd \<le> length (lost_of c (trial_at qd n sz sch x k))"
  shows "pc (clients (trial_at qd n sz sch x m) ! c) = Finished \<or> unat qd \<le> length (lost_of c (trial_at qd n sz sch x m))"
  using \<open>k \<le> m\<close>
proof (induction m rule: dec_induct)
  case (step m)
  note st = trial_at_step [OF ok cfg, of sz sch m]
  have "c < length (clients (trial_at qd n sz sch x m))" using c trial_at_length [OF ok cfg] by simp
  then have "pc (clients (trial_at qd n sz sch x m) ! c) = Finished \<Longrightarrow>
      pc (clients (trial_at qd n sz sch x (Suc m)) ! c) = Finished" using step_pc [OF conjunct2 [OF st]] by simp
  moreover have "length (lost_of c (trial_at qd n sz sch x m)) \<le> length (lost_of c (trial_at qd n sz sch x (Suc m)))"
    by (rule step_lost [OF conjunct1 [OF st] conjunct2 [OF st]])
  ultimately show ?case using step.IH by linarith
qed (rule fin)

section \<open>Fair runs end\<close>

lemma fair_client:
  assumes ok: "trial_ok qd n 0 x" and cfg: "bench_ok qd n" and fair: "fair qd n sz sch x" and c: "c < length (clients x)"
  shows "\<exists>m. pc (clients (trial_at qd n sz sch x m) ! c) = Finished \<or>
    unat qd \<le> length (lost_of c (trial_at qd n sz sch x m))"
proof (rule ccontr)
  let ?at = "trial_at qd n sz sch x"
  assume "\<not> ?thesis"
  then have open_c: "pc (clients (?at m) ! c) \<noteq> Finished" "length (lost_of c (?at m)) < unat qd" for m by (auto simp: not_le)
  obtain M where quiet: "\<And>k. M \<le> k \<Longrightarrow> \<not> can_move qd n sz (?at k)" using fair_quiet [OF ok cfg fair] by blast
  have at: "trial_ok qd n 0 (?at m)" "exp_step qd n sz (sch m) (?at m) = Inr (?at (Suc m))" "c < length (clients (?at m))" for m
    using trial_at_step [OF ok cfg, of sz sch m] trial_at_length [OF ok cfg, of sz sch m] c by auto
  obtain k where k: "M \<le> k" "snd (sch k) = Client_Sends c" using fairD(1) [OF fair c] by blast
  have idle: "unat (req_tosend (bench (clients (?at j) ! c))) \<le> i" if "M \<le> j" "pc (clients (?at j) ! c) = Sending i" for i j
    by (rule quiet_state(4) [OF at(1) cfg quiet [OF that(1)] at(3) that(2)])
  have step_sends: "clients (?at (Suc k)) ! c = client_sends (max (fst (sch k)) (clock2 (servers (?at k)))) (clients (?at k) ! c)"
    by (rule step_own(1) [OF at(2,3) k(2)])
  have poll: "pc (clients (?at (Suc k)) ! c) = Polling"
  proof (cases "pc (clients (?at k) ! c)")
    case (Sending i)
    then show ?thesis using idle [OF k(1) Sending] unfolding step_sends by (simp add: client_sends_def)
  qed (use open_c(1) [of k] in \<open>simp_all add: step_sends client_sends_def\<close>)
  obtain l where "Suc k \<le> l \<and> snd (sch l) = Client_Loops c" using fairD(2) [OF fair c] by blast
  then obtain m where m: "Suc k \<le> m" "snd (sch m) = Client_Loops c" "\<And>j. j < m \<Longrightarrow> \<not> (Suc k \<le> j \<and> snd (sch j) = Client_Loops c)"
    using exists_least_iff [of "\<lambda>l. Suc k \<le> l \<and> snd (sch l) = Client_Loops c"] by blast
  have pm: "pc (clients (?at m) ! c) = Polling" by (rule polls_on [OF ok cfg c m(1) poll]) (use m(3) in blast)
  let ?b = "bench (clients (?at m) ! c)"
  have q: "M \<le> m" "M \<le> Suc m" using k(1) m(1) by simp_all
  have free: "unat (req_out ?b) < unat qd"
    using quiet_polling [OF at(1) cfg quiet [OF q(1)] at(3) pm] open_c(2) [of m] by simp
  have after: "clients (?at (Suc m)) ! c = client_loops qd n (clients (?at m) ! c)"
    by (rule step_own(2) [OF at(2,3) m(2)])
  then have todo: "req_complete ?b < n" and next_pc: "pc (clients (?at (Suc m)) ! c) = Sending 0"
    and next_b: "bench (clients (?at (Suc m)) ! c) = next_tosend qd n ?b"
    using pm open_c(1) [of "Suc m"] next_tosend_frame [of qd n ?b] by (auto simp: client_loops_def Let_def split: if_splits)
  have "1 \<le> unat (req_tosend (next_tosend qd n ?b))"
    by (rule next_tosend_positive [OF cfg free]) (use todo in \<open>simp add: word_less_nat_alt\<close>)
  moreover have "unat (req_tosend (next_tosend qd n ?b)) \<le> 0" using idle [OF q(2) next_pc] by (simp only: next_b)
  ultimately show False by simp
qed



section \<open>A fair schedule\<close>

text \<open>The run with one put, after which the client's thread goes on for ever.\<close>

definition demo_schedule :: "nat \<Rightarrow> int \<times> exp_event" where
  "demo_schedule m =
     (if m < length demo_trial then demo_trial ! m else (0, if even m then Client_Sends 0 else Client_Loops 0))"

lemma at_rest:
  assumes "clients x = [cl]" and "pc cl = Finished" and "sent x = []" and "inbox x = []"
    and "calls_on_wire (servers x) = []" and "leaf_servers (servers x) = [LeafHandler2_new]"
  shows "\<not> can_move qd n sz x" and "t \<le> clock2 (servers x) \<Longrightarrow> exp_step qd n sz (t, Client_Sends 0) x = Inr x"
    and "t \<le> clock2 (servers x) \<Longrightarrow> exp_step qd n sz (t, Client_Loops 0) x = Inr x"
proof -
  have "\<not> moved x y" if "exp_step qd n sz (t, e) x = Inr y" for t e y
  proof (cases e)
    case (Server_Event e2)
    then show ?thesis
      using that assms
      by (cases e2) (auto simp: exp_step_def exp_event_def servers_do_def sys2_event_def on_leaf_def Let_def moved_def
          leaf2_start_def leaf2_burnt_def leaf2_respond_def LeafHandler2_new_def db2_failed_def less_Suc_eq
          split: option.splits if_splits)
  qed (use that assms in \<open>auto simp: exp_step_def exp_event_def Let_def moved_def client_put_now_def less_Suc_eq
      split: if_splits\<close>)
  then show "\<not> can_move qd n sz x" by (auto simp: can_move_def)
  show "t \<le> clock2 (servers x) \<Longrightarrow> exp_step qd n sz (t, Client_Sends 0) x = Inr x"
    "t \<le> clock2 (servers x) \<Longrightarrow> exp_step qd n sz (t, Client_Loops 0) x = Inr x"
    using assms by (simp_all add: exp_step_def exp_event_def Let_def client_sends_def client_loops_def client_put_now_def
        set_client_def max_absorb2)
qed

lemma demo_schedule_rests:
  obtains y where "\<And>m. length demo_trial \<le> m \<Longrightarrow> trial_at 1 1 1 demo_schedule (exp_start 1 1 1 [(''a'', 1)]) m = y"
    "\<not> can_move 1 1 1 y" "dropped2 (db2 (servers y)) = []"
proof -
  let ?x = "exp_start 1 1 1 [(''a'', 1)]"
  have cfg: "bench_ok 1 1" by (simp add: bench_ok_def)
  have ok: "trial_ok 1 1 0 ?x" by (rule exp_start_ok [OF _ _ cfg]) simp_all
  have "\<exists>y cl. foldE (exp_step 1 1 1) demo_trial ?x = Inr y \<and> clients y = [cl] \<and> pc cl = Finished \<and> sent y = [] \<and>
      inbox y = [] \<and> calls_on_wire (servers y) = [] \<and> leaf_servers (servers y) = [LeafHandler2_new] \<and>
      clock2 (servers y) = 21 \<and> dropped2 (db2 (servers y)) = []"
    by (simp add: demo_trial_def trial_evals)
  then obtain y cl where y: "foldE (exp_step 1 1 1) demo_trial ?x = Inr y" "clients y = [cl]" "pc cl = Finished"
    "sent y = []" "inbox y = []" "calls_on_wire (servers y) = []" "leaf_servers (servers y) = [LeafHandler2_new]"
    "clock2 (servers y) = 21" "dropped2 (db2 (servers y)) = []" by blast
  have "map demo_schedule [0..<length demo_trial] = demo_trial"
    by (rule nth_equalityI) (simp_all add: demo_schedule_def)
  moreover have "foldE (exp_step 1 1 1) (map demo_schedule [0..<m]) ?x = Inr (trial_at 1 1 1 demo_schedule ?x m)" for m
    by (induction m) (use trial_at_step [OF ok cfg, of 1 demo_schedule] in \<open>simp_all add: foldE_append\<close>)
  ultimately have first: "trial_at 1 1 1 demo_schedule ?x (length demo_trial) = y" using y(1) by (metis sum.inject(2))
  note rest = at_rest [OF y(2-7)]
  have "trial_at 1 1 1 demo_schedule ?x m = y" if "length demo_trial \<le> m" for m
    using that
  proof (induction m rule: dec_induct)
    case (step m)
    then show ?case using rest(2,3) [of 0] y(8) by (simp add: trial_at.simps(2) demo_schedule_def)
  qed (rule first)
  from that [OF this rest(1) y(9)] show ?thesis .
qed

lemma demo_schedule_fair: "fair 1 1 1 demo_schedule (exp_start 1 1 1 [(''a'', 1)])"
proof -
  let ?x = "exp_start 1 1 1 [(''a'', 1)]" and ?L = "length demo_trial"
  let ?at = "trial_at 1 1 1 demo_schedule ?x"
  obtain y where y: "\<And>m. ?L \<le> m \<Longrightarrow> ?at m = y" "\<not> can_move 1 1 1 y" by (rule demo_schedule_rests) blast
  have later: "demo_schedule m = (0, if even m then Client_Sends 0 else Client_Loops 0)" if "?L \<le> m" for m
    using that by (simp add: demo_schedule_def)
  have "\<not> (\<forall>m. \<exists>k \<ge> m. can_move 1 1 1 (?at k))" using y by metis
  moreover have "\<exists>k \<ge> m. snd (demo_schedule k) = Client_Sends 0" for m
    using later [of "2 * (m + ?L)"] by (intro exI [of _ "2 * (m + ?L)"]) simp
  moreover have "\<exists>k \<ge> m. snd (demo_schedule k) = Client_Loops 0" for m
    using later [of "Suc (2 * (m + ?L))"] by (intro exI [of _ "Suc (2 * (m + ?L))"]) simp
  moreover have "c = 0" if "c < length (clients ?x)" for c using that by (simp add: exp_start_def)
  ultimately show ?thesis unfolding fair_def by blast
qed


end
