(* ===== verification/Exp3Experiment.thy ===== *)
theory Exp3Experiment
  imports Exp3System Exp2Experiment
begin

text \<open>
  The whole experiment of \<open>fbthrift/exp3\<close>: any number of benchmark threads of \<open>DB/client.cpp\<close> with the database server
  and the leaf servers of \<open>Exp3System\<close>, and the messages under way between clients and server. A client first lays down
  its files with synchronous writes, then runs the same loop as the client of \<open>exp2\<close> (\<open>put_client\<close>), with
  reads for puts. The callback a call has at the database server is the number of its client.
\<close>

section \<open>Clients\<close>

datatype client_msg = Ask_Write string bytes | Ask_Read u64 string u32

text \<open>\<open>acking\<close>: the client waits in \<open>sync_write\<close>.\<close>

record read_client =
  laid :: nat
  acking :: bool
  reader :: put_client

definition new_reader :: "u32 \<Rightarrow> u64 \<Rightarrow> read_client" where
  "new_reader qd n = \<lparr>laid = 0, acking = False, reader = new_client qd n\<rparr>"

text \<open>The next file of \<open>laydown_files\<close>, whose index is an \<open>int\<close>, and the return from \<open>sync_write\<close>.\<close>

definition client3_lays :: "u64 \<Rightarrow> u32 \<Rightarrow> read_client \<Rightarrow> read_client \<times> client_msg list" where
  "client3_lays n sz rc =
     (if laid rc < unat n \<and> \<not> acking rc then
        (rc\<lparr>acking := True\<rparr>, [Ask_Write (decimal (laid rc)) (replicate (unat sz) 65)])
      else (rc, []))"

definition client3_acked :: "read_client \<Rightarrow> read_client result" where
  "client3_acked rc =
     (if \<not> acking rc then Inr rc
      else if laid rc = 2147483647 then Inl Signed_Overflow
      else Inr (rc\<lparr>laid := Suc (laid rc), acking := False\<rparr>))"

definition client3_sends :: "int \<Rightarrow> u64 \<Rightarrow> u32 \<Rightarrow> read_client \<Rightarrow> read_client \<times> client_msg list" where
  "client3_sends now n sz rc =
     (if laid rc = unat n then
        (rc\<lparr>reader := client_sends now (reader rc)\<rparr>,
         case pc (reader rc) of
           Sending i \<Rightarrow>
             if i < unat (req_tosend (bench (reader rc))) then [Ask_Read (req_id (bench (reader rc))) (decimal i) sz] else []
         | _ \<Rightarrow> [])
      else (rc, []))"

definition client3_reply :: "DBBenchmarkData \<Rightarrow> bench_reply" where
  "client3_reply r =
     \<lparr>reply_id = db_request_id r, reply_length = length (db_data r), reply_db = 0,
      reply_leaf = of_int (db_leaf_latency r), reply_io = of_int (db_io_latency r), reply_cpu = of_int (db_cpu_consumed r)\<rparr>"

definition client3_receives :: "u32 \<Rightarrow> int \<Rightarrow> DBBenchmarkData \<Rightarrow> read_client \<Rightarrow> read_client result" where
  "client3_receives sz now r rc =
     bindE (receive_reply (\<lambda>k. k = unat sz) (now, client3_reply r) (bench (reader rc))) (\<lambda>b.
       Inr (rc\<lparr>reader := (reader rc)\<lparr>bench := b\<rparr>\<rparr>))"

section \<open>The system\<close>

record 'f trial3 =
  readers :: "read_client list"
  system3 :: "'f sys3"
  asked :: "(nat \<times> client_msg) list"
  inbox3 :: "db_reply list"

datatype 'f exp3_event =
    Reader_Lays nat
  | Reader_Sends nat
  | Message_Arrives nat              \<comment> \<open>which of those sent\<close>
  | System_Event "'f event3"
  | Reply_Arrives nat                \<comment> \<open>which of those in the inbox\<close>
  | Reader_Loops nat

fun ask_event :: "int \<Rightarrow> nat \<Rightarrow> client_msg \<Rightarrow> 'f event3" where
  "ask_event now c (Ask_Write k d) = Client_Writes c k d"
| "ask_event now c (Ask_Read reqid fn sz) = Client_Reads now c reqid fn sz"

fun client_call :: "'f event3 \<Rightarrow> bool" where
  "client_call (Client_Writes cb k d) = True"
| "client_call (Client_Reads now cb reqid fn sz) = True"
| "client_call _ = False"

definition system_does :: "'f event3 \<Rightarrow> 'f trial3 \<Rightarrow> 'f trial3 result" where
  "system_does e x =
     bindE (sys3_step e (system3 x)) (\<lambda>s.
       Inr (x\<lparr>system3 := s,
         inbox3 := inbox3 x @ drop (length (db_replies (db3 (system3 x)))) (db_replies (db3 s))\<rparr>))"

definition exp3_event :: "u32 \<Rightarrow> u64 \<Rightarrow> u32 \<Rightarrow> int \<Rightarrow> 'f exp3_event \<Rightarrow> 'f trial3 \<Rightarrow> 'f trial3 result" where
  "exp3_event qd n sz now e x =
     (case e of
        Reader_Lays c \<Rightarrow>
          Inr (if c < length (readers x) then
                 case client3_lays n sz (readers x ! c) of (rc, ms) \<Rightarrow>
                   x\<lparr>readers := (readers x)[c := rc], asked := asked x @ map (Pair c) ms\<rparr>
               else x)
      | Reader_Sends c \<Rightarrow>
          Inr (if c < length (readers x) then
                 case client3_sends now n sz (readers x ! c) of (rc, ms) \<Rightarrow>
                   x\<lparr>readers := (readers x)[c := rc], asked := asked x @ map (Pair c) ms\<rparr>
               else x)
      | Message_Arrives k \<Rightarrow>
          if k < length (asked x) then
            system_does (ask_event now (fst (asked x ! k)) (snd (asked x ! k)))
              (x\<lparr>asked := take k (asked x) @ drop (Suc k) (asked x)\<rparr>)
          else Inr x
      | System_Event e3 \<Rightarrow> if client_call e3 then Inr x else system_does e3 x
      | Reply_Arrives k \<Rightarrow>
          if k < length (inbox3 x) then
            let x' = x\<lparr>inbox3 := take k (inbox3 x) @ drop (Suc k) (inbox3 x)\<rparr> in
            case inbox3 x ! k of
              DB_Done c \<Rightarrow>
                if c < length (readers x) then
                  bindE (client3_acked (readers x ! c)) (\<lambda>rc. Inr (x'\<lparr>readers := (readers x)[c := rc]\<rparr>))
                else Inr x
            | DB_Data c r \<Rightarrow>
                if c < length (readers x) \<and> pc (reader (readers x ! c)) = Polling then
                  bindE (client3_receives sz now r (readers x ! c)) (\<lambda>rc. Inr (x'\<lparr>readers := (readers x)[c := rc]\<rparr>))
                else Inr x
          else Inr x
      | Reader_Loops c \<Rightarrow>
          Inr (if c < length (readers x) then
                 let rc = readers x ! c in
                 x\<lparr>readers := (readers x)[c := rc\<lparr>reader := client_loops qd n (reader rc)\<rparr>]\<rparr>
               else x))"

definition exp3_start :: "u32 \<Rightarrow> u64 \<Rightarrow> nat \<Rightarrow> Leaf list \<Rightarrow> 'f leaf_state list \<Rightarrow> 'f trial3" where
  "exp3_start qd n nt ls lfs =
     \<lparr>readers = replicate nt (new_reader qd n), system3 = sys3_start ls lfs, asked = [], inbox3 = []\<rparr>"

fun fresh_event :: "'f exp3_event \<Rightarrow> 'f trial3 \<Rightarrow> bool" where
  "fresh_event (System_Event e) x = address_fresh e (system3 x)"
| "fresh_event _ x = True"

inductive exp3_reach :: "u32 \<Rightarrow> u64 \<Rightarrow> u32 \<Rightarrow> 'f trial3 \<Rightarrow> 'f trial3 \<Rightarrow> bool" for qd n sz x0 where
  start: "exp3_reach qd n sz x0 x0"
| step: "exp3_reach qd n sz x0 x \<Longrightarrow> fresh_event e x \<Longrightarrow> exp3_event qd n sz now e x = Inr y \<Longrightarrow> exp3_reach qd n sz x0 y"

inductive_cases exp3_reachE: "exp3_reach qd n sz x0 x"

section \<open>Data of the size asked for\<close>

fun cont_sized :: "u32 \<Rightarrow> leaf_cont \<Rightarrow> bool" where
  "cont_sized sz (Read_Reply f fd s t) = (s = sz)"
| "cont_sized sz (Write_Done f fd) = True"

definition leaf_sized :: "u32 \<Rightarrow> 'f leaf_state \<Rightarrow> bool" where
  "leaf_sized sz l \<longleftrightarrow>
     (\<forall>k \<in> set (conts l). cont_sized sz (snd k)) \<and>
     (\<forall>t \<in> set (tasks l). task_size t = sz) \<and>
     (\<forall>f d. Reply_Data f d \<in> set (replies l) \<longrightarrow> length (leaf_data d) = unat sz)"

fun op_sized :: "u32 \<Rightarrow> 'f leaf_op \<Rightarrow> bool" where
  "op_sized sz (Read_Call env f fn s) = (s = sz)"
| "op_sized sz _ = True"

lemma size_positive:
  assumes "unat (sz :: u32) < 2147483648"
  shows "unat (scast sz :: u64) = unat sz"
proof -
  have u: "uint sz = int (unat sz)" by (rule uint_nat)
  have "sint sz = signed_take_bit 31 (uint sz)" by (simp only: sint_uint) simp
  also have "\<dots> = uint sz"
  proof (rule signed_take_bit_int_eq_self)
    have "int (unat sz) < 2147483648" "- 2147483648 \<le> int (unat sz)" using assms by linarith+
    then show "uint sz < 2 ^ 31" "- (2 ^ 31) \<le> uint sz" unfolding u [symmetric] by simp_all
  qed
  finally have s: "sint sz = int (unat sz)" by (simp only: u)
  have "(scast sz :: u64) = of_nat (unat sz)"
    by (simp only: scast_eq s of_int_of_nat_eq)
  then show ?thesis using assms by (simp add: unat_of_nat_u64)
qed

lemma leaf_step_sized:
  assumes ok: "leaf_ok l" and sz: "leaf_sized sz l" "unat sz < 2147483648" and op: "op_sized sz op"
    and st: "leaf_step op l = Inr l'"
  shows "leaf_sized sz l'"
proof (cases op)
  case (Write_Call env f fn d)
  with st have "leaf_write env f fn d l = Inr l'" by (simp add: leaf_step_def)
  from leaf_write_Inr [OF this] sz(1) show ?thesis by (auto simp: leaf_sized_def)
next
  case (Read_Call env f fn s)
  with st have "leaf_read env f fn s l = Inr l'" by (simp add: leaf_step_def)
  from leaf_read_Inr [OF this] sz(1) op Read_Call show ?thesis by (auto simp: leaf_sized_def)
next
  case (Kernel now ev)
  with st have "leaf_complete now ev l = Inr l'" by (simp add: leaf_step_def)
  from leaf_complete_Inr [OF ok this] obtain io k rest where
    k: "map_of (conts l) (ev_data ev) = Some k"
    and l': "l' = run_cont now (io\<lparr>bufp := ev_buffer ev, io_result := ioResult ev, fulfilled := True\<rparr>) k
      (l\<lparr>asyncio := (asyncio l)\<lparr>inflight := rest\<rparr>, conts := filter (\<lambda>c. fst c \<noteq> ev_data ev) (conts l)\<rparr>)"
    by blast
  have "cont_sized sz k" using sz(1) map_of_SomeD [OF k] by (auto simp: leaf_sized_def)
  then show ?thesis using sz(1) by (cases k) (auto simp: l' run_cont_def leaf_sized_def)
next
  case (Worker i cpu)
  show ?thesis
  proof (cases "i < length (tasks l)")
    case True
    let ?t = "tasks l ! i"
    have ts: "task_size ?t = sz" using True sz(1) by (simp add: leaf_sized_def)
    have l': "l' = l\<lparr>tasks := take i (tasks l) @ drop (Suc i) (tasks l), replies := replies l @ [Reply_Data (task_cb ?t)
          \<lparr>io_latency = task_latency ?t, cpu_consumed = cpu, leaf_data = take (unat sz) (task_buffer ?t)\<rparr>]\<rparr>"
      and len: "unat sz \<le> length (task_buffer ?t)"
      using st True unfolding Worker
      by (auto simp: leaf_step_def leaf_worker_def Let_def ts size_positive [OF sz(2)] split: if_splits)
    then show ?thesis using sz(1) by (auto simp: leaf_sized_def l' dest: in_set_takeD in_set_dropD)
  qed (use st sz(1) Worker in \<open>simp add: leaf_step_def leaf_worker_def\<close>)
qed

fun read_sized :: "u32 \<Rightarrow> leaf_request \<Rightarrow> bool" where
  "read_sized sz (Leaf_Read fn s) = (s = sz)"
| "read_sized sz (Leaf_Write k d) = True"

fun answer_sized :: "u32 \<Rightarrow> db_reply \<Rightarrow> bool" where
  "answer_sized sz (DB_Data cb r) = (length (db_data r) = unat sz)"
| "answer_sized sz (DB_Done cb) = True"

definition sys3_sized :: "u32 \<Rightarrow> 'f sys3 \<Rightarrow> bool" where
  "sys3_sized sz s \<longleftrightarrow>
     (\<forall>q \<in> set (requests_made (db3 s)). read_sized sz (snd q)) \<and> (\<forall>l \<in> set (leafs3 s). leaf_sized sz l) \<and>
     (\<forall>r \<in> set (db_replies (db3 s)). answer_sized sz r)"

fun event_sized :: "u32 \<Rightarrow> 'f event3 \<Rightarrow> bool" where
  "event_sized sz (Client_Reads now cb reqid fn s) = (s = sz)"
| "event_sized sz _ = True"

lemma fires_sized:
  assumes "\<forall>d. res = Some d \<longrightarrow> length (leaf_data d) = unat sz" and "r \<in> set (fire now f res w)"
  shows "answer_sized sz r"
  using assms by (cases w; cases res) (auto split: if_splits)

lemma resolve_sized:
  assumes "sys3_sized sz s" and "\<forall>d. res = Some d \<longrightarrow> length (leaf_data d) = unat sz"
    and "db3 t = resolve now f res (db3 s)" and "leafs3 t = leafs3 s"
  shows "sys3_sized sz t"
proof -
  have "answer_sized sz r" if "r \<in> set (concat (map (fire now f res) (waiting (db3 s))))" for r
    using that fires_sized [OF assms(2)] by auto
  with assms(1) show ?thesis
    unfolding sys3_sized_def assms(3,4) resolve_def by (auto simp: image_iff)
qed

lemma leaf_does_sized:
  assumes inv: "sys3_inv {#} s" and sz: "sys3_sized sz s" "unat sz < 2147483648"
    and op: "op_sized sz op" and st: "leaf_does i op (s\<lparr>undelivered := U\<rparr>) = Inr t"
  shows "sys3_sized sz t"
proof (cases "i < length (leafs3 s)")
  case True
  note I = sys3_invD [OF inv]
  from st True obtain l where l: "leaf_step op (leafs3 s ! i) = Inr l"
    "t = s\<lparr>undelivered := U, leafs3 := (leafs3 s)[i := l]\<rparr>"
    by (auto simp: leaf_does_def result_simps)
  have "leaf_ok (leafs3 s ! i)" "leaf_sized sz (leafs3 s ! i)"
    using I(3,6) True sz(1) by (simp_all add: sys3_sized_def)
  from leaf_step_sized [OF this sz(2) op l(1)] sz(1) show ?thesis
    by (auto simp: l(2) sys3_sized_def dest: in_set_update)
qed (use st sz(1) in \<open>auto simp: leaf_does_def sys3_sized_def\<close>)

lemma undelivered_made:
  assumes "sys3_inv {#} s" and "j < length (undelivered s)"
  shows "undelivered s ! j < length (requests_made (db3 s))"
proof -
  have "undelivered s ! j \<in># mset (undelivered s)" using assms(2) by simp
  then have "undelivered s ! j \<in># mset [0..<length (requests_made (db3 s))]"
    unfolding sys3_invD(10) [OF assms(1), symmetric] by simp
  then show ?thesis by simp
qed

text \<open>What a step of the servers that is not a client's call can be.\<close>

lemma sys3_step_cases:
  assumes st: "sys3_step e s = Inr t" and e: "\<not> client_call e"
  obtains (unchanged) "t = s"
  | (delivered) j i q env where "e = Call_Reaches_Leaf j env" "j < length (undelivered s)"
      "requests_made (db3 s) ! (undelivered s ! j) = (i, q)"
      "leaf_does i (leaf_call env (undelivered s ! j) q)
         (s\<lparr>undelivered := take j (undelivered s) @ drop (Suc j) (undelivered s)\<rparr>) = Inr t"
  | (kernel) i now ev where "e = Leaf_Kernel i now ev" "leaf_does i (Kernel now ev) s = Inr t"
  | (worker) i k cpu where "leaf_does i (Worker k cpu) s = Inr t"
  | (answered) i q now where "i < length (leafs3 s)" "q \<in> set (replies (leafs3 s ! i))" "reply_cb q \<notin> settled s"
      "t = s\<lparr>db3 := resolve now (reply_cb q) (reply_result q) (db3 s), returned := returned s @ [reply_cb q]\<rparr>"
  | (closed) i where "t = s\<lparr>db3 := leaf_closed i (db3 s)\<rparr>"
  | (lost) f now where "f < length (requests_made (db3 s))" "f \<notin> settled s"
      "t = s\<lparr>db3 := resolve now f None (db3 s), failed3 := failed3 s @ [f]\<rparr>"
proof (cases e)
  case (Call_Reaches_Leaf j env)
  obtain i q where q: "requests_made (db3 s) ! (undelivered s ! j) = (i, q)" by fastforce
  show ?thesis
  proof (cases "j < length (undelivered s)")
    case True
    show ?thesis
      by (rule delivered [OF Call_Reaches_Leaf True q]) (use st True q in \<open>simp add: Call_Reaches_Leaf sys3_step_def Let_def\<close>)
  qed (use st unchanged in \<open>simp add: Call_Reaches_Leaf sys3_step_def\<close>)
next
  case (Leaf_Returns i k now)
  let ?r = "replies (leafs3 s ! i) ! k"
  show ?thesis
  proof (cases "i < length (leafs3 s) \<and> k < length (replies (leafs3 s ! i)) \<and> reply_cb ?r \<notin> settled s")
    case True
    then show ?thesis
      by (intro answered [of i ?r now]) (use st in \<open>auto simp: Leaf_Returns sys3_step_def Let_def\<close>)
  qed (use st unchanged in \<open>auto simp: Leaf_Returns sys3_step_def Let_def split: if_splits\<close>)
next
  case (Leaf_Call_Fails f now)
  show ?thesis
  proof (cases "f < length (requests_made (db3 s)) \<and> f \<notin> settled s")
    case True
    then show ?thesis by (intro lost [of f now]) (use st in \<open>auto simp: Leaf_Call_Fails sys3_step_def\<close>)
  qed (use st unchanged in \<open>auto simp: Leaf_Call_Fails sys3_step_def split: if_splits\<close>)
next
  case (Leaf_Kernel i now ev)
  show ?thesis by (rule kernel [OF Leaf_Kernel]) (use st in \<open>simp add: Leaf_Kernel sys3_step_def\<close>)
next
  case (Leaf_Worker i k cpu)
  show ?thesis by (rule worker [of i k cpu]) (use st in \<open>simp add: Leaf_Worker sys3_step_def\<close>)
next
  case (Connection_Closed i)
  show ?thesis by (rule closed [of i]) (use st in \<open>simp add: Connection_Closed sys3_step_def\<close>)
qed (use e in simp_all)

lemma client_call_sized:
  assumes inv: "sys3_inv {#} s" and sz: "sys3_sized sz s"
    and e: "client_call e" "event_sized sz e" and st: "sys3_step e s = Inr t"
  shows "sys3_sized sz t"
proof (cases e)
  case (Client_Writes cb k d)
  then obtain Q where "requests_made (db3 t) = requests_made (db3 s) @ map (\<lambda>i. (i, Leaf_Write k d)) Q"
    "leafs3 t = leafs3 s" "db_replies (db3 t) = db_replies (db3 s)"
    using st by (auto simp: sys3_step_def db_write_eq [OF sys3_invD(1) [OF inv]] db_calls_def)
  then show ?thesis using sz by (simp add: sys3_sized_def ball_Un)
next
  case (Client_Reads now cb reqid fn s')
  then obtain i where "requests_made (db3 t) = requests_made (db3 s) @ [(i, Leaf_Read fn sz)]"
    "leafs3 t = leafs3 s" "db_replies (db3 t) = db_replies (db3 s)"
    using st e db_read_eq [OF sys3_invD(1,2) [OF inv], of now cb reqid fn s'] by (auto simp: sys3_step_def db_calls_def)
  then show ?thesis using sz by (simp add: sys3_sized_def ball_Un)
qed (use e in simp_all)

lemma sys3_step_sized:
  assumes inv: "sys3_inv {#} s" and sz: "sys3_sized sz s" "unat sz < 2147483648"
    and ev: "event_sized sz e" and st: "sys3_step e s = Inr t"
  shows "sys3_sized sz t"
proof (cases "client_call e")
  case False
  have u: "s\<lparr>undelivered := undelivered s\<rparr> = s" by simp
  note local = leaf_does_sized [OF inv sz, of _ _ "undelivered s", unfolded u]
  from st False show ?thesis
  proof (cases rule: sys3_step_cases)
    case (delivered j i q env)
    have "(i, q) \<in> set (requests_made (db3 s))" using undelivered_made [OF inv delivered(2)] delivered(3) by (metis nth_mem)
    then have "read_sized sz q" using sz(1) by (auto simp: sys3_sized_def)
    then have "op_sized sz (leaf_call env (undelivered s ! j) q)" by (cases q) simp_all
    then show ?thesis by (rule leaf_does_sized [OF inv sz _ delivered(4)])
  next
    case (answered i q now)
    have "leaf_sized sz (leafs3 s ! i)" using sz(1) answered(1) by (simp add: sys3_sized_def)
    then have res: "\<forall>d. reply_result q = Some d \<longrightarrow> length (leaf_data d) = unat sz"
      using answered(2) by (cases q) (auto simp: leaf_sized_def)
    show ?thesis by (rule resolve_sized [OF sz(1) res, of _ now "reply_cb q"]) (simp_all add: answered(4))
  next
    case (lost f now)
    show ?thesis by (rule resolve_sized [OF sz(1), of None _ now f]) (simp_all add: lost(3))
  next
    case (kernel i now ev)
    show ?thesis by (rule local [OF _ kernel(2)]) simp
  next
    case (worker i k cpu)
    show ?thesis by (rule local [OF _ worker]) simp
  qed (use sz(1) in \<open>simp_all add: leaf_closed_def sys3_sized_def\<close>)
qed (rule client_call_sized [OF inv sz(1) _ ev st])

section \<open>Calls under way\<close>

text \<open>A call of a client: a write, or a read with its identifier.\<close>

type_synonym call_item = "nat + nat \<times> u64"

fun msg_item :: "nat \<times> client_msg \<Rightarrow> call_item" where
  "msg_item (c, Ask_Write k d) = Inl c"
| "msg_item (c, Ask_Read reqid fn s) = Inr (c, reqid)"

fun wait_item :: "db_wait \<Rightarrow> call_item" where
  "wait_item (Wait_All cb fs) = Inl cb"
| "wait_item (Wait_Read cb reqid t f) = Inr (cb, reqid)"

fun answer_item :: "db_reply \<Rightarrow> call_item" where
  "answer_item (DB_Done cb) = Inl cb"
| "answer_item (DB_Data cb r) = Inr (cb, db_request_id r)"

definition waits :: "'f sys3 \<Rightarrow> call_item multiset" where
  "waits s = image_mset wait_item (mset (waiting (db3 s)))"

definition items3 :: "'f trial3 \<Rightarrow> call_item multiset" where
  "items3 x = image_mset msg_item (mset (asked x)) + waits (system3 x) + image_mset answer_item (mset (inbox3 x))"

text \<open>A read whose call has failed is answered no more.\<close>

fun lost_wait :: "nat \<Rightarrow> LeafBenchmarkData option \<Rightarrow> db_wait \<Rightarrow> call_item multiset" where
  "lost_wait f None (Wait_Read cb reqid t g) = (if f = g then {#Inr (cb, reqid)#} else {#})"
| "lost_wait f res w = {#}"

lemma fire_keep_items:
  "image_mset answer_item (mset (fire now f res w)) + image_mset wait_item (mset (keep f w)) + lost_wait f res w = {#wait_item w#}"
  by (cases w; cases res) auto

lemma resolve_items:
  "image_mset answer_item (mset (concat (map (fire now f res) ws))) + image_mset wait_item (mset (concat (map (keep f) ws))) +
     sum_list (map (lost_wait f res) ws) = image_mset wait_item (mset ws)"
proof (induction ws)
  case (Cons w ws)
  from arg_cong2 [of _ _ _ _ "(+)", OF fire_keep_items [of now f res w] Cons.IH] show ?case by (simp add: ac_simps)
qed simp

lemma lost_wait_Some [simp]: "sum_list (map (lost_wait f (Some d)) ws) = {#}"
  by (induction ws) simp_all

lemma lost_waits_reads: "Inl c \<notin># sum_list (map (lost_wait f res) ws)"
proof (induction ws)
  case (Cons w ws)
  then show ?case by (cases w; cases res) auto
qed simp

text \<open>The answer to a write resolves no read.\<close>

lemma returned_write_waits:
  assumes inv: "sys3_inv {#} s" and i: "i < length (leafs3 s)" and r: "Reply_Done f \<in> set (replies (leafs3 s ! i))"
  shows "sum_list (map (lost_wait f None) (waiting (db3 s))) = {#}"
proof -
  note I = sys3_invD [OF inv]
  have "reply_item (Reply_Done f) \<in> leaf_items (leafs3 s ! i)"
    unfolding leaf_items_def using r by blast
  then have "item3_ok i (requests_made (db3 s)) (reply_item (Reply_Done f))" using I(3,6) i by simp
  then have w: "is_write (snd (requests_made (db3 s) ! f))" by (simp add: item3_ok_def)
  have "lost_wait f None v = {#}" if v: "v \<in> set (waiting (db3 s))" for v
  proof (cases v)
    case (Wait_Read cb reqid t g)
    then obtain fn sz where "R_Call cb reqid fn sz g \<in> set (calls3 s)" using I(7) v by fastforce
    then have "snd (requests_made (db3 s) ! g) = Leaf_Read fn sz" using I(5) by fastforce
    with w show ?thesis by (auto simp: Wait_Read)
  qed simp
  then have "map (lost_wait f None) (waiting (db3 s)) = map (\<lambda>v. {#}) (waiting (db3 s))" by simp
  then show ?thesis by (simp only: sum_list_0)
qed

text \<open>What a step of the servers is for the database server: nothing, an answer of a leaf, or a call that fails.\<close>

lemma sys3_step_effect:
  assumes st: "sys3_step e s = Inr t" and e: "\<not> client_call e"
  obtains (same) "waiting (db3 t) = waiting (db3 s)" "db_replies (db3 t) = db_replies (db3 s)"
      "requests_made (db3 t) = requests_made (db3 s)" "length (leafs (db3 t)) = length (leafs (db3 s))"
      "returned t = returned s" "failed3 t = failed3 s" "calls3 t = calls3 s"
  | (answered) i q now where "i < length (leafs3 s)" "q \<in> set (replies (leafs3 s ! i))" "reply_cb q \<notin> settled s"
      "t = s\<lparr>db3 := resolve now (reply_cb q) (reply_result q) (db3 s), returned := returned s @ [reply_cb q]\<rparr>"
  | (lost) f now where "f < length (requests_made (db3 s))" "f \<notin> settled s"
      "t = s\<lparr>db3 := resolve now f None (db3 s), failed3 := failed3 s @ [f]\<rparr>"
  using st e
proof (cases rule: sys3_step_cases)
  case (answered i q now)
  then show thesis by (rule that(2))
next
  case (lost f now)
  then show thesis by (rule that(3))
next
  case (delivered j i q env)
  show thesis by (rule that(1)) (use delivered(4) in \<open>auto simp: leaf_does_def result_simps split: if_splits\<close>)
next
  case (kernel i now ev)
  show thesis by (rule that(1)) (use kernel(2) in \<open>auto simp: leaf_does_def result_simps split: if_splits\<close>)
next
  case (worker i k cpu)
  show thesis by (rule that(1)) (use worker in \<open>auto simp: leaf_does_def result_simps split: if_splits\<close>)
qed (rule that(1); simp add: leaf_closed_def)+

lemma answers_come_from_waits:
  assumes inv: "sys3_inv {#} s" and st: "sys3_step e s = Inr t" and e: "\<not> client_call e"
  shows "\<exists>N D. db_replies (db3 t) = db_replies (db3 s) @ N \<and> image_mset answer_item (mset N) + waits t + D = waits s \<and>
    (\<forall>c. Inl c \<notin># D) \<and> (failed3 t = [] \<longrightarrow> D = {#} \<and> failed3 s = [])"
proof -
  have res: ?thesis if "db3 t = resolve now f r (db3 s)"
    "failed3 t = [] \<longrightarrow> sum_list (map (lost_wait f r) (waiting (db3 s))) = {#} \<and> failed3 s = []" for now f r
    using resolve_items [of now f r "waiting (db3 s)"] lost_waits_reads [of _ f r "waiting (db3 s)"]
    by (intro exI [of _ "concat (map (fire now f r) (waiting (db3 s)))"]
        exI [of _ "sum_list (map (lost_wait f r) (waiting (db3 s)))"]) (use that in \<open>simp add: waits_def resolve_def\<close>)
  from st e show ?thesis
  proof (cases rule: sys3_step_effect)
    case same
    then show ?thesis by (intro exI [of _ "[]"] exI [of _ "{#}"]) (simp add: waits_def)
  next
    case (answered i q now)
    have none: "sum_list (map (lost_wait (reply_cb q) (reply_result q)) (waiting (db3 s))) = {#}"
    proof (cases q)
      case (Reply_Done f)
      with answered(2) returned_write_waits [OF inv answered(1), of f] show ?thesis by (simp add: Reply_Done)
    qed simp
    show ?thesis by (rule res [of now "reply_cb q" "reply_result q"]) (use answered(4) none in simp_all)
  next
    case (lost f now)
    show ?thesis by (rule res [of now f None]) (use lost(3) in simp_all)
  qed
qed

lemma client_call_effect:
  assumes inv: "sys3_inv {#} s"
  shows "\<exists>t. sys3_step (ask_event now c m) s = Inr t \<and> db_replies (db3 t) = db_replies (db3 s) \<and>
    waits t = add_mset (msg_item (c, m)) (waits s) \<and> failed3 t = failed3 s"
proof -
  note I = sys3_invD [OF inv]
  show ?thesis
  proof (cases m)
    case (Ask_Write k d)
    then show ?thesis by (simp add: sys3_step_def db_write_eq [OF I(1)] db_calls_def waits_def)
  next
    case (Ask_Read reqid fn s')
    then show ?thesis
      using db_read_eq [OF I(1,2), of now c reqid fn s'] by (auto simp: sys3_step_def db_calls_def waits_def)
  qed
qed

section \<open>What the clients wait for\<close>

fun item_client :: "call_item \<Rightarrow> nat" where
  "item_client (Inl c) = c"
| "item_client (Inr (c, i)) = c"

fun pends :: "read_client \<Rightarrow> call_item \<Rightarrow> bool" where
  "pends rc (Inl c) = acking rc"
| "pends rc (Inr (c, i)) = (i \<in> in_time (bench (reader rc)))"

definition pending3 :: "read_client list \<Rightarrow> call_item set" where
  "pending3 rcs = {y. item_client y < length rcs \<and> pends (rcs ! item_client y) y}"

lemma pending3_same:
  assumes "\<And>y. pends rc y = pends (rcs ! c) y"
  shows "pending3 (rcs[c := rc]) = pending3 rcs"
proof -
  have "pends (rcs[c := rc] ! i) y = pends (rcs ! i) y" if "i < length rcs" for i y
    using that assms by (cases "i = c") simp_all
  then show ?thesis by (auto simp: pending3_def)
qed

lemma pending3_more:
  assumes "c < length rcs" and "item_client z = c" and "\<not> pends (rcs ! c) z"
    and "\<And>y. item_client y = c \<Longrightarrow> pends rc y = (pends (rcs ! c) y \<or> y = z)"
  shows "pending3 (rcs[c := rc]) = insert z (pending3 rcs)" and "z \<notin> pending3 rcs"
  using assms by (auto simp: pending3_def nth_list_update)

lemma pending3_less:
  assumes "c < length rcs" and "item_client z = c"
    and "\<And>y. item_client y = c \<Longrightarrow> pends rc y = (pends (rcs ! c) y \<and> y \<noteq> z)"
  shows "pending3 (rcs[c := rc]) = pending3 rcs - {z}"
  using assms by (auto simp: pending3_def nth_list_update)

definition reader_ok :: "u32 \<Rightarrow> u64 \<Rightarrow> read_client \<Rightarrow> bool" where
  "reader_ok qd n rc \<longleftrightarrow>
     client_ok qd n (reader rc) \<and> laid rc \<le> unat n \<and> (acking rc \<longrightarrow> laid rc < unat n) \<and>
     (laid rc < unat n \<longrightarrow> reader rc = new_client qd n)"

lemma finite_pending3:
  assumes "\<forall>rc \<in> set rcs. reader_ok qd n rc"
  shows "finite (pending3 rcs)"
proof -
  have "finite (in_time (bench (reader (rcs ! c))))" if "c < length rcs" for c
    using assms that by (simp add: reader_ok_def client_ok_def bench_ids_def)
  then have "finite (Inl ` {..<length rcs} \<union> Inr ` (\<Union>c < length rcs. Pair c ` in_time (bench (reader (rcs ! c)))))"
    by (intro finite_UnI finite_imageI finite_UN_I) auto
  moreover have "pending3 rcs \<subseteq> Inl ` {..<length rcs} \<union> Inr ` (\<Union>c < length rcs. Pair c ` in_time (bench (reader (rcs ! c))))"
  proof
    fix y assume "y \<in> pending3 rcs"
    then show "y \<in> Inl ` {..<length rcs} \<union> Inr ` (\<Union>c < length rcs. Pair c ` in_time (bench (reader (rcs ! c))))"
      by (cases y rule: item_client.cases) (auto simp: pending3_def)
  qed
  ultimately show ?thesis by (rule finite_subset [rotated])
qed

fun msg_sized :: "u32 \<Rightarrow> client_msg \<Rightarrow> bool" where
  "msg_sized sz (Ask_Read reqid fn s) = (s = sz)"
| "msg_sized sz (Ask_Write k d) = True"

text \<open>Calls a client waits for though nothing of them is under way: reads, and none as long as no call has failed.\<close>

definition lost3 :: "'f trial3 \<Rightarrow> call_item multiset" where
  "lost3 x = mset_set (pending3 (readers x)) - items3 x"

definition lost_ok :: "'f trial3 \<Rightarrow> bool" where
  "lost_ok x \<longleftrightarrow> (\<forall>c. Inl c \<notin># lost3 x) \<and> (failed3 (system3 x) = [] \<longrightarrow> lost3 x = {#})"

definition trial3_ok :: "u32 \<Rightarrow> u64 \<Rightarrow> u32 \<Rightarrow> 'f trial3 \<Rightarrow> bool" where
  "trial3_ok qd n sz x \<longleftrightarrow>
     sys3_inv {#} (system3 x) \<and> sys3_sized sz (system3 x) \<and> (\<forall>rc \<in> set (readers x). reader_ok qd n rc) \<and>
     items3 x \<subseteq># mset_set (pending3 (readers x)) \<and> (\<forall>r \<in> set (inbox3 x). answer_sized sz r) \<and>
     (\<forall>m \<in> set (asked x). msg_sized sz (snd m)) \<and> lost_ok x"

lemma trial3_okD:
  assumes "trial3_ok qd n sz x"
  shows "sys3_inv {#} (system3 x)" and "sys3_sized sz (system3 x)" and "\<forall>rc \<in> set (readers x). reader_ok qd n rc"
    and "items3 x \<subseteq># mset_set (pending3 (readers x))" and "\<forall>r \<in> set (inbox3 x). answer_sized sz r"
    and "\<forall>m \<in> set (asked x). msg_sized sz (snd m)" and "lost_ok x"
  using assms by (simp_all add: trial3_ok_def)

lemma item_pending:
  assumes "trial3_ok qd n sz x" and "y \<in># items3 x"
  shows "item_client y < length (readers x)" and "pends (readers x ! item_client y) y"
proof -
  have "y \<in># mset_set (pending3 (readers x))" using assms by (meson mset_subset_eqD trial3_okD(4))
  then have "y \<in> pending3 (readers x)"
    using finite_pending3 [OF trial3_okD(3) [OF assms(1)]] by simp
  then show "item_client y < length (readers x)" "pends (readers x ! item_client y) y"
    by (simp_all add: pending3_def)
qed

section \<open>Steps of a client\<close>

lemma reader_update:
  assumes "\<forall>rc \<in> set rcs. reader_ok qd n rc" and "reader_ok qd n rc"
  shows "\<forall>r \<in> set (rcs[c := rc]). reader_ok qd n r"
  using assms by (auto dest!: in_set_update)

text \<open>A client asks for something new, or changes nothing that is under way.\<close>

lemma asks_ok:
  assumes ok: "trial3_ok qd n sz x" and c: "c < length (readers x)" and rc: "reader_ok qd n rc" "msg_sized sz m"
    and new: "\<not> pends (readers x ! c) (msg_item (c, m))"
      "\<And>y. item_client y = c \<Longrightarrow> pends rc y = (pends (readers x ! c) y \<or> y = msg_item (c, m))"
  shows "trial3_ok qd n sz (x\<lparr>readers := (readers x)[c := rc], asked := asked x @ [(c, m)]\<rparr>)"
proof -
  note I = trial3_okD [OF ok]
  let ?x = "x\<lparr>readers := (readers x)[c := rc], asked := asked x @ [(c, m)]\<rparr>"
  have cl: "item_client (msg_item (c, m)) = c" by (cases m) simp_all
  note p = pending3_more [OF c cl new]
  have m: "mset_set (pending3 (readers ?x)) = add_mset (msg_item (c, m)) (mset_set (pending3 (readers x)))"
    using finite_pending3 [OF I(3)] p by simp
  have it: "items3 ?x = add_mset (msg_item (c, m)) (items3 x)" by (simp add: items3_def)
  have "items3 ?x \<subseteq># mset_set (pending3 (readers ?x))" using I(4) by (simp only: m it mset_subset_eq_add_mset_cancel)
  moreover have "lost3 ?x = lost3 x" unfolding lost3_def m it by simp
  then have "lost_ok ?x" using I(7) by (simp add: lost_ok_def)
  ultimately show ?thesis using I rc reader_update [OF I(3) rc(1)] by (simp add: trial3_ok_def)
qed

lemma quiet_ok:
  assumes ok: "trial3_ok qd n sz x" and rc: "reader_ok qd n rc" and same: "\<And>y. pends rc y = pends (readers x ! c) y"
  shows "trial3_ok qd n sz (x\<lparr>readers := (readers x)[c := rc]\<rparr>)"
  using trial3_okD [OF ok] reader_update [OF trial3_okD(3) [OF ok] rc] pending3_same [of rc "readers x" c, OF same]
  by (simp add: trial3_ok_def items3_def lost_ok_def lost3_def)

text \<open>A client takes an answer.\<close>

lemma answer_ok3:
  assumes ok: "trial3_ok qd n sz x" and k: "k < length (inbox3 x)" and c: "item_client (answer_item (inbox3 x ! k)) = c"
    and rc: "reader_ok qd n rc"
    and less: "\<And>y. item_client y = c \<Longrightarrow> pends rc y = (pends (readers x ! c) y \<and> y \<noteq> answer_item (inbox3 x ! k))"
  shows "trial3_ok qd n sz (x\<lparr>inbox3 := take k (inbox3 x) @ drop (Suc k) (inbox3 x), readers := (readers x)[c := rc]\<rparr>)"
proof -
  note I = trial3_okD [OF ok]
  let ?in = "take k (inbox3 x) @ drop (Suc k) (inbox3 x)" and ?z = "answer_item (inbox3 x ! k)"
  let ?x = "x\<lparr>inbox3 := ?in, readers := (readers x)[c := rc]\<rparr>"
  have it: "items3 x = add_mset ?z (items3 ?x)"
    using mset_take_nth [OF k, of answer_item] by (simp add: items3_def)
  then have "?z \<in># items3 x" by simp
  from item_pending [OF ok this] have z: "c < length (readers x)" "?z \<in> pending3 (readers x)"
    by (simp_all add: c pending3_def)
  have m: "mset_set (pending3 (readers ?x)) = mset_set (pending3 (readers x)) - {#?z#}"
    using pending3_less [OF z(1) c less] finite_pending3 [OF I(3)] z(2) by (simp add: mset_set_Diff)
  have "items3 ?x \<subseteq># mset_set (pending3 (readers ?x))"
    using I(4) unfolding it m by (simp add: insert_subset_eq_iff)
  moreover have "lost3 ?x = lost3 x" unfolding lost3_def m it by simp
  then have "lost_ok ?x" using I(7) by (simp add: lost_ok_def)
  moreover have "\<forall>r \<in> set ?in. answer_sized sz r" using I(5) by (auto dest: in_set_takeD in_set_dropD)
  ultimately show ?thesis using I reader_update [OF I(3) rc] by (simp add: trial3_ok_def)
qed

lemma lays_ok:
  assumes ok: "trial3_ok qd n sz x" and c: "c < length (readers x)"
  shows "trial3_ok qd n sz (case client3_lays n sz (readers x ! c) of (rc, ms) \<Rightarrow>
    x\<lparr>readers := (readers x)[c := rc], asked := asked x @ map (Pair c) ms\<rparr>)"
proof (cases "laid (readers x ! c) < unat n \<and> \<not> acking (readers x ! c)")
  case True
  let ?rc = "(readers x ! c)\<lparr>acking := True\<rparr>" and ?m = "Ask_Write (decimal (laid (readers x ! c))) (replicate (unat sz) 65)"
  have r: "reader_ok qd n (readers x ! c)" using trial3_okD(3) [OF ok] c by simp
  have "trial3_ok qd n sz (x\<lparr>readers := (readers x)[c := ?rc], asked := asked x @ [(c, ?m)]\<rparr>)"
  proof (rule asks_ok [OF ok c])
    show "reader_ok qd n ?rc" using r True by (auto simp: reader_ok_def)
    show "pends ?rc y = (pends (readers x ! c) y \<or> y = msg_item (c, ?m))" if "item_client y = c" for y
      using that True by (cases y rule: item_client.cases) simp_all
  qed (use True in simp_all)
  with True show ?thesis by (simp add: client3_lays_def)
qed (use ok in \<open>auto simp: client3_lays_def\<close>)

lemma reader_sends_ok:
  assumes ok: "trial3_ok qd n sz x" and cfg: "bench_ok qd n" and c: "c < length (readers x)"
  shows "trial3_ok qd n sz (case client3_sends now n sz (readers x ! c) of (rc, ms) \<Rightarrow>
    x\<lparr>readers := (readers x)[c := rc], asked := asked x @ map (Pair c) ms\<rparr>)"
proof (cases "laid (readers x ! c) = unat n")
  case True
  let ?cl = "reader (readers x ! c)"
  let ?rc = "(readers x ! c)\<lparr>reader := client_sends now ?cl\<rparr>"
  have r: "reader_ok qd n (readers x ! c)" using trial3_okD(3) [OF ok] c by simp
  then have cl: "client_ok qd n ?cl" by (simp add: reader_ok_def)
  show ?thesis
  proof (cases "\<exists>i. pc ?cl = Sending i \<and> i < unat (req_tosend (bench ?cl))")
    case False
    note q = client_sends_quiet [OF cl False, of now]
    have "trial3_ok qd n sz (x\<lparr>readers := (readers x)[c := ?rc]\<rparr>)"
    proof (rule quiet_ok [OF ok])
      show "reader_ok qd n ?rc" using r q(1) True by (simp add: reader_ok_def)
      show "pends ?rc y = pends (readers x ! c) y" for y
        by (cases y rule: item_client.cases) (simp_all add: q(2))
    qed
    moreover have "(case pc ?cl of Sending i \<Rightarrow> if i < unat (req_tosend (bench ?cl))
        then [Ask_Read (req_id (bench ?cl)) (decimal i) sz] else [] | _ \<Rightarrow> []) = []"
      using False by (auto split: client_pc.split)
    ultimately show ?thesis using True by (simp add: client3_sends_def)
  next
    case sends: True
    then obtain i where i: "pc ?cl = Sending i" "i < unat (req_tosend (bench ?cl))" by blast
    let ?m = "Ask_Read (req_id (bench ?cl)) (decimal i) sz"
    note s = client_sends_new [OF cfg cl i]
    have "trial3_ok qd n sz (x\<lparr>readers := (readers x)[c := ?rc], asked := asked x @ [(c, ?m)]\<rparr>)"
    proof (rule asks_ok [OF ok c])
      show "reader_ok qd n ?rc" using r client_sends_ok [OF cfg cl i] True by (simp add: reader_ok_def)
      show "\<not> pends (readers x ! c) (msg_item (c, ?m))" using s(1) by simp
      show "pends ?rc y = (pends (readers x ! c) y \<or> y = msg_item (c, ?m))" if "item_client y = c" for y
        using that by (cases y rule: item_client.cases) (auto simp: s(2))
    qed simp
    with True i show ?thesis by (simp add: client3_sends_def)
  qed
qed (use ok in \<open>auto simp: client3_sends_def\<close>)

lemma reader_loops_ok:
  assumes ok: "trial3_ok qd n sz x" and cfg: "bench_ok qd n" and c: "c < length (readers x)"
  shows "trial3_ok qd n sz (x\<lparr>readers := (readers x)[c := (readers x ! c)\<lparr>reader := client_loops qd n (reader (readers x ! c))\<rparr>]\<rparr>)"
proof -
  let ?cl = "reader (readers x ! c)"
  have r: "reader_ok qd n (readers x ! c)" using trial3_okD(3) [OF ok] c by simp
  show ?thesis
  proof (cases "pc ?cl = Polling")
    case False
    then have "client_loops qd n ?cl = ?cl" by (simp add: client_loops_def split: client_pc.split)
    then show ?thesis using ok by simp
  next
    case True
    then have laid: "laid (readers x ! c) = unat n"
      using r by (auto simp: reader_ok_def new_client_def split: if_splits)
    have new: "client_ok qd n (client_loops qd n ?cl)"
      using client_loops_ok [OF cfg _ True] r by (simp add: reader_ok_def)
    have it: "in_time (bench (client_loops qd n ?cl)) = in_time (bench ?cl)"
      using True next_tosend_frame [of qd n "bench ?cl"] by (simp add: client_loops_def Let_def in_time_def)
    show ?thesis
    proof (rule quiet_ok [OF ok])
      show "reader_ok qd n ((readers x ! c)\<lparr>reader := client_loops qd n ?cl\<rparr>)"
        using r new laid by (simp add: reader_ok_def)
      show "pends ((readers x ! c)\<lparr>reader := client_loops qd n ?cl\<rparr>) y = pends (readers x ! c) y" for y
        by (cases y rule: item_client.cases) (simp_all add: it)
    qed
  qed
qed

lemma reader_acked_ok:
  assumes ok: "trial3_ok qd n sz x" and n: "unat n \<le> 2147483647" and k: "k < length (inbox3 x)"
    and y: "inbox3 x ! k = DB_Done c"
  shows "c < length (readers x) \<and> (\<exists>rc. client3_acked (readers x ! c) = Inr rc \<and>
    trial3_ok qd n sz (x\<lparr>inbox3 := take k (inbox3 x) @ drop (Suc k) (inbox3 x), readers := (readers x)[c := rc]\<rparr>))"
proof -
  have "DB_Done c \<in> set (inbox3 x)" using k y by (metis nth_mem)
  then have "Inl c \<in># items3 x" by (force simp: items3_def)
  from item_pending [OF ok this] have c: "c < length (readers x)" and a: "acking (readers x ! c)" by simp_all
  have r: "reader_ok qd n (readers x ! c)" using trial3_okD(3) [OF ok] c by simp
  then have l: "laid (readers x ! c) < unat n" using a by (simp add: reader_ok_def)
  let ?rc = "(readers x ! c)\<lparr>laid := Suc (laid (readers x ! c)), acking := False\<rparr>"
  have "client3_acked (readers x ! c) = Inr ?rc" using a l n by (simp add: client3_acked_def)
  moreover have "trial3_ok qd n sz
      (x\<lparr>inbox3 := take k (inbox3 x) @ drop (Suc k) (inbox3 x), readers := (readers x)[c := ?rc]\<rparr>)"
  proof (rule answer_ok3 [OF ok k])
    show "reader_ok qd n ?rc" using r l by (auto simp: reader_ok_def)
    show "pends ?rc z = (pends (readers x ! c) z \<and> z \<noteq> answer_item (inbox3 x ! k))" if "item_client z = c" for z
      using that a by (cases z rule: item_client.cases) (simp_all add: y)
  qed (simp add: y)
  ultimately show ?thesis using c by blast
qed

lemma reader_receives_ok:
  assumes ok: "trial3_ok qd n sz x" and k: "k < length (inbox3 x)" and y: "inbox3 x ! k = DB_Data c r"
    and pc: "pc (reader (readers x ! c)) = Polling"
  shows "\<exists>rc. client3_receives sz now r (readers x ! c) = Inr rc \<and>
    trial3_ok qd n sz (x\<lparr>inbox3 := take k (inbox3 x) @ drop (Suc k) (inbox3 x), readers := (readers x)[c := rc]\<rparr>)"
proof -
  let ?rc = "readers x ! c"
  have mem: "DB_Data c r \<in> set (inbox3 x)" using k y by (metis nth_mem)
  then have "Inr (c, db_request_id r) \<in># items3 x" by (force simp: items3_def)
  from item_pending [OF ok this] have c: "c < length (readers x)"
    and t: "reply_id (client3_reply r) \<in> in_time (bench (reader ?rc))" by (simp_all add: client3_reply_def)
  have "length (db_data r) = unat sz" using trial3_okD(5) [OF ok] mem by auto
  then have len: "reply_length (client3_reply r) = unat sz" by (simp add: client3_reply_def)
  have ro: "reader_ok qd n ?rc" using trial3_okD(3) [OF ok] c by simp
  then have cl: "client_ok qd n (reader ?rc)" by (simp add: reader_ok_def)
  have laid: "laid ?rc = unat n" using ro pc by (auto simp: reader_ok_def new_client_def split: if_splits)
  from client_receives_ok [OF cl pc t, of "\<lambda>k. k = unat sz" now] len obtain b where
    b: "receive_reply (\<lambda>k. k = unat sz) (now, client3_reply r) (bench (reader ?rc)) = Inr b"
      "client_ok qd n ((reader ?rc)\<lparr>bench := b\<rparr>)" "in_time b = in_time (bench (reader ?rc)) - {db_request_id r}"
    by (auto simp: client3_reply_def)
  let ?new = "?rc\<lparr>reader := (reader ?rc)\<lparr>bench := b\<rparr>\<rparr>"
  have "client3_receives sz now r ?rc = Inr ?new" by (simp add: client3_receives_def b(1))
  moreover have "trial3_ok qd n sz
      (x\<lparr>inbox3 := take k (inbox3 x) @ drop (Suc k) (inbox3 x), readers := (readers x)[c := ?new]\<rparr>)"
  proof (rule answer_ok3 [OF ok k])
    show "reader_ok qd n ?new" using ro b(2) laid by (simp add: reader_ok_def)
    show "pends ?new z = (pends ?rc z \<and> z \<noteq> answer_item (inbox3 x ! k))" if "item_client z = c" for z
      using that by (cases z rule: item_client.cases) (auto simp: y b(3))
  qed (simp add: y)
  ultimately show ?thesis by blast
qed


section \<open>Steps of the servers\<close>

lemma message_arrives_ok:
  assumes ok: "trial3_ok qd n sz x" and sz: "unat sz < 2147483648" and k: "k < length (asked x)"
  shows "\<exists>y. system_does (ask_event now (fst (asked x ! k)) (snd (asked x ! k)))
      (x\<lparr>asked := take k (asked x) @ drop (Suc k) (asked x)\<rparr>) = Inr y \<and> trial3_ok qd n sz y"
proof -
  note I = trial3_okD [OF ok]
  obtain c m where m: "asked x ! k = (c, m)" by (cases "asked x ! k")
  let ?A = "take k (asked x) @ drop (Suc k) (asked x)" and ?e = "ask_event now c m"
  from client_call_effect [OF I(1), of now c m] obtain s where
    s: "sys3_step ?e (system3 x) = Inr s" "db_replies (db3 s) = db_replies (db3 (system3 x))"
      "waits s = add_mset (msg_item (c, m)) (waits (system3 x))" "failed3 s = failed3 (system3 x)" by blast
  let ?y = "x\<lparr>asked := ?A, system3 := s\<rparr>"
  have "address_fresh ?e (system3 x)" by (cases m) simp_all
  then have inv: "sys3_inv {#} s" by (rule sys3_step_inv [OF I(1) _ s(1)])
  have "(c, m) \<in> set (asked x)" using k m by (metis nth_mem)
  then have "event_sized sz ?e" using I(6) by (cases m) fastforce+
  then have sized: "sys3_sized sz s" by (rule sys3_step_sized [OF I(1,2) sz _ s(1)])
  have it: "items3 ?y = items3 x"
    using mset_take_nth [OF k, of msg_item] by (simp add: items3_def s(3) m)
  then have "items3 ?y \<subseteq># mset_set (pending3 (readers x))" using I(4) by simp
  moreover have "lost_ok ?y" using I(7) by (simp add: lost_ok_def lost3_def it s(4))
  moreover have "\<forall>a \<in> set ?A. msg_sized sz (snd a)" using I(6) by (auto dest: in_set_takeD in_set_dropD)
  ultimately have "trial3_ok qd n sz ?y" using I inv sized by (simp add: trial3_ok_def)
  moreover have "system_does ?e (x\<lparr>asked := ?A\<rparr>) = Inr ?y" by (simp add: system_does_def s(1,2))
  ultimately show ?thesis by (simp add: m)
qed

lemma system_event_ok:
  assumes ok: "trial3_ok qd n sz x" and sz: "unat sz < 2147483648" and e: "\<not> client_call e"
    and fresh: "address_fresh e (system3 x)" and st: "system_does e x = Inr y"
  shows "trial3_ok qd n sz y"
proof -
  note I = trial3_okD [OF ok]
  from st obtain s where s: "sys3_step e (system3 x) = Inr s"
    and y: "y = x\<lparr>system3 := s, inbox3 := inbox3 x @ drop (length (db_replies (db3 (system3 x)))) (db_replies (db3 s))\<rparr>"
    by (auto simp: system_does_def result_simps)
  from answers_come_from_waits [OF I(1) s e] obtain N D where
    N: "db_replies (db3 s) = db_replies (db3 (system3 x)) @ N"
      "image_mset answer_item (mset N) + waits s + D = waits (system3 x)"
    and D: "\<forall>c. Inl c \<notin># D" "failed3 s = [] \<longrightarrow> D = {#} \<and> failed3 (system3 x) = []" by blast
  have inv: "sys3_inv {#} s" by (rule sys3_step_inv [OF I(1) fresh s])
  have "event_sized sz e" using e by (cases e) simp_all
  then have sized: "sys3_sized sz s" by (rule sys3_step_sized [OF I(1,2) sz _ s])
  have it: "items3 x = items3 y + D"
    unfolding items3_def N(2) [symmetric] by (simp add: y N(1) ac_simps)
  then have "items3 y \<subseteq># items3 x" by simp
  then have sub: "items3 y \<subseteq># mset_set (pending3 (readers x))" using I(4) by (rule subset_mset.order_trans)
  have "lost3 y = lost3 x + D"
    using I(4) unfolding lost3_def it by (simp add: y subset_mset.diff_diff_right multiset_eq_iff subseteq_mset_def)
  then have "lost_ok y" using I(7) D by (auto simp: lost_ok_def y)
  have "\<forall>r \<in> set (inbox3 x @ N). answer_sized sz r" using I(5) sized N(1) by (auto simp: sys3_sized_def)
  then show ?thesis using I inv sized sub \<open>lost_ok y\<close> by (simp add: trial3_ok_def y N(1))
qed

text \<open>Steps in which a leaf server calls the system, which may fail for it.\<close>

fun leaf_event :: "'f exp3_event \<Rightarrow> bool" where
  "leaf_event (System_Event (Call_Reaches_Leaf j env)) = True"
| "leaf_event (System_Event (Leaf_Kernel i now ev)) = True"
| "leaf_event (System_Event (Leaf_Worker i k cpu)) = True"
| "leaf_event _ = False"

lemma exp3_event_ok:
  assumes ok: "trial3_ok qd n sz x" and cfg: "bench_ok qd n" "unat n \<le> 2147483647" "unat sz < 2147483648"
    and fresh: "fresh_event e x"
  shows "exp3_event qd n sz now e x = Inr y \<Longrightarrow> trial3_ok qd n sz y"
    and "\<not> leaf_event e \<Longrightarrow> \<exists>y. exp3_event qd n sz now e x = Inr y"
proof -
  have both: "(\<exists>y. exp3_event qd n sz now e x = Inr y \<and> trial3_ok qd n sz y)" if "\<not> (\<exists>e3. e = System_Event e3)"
  proof (cases e)
    case (Reader_Lays c)
    then show ?thesis using ok lays_ok [OF ok, of c] by (auto simp: exp3_event_def)
  next
    case (Reader_Sends c)
    then show ?thesis using ok reader_sends_ok [OF ok cfg(1), of c now] by (auto simp: exp3_event_def)
  next
    case (Reader_Loops c)
    then show ?thesis using ok reader_loops_ok [OF ok cfg(1), of c] by (auto simp: exp3_event_def Let_def)
  next
    case (Message_Arrives k)
    then show ?thesis using ok message_arrives_ok [OF ok cfg(3), of k now] by (auto simp: exp3_event_def)
  next
    case (Reply_Arrives k)
    show ?thesis
    proof (cases "k < length (inbox3 x)")
      case True
      show ?thesis
      proof (cases "inbox3 x ! k")
        case (DB_Done c)
        from reader_acked_ok [OF ok cfg(2) True DB_Done] show ?thesis
          by (auto simp: Reply_Arrives exp3_event_def True DB_Done Let_def)
      next
        case (DB_Data c r)
        show ?thesis
        proof (cases "c < length (readers x) \<and> pc (reader (readers x ! c)) = Polling")
          case p: True
          from reader_receives_ok [OF ok True DB_Data, of now] p show ?thesis
            by (auto simp: Reply_Arrives exp3_event_def True DB_Data Let_def)
        next
          case False
          then have "exp3_event qd n sz now e x = Inr x"
            by (auto simp: Reply_Arrives exp3_event_def DB_Data Let_def)
          with ok show ?thesis by simp
        qed
      qed
    qed (use ok in \<open>simp add: Reply_Arrives exp3_event_def\<close>)
  qed (use that in auto)
  have sys: "trial3_ok qd n sz y" if "exp3_event qd n sz now (System_Event e3) x = Inr y" "e = System_Event e3" for e3
    using that fresh ok system_event_ok [OF ok cfg(3), of e3 y] by (auto simp: exp3_event_def split: if_splits)
  show "exp3_event qd n sz now e x = Inr y \<Longrightarrow> trial3_ok qd n sz y"
    using both sys by (cases "\<exists>e3. e = System_Event e3") auto
  show "\<exists>y. exp3_event qd n sz now e x = Inr y" if "\<not> leaf_event e"
  proof (cases "\<exists>e3. e = System_Event e3")
    case True
    then obtain e3 where e: "e = System_Event e3" by blast
    then show ?thesis
      using that by (cases e3) (auto simp: exp3_event_def system_does_def sys3_step_def Let_def)
  qed (use both in blast)
qed

lemma exp3_start_ok:
  assumes "addrs \<noteq> []" and "length addrs < 4294967296" and "length lfs = length addrs" and "fresh_leafs lfs"
    and "bench_ok qd n"
  shows "trial3_ok qd n sz (exp3_start qd n nt (map (\<lambda>(ip, port). Leaf_new ip port) addrs) lfs)"
proof -
  have "leaf_sized sz l" if "l \<in> set lfs" for l
    using that assms(4) by (force simp: fresh_leafs_def LeafHandler_new_def AsyncIO_new_def result_simps leaf_sized_def)
  then have "sys3_sized sz (sys3_start (map (\<lambda>(ip, port). Leaf_new ip port) addrs) lfs)"
    by (simp add: sys3_sized_def sys3_start_def DBHandler_new_def)
  moreover have "reader_ok qd n (new_reader qd n)" using new_client_ok [OF assms(5)] by (simp add: reader_ok_def new_reader_def)
  moreover have "pends (new_reader qd n) y = False" for y
    by (cases y rule: item_client.cases) (simp_all add: new_reader_def new_client_def bench_start_def in_time_def)
  then have "pending3 (replicate nt (new_reader qd n)) = {}" by (auto simp: pending3_def)
  then have "lost_ok (exp3_start qd n nt (map (\<lambda>(ip, port). Leaf_new ip port) addrs) lfs)"
    by (simp add: lost_ok_def lost3_def exp3_start_def)
  ultimately show ?thesis
    using sys3_start_inv [OF assms(1-4)]
    by (simp add: trial3_ok_def exp3_start_def items3_def waits_def sys3_start_def DBHandler_new_def)
qed

lemma exp3_reach_ok:
  assumes "exp3_reach qd n sz x0 x" and "trial3_ok qd n sz x0"
    and "bench_ok qd n" "unat n \<le> 2147483647" "unat sz < 2147483648"
  shows "trial3_ok qd n sz x"
  using assms(1)
proof (induction rule: exp3_reach.induct)
  case (step x e now y)
  from exp3_event_ok(1) [OF step.IH assms(3-5) step.hyps(2,3)] show ?case .
qed (rule assms(2))

lemma exp3_reach_length:
  "exp3_reach qd n sz x0 x \<Longrightarrow> length (readers x) = length (readers x0)"
proof (induction rule: exp3_reach.induct)
  case (step x e now y)
  from step.hyps(3) have "length (readers y) = length (readers x)"
    by (cases e) (auto simp: exp3_event_def system_does_def Let_def result_simps split: if_splits prod.splits db_reply.splits)
  with step.IH show ?case by simp
qed simp



section \<open>The experiment\<close>

lemma exp3_reached_ok:
  assumes "addrs \<noteq> []" and "length addrs < 4294967296" and "length lfs = length addrs" and "fresh_leafs lfs"
    and "1 \<le> unat qd" and "unat qd \<le> 2147483647" and "unat n \<le> 2147483647" and "unat sz < 2147483648"
    and "exp3_reach qd n sz (exp3_start qd n nt (map (\<lambda>(ip, port). Leaf_new ip port) addrs) lfs) x"
  shows "trial3_ok qd n sz x" and "length (readers x) = nt" and "bench_ok qd n"
proof -
  show cfg: "bench_ok qd n" using assms(5-7) by (simp add: bench_ok_def)
  show "trial3_ok qd n sz x"
    by (rule exp3_reach_ok [OF assms(9) exp3_start_ok [OF assms(1-4) cfg] cfg assms(7,8)])
  show "length (readers x) = nt" using exp3_reach_length [OF assms(9)] by (simp add: exp3_start_def)
qed

lemma reader_counters:
  assumes "reader_ok qd n rc"
  shows "laid rc \<le> unat n"
    and "laid rc < unat n \<longrightarrow> req_sched (bench (reader rc)) = 0"
    and "card (in_time (bench (reader rc))) = unat (req_out (bench (reader rc)))"
    and "unat (req_sched (bench (reader rc))) = unat (req_complete (bench (reader rc))) + unat (req_out (bench (reader rc)))"
    and "unat (req_out (bench (reader rc))) \<le> unat qd"
    and "pc (reader rc) = Finished \<longrightarrow> unat n \<le> unat (req_complete (bench (reader rc)))"
  using assms by (auto simp: reader_ok_def client_ok_def bench_ids_def new_client_def bench_start_def split: client_pc.splits)


text \<open>One client, one leaf: one file laid down and read.\<close>

fun run3 :: "u32 \<Rightarrow> u64 \<Rightarrow> u32 \<Rightarrow> (int \<times> 'f exp3_event) list \<Rightarrow> 'f trial3 \<Rightarrow> 'f trial3 option" where
  "run3 qd n sz [] x = Some x"
| "run3 qd n sz ((now, e) # es) x =
     (if fresh_event e x then case exp3_event qd n sz now e x of Inl z \<Rightarrow> None | Inr y \<Rightarrow> run3 qd n sz es y else None)"

lemma exp3_reach_run:
  "exp3_reach qd n sz x0 x \<Longrightarrow> run3 qd n sz es x = Some y \<Longrightarrow> exp3_reach qd n sz x0 y"
proof (induction es arbitrary: x)
  case (Cons e es)
  then show ?case by (cases e) (auto split: if_splits sum.splits dest: exp3_reach.step)
qed simp

definition demo_reads :: "(int \<times> (string \<Rightarrow> bytes option) exp3_event) list" where
  "demo_reads =
     [(0, Reader_Lays 0), (1, Message_Arrives 0), (2, System_Event (Call_Reaches_Leaf 0 (toy_env 100))),
      (3, System_Event (Leaf_Kernel 0 6 (toy_event 100 2 [65, 65]))), (4, System_Event (Leaf_Returns 0 0 9)),
      (5, Reply_Arrives 0), (6, Reader_Sends 0), (7, Reader_Sends 0), (10, Message_Arrives 0),
      (11, System_Event (Call_Reaches_Leaf 0 (toy_env 200))),
      (12, System_Event (Leaf_Kernel 0 20 (toy_event 200 0 [170, 170]))), (13, System_Event (Leaf_Worker 0 0 3)),
      (14, System_Event (Leaf_Returns 0 1 30)), (40, Reply_Arrives 0), (41, Reader_Loops 0)]"

lemmas trial3_evals = exp3_event_def exp3_start_def system_does_def client3_lays_def client3_acked_def client3_sends_def
  client3_receives_def client3_reply_def new_reader_def client_sends_def client_loops_def new_client_def
  bench_start_def send_request_def receive_reply_def next_tosend_def Let_def

lemma demo_reads_run:
  "case run3 1 1 2 demo_reads (exp3_start 1 1 1 [Leaf_new ''a'' 1] [demo3_leaf]) of
     None \<Rightarrow> False
   | Some x \<Rightarrow> map (\<lambda>rc. (laid rc, pc (reader rc), unat (sum_client (sums (bench (reader rc)))))) (readers x) = [(1, Finished, 34)] \<and>
       calls3 (system3 x) = [W_Call 0 (decimal 0) (replicate 2 65) 0, R_Call 0 1 (decimal 0) 2 1] \<and>
       failed3 (system3 x) = [] \<and> length (leafs (db3 (system3 x))) = 1"
  by (simp add: demo_reads_def demo3_leaf_def trial3_evals sys3_evals)

lemma demo_reads_reached:
  obtains x where "exp3_reach 1 1 2 (exp3_start 1 1 1 (map (\<lambda>(ip, port). Leaf_new ip port) [(''a'', 1)]) [demo3_leaf]) x"
    "map (\<lambda>rc. (laid rc, pc (reader rc), unat (sum_client (sums (bench (reader rc)))))) (readers x) = [(1, Finished, 34)]"
    "calls3 (system3 x) = [W_Call 0 (decimal 0) (replicate 2 65) 0, R_Call 0 1 (decimal 0) 2 1]"
    "failed3 (system3 x) = []" "length (leafs (db3 (system3 x))) = 1"
proof -
  let ?x0 = "exp3_start 1 1 1 (map (\<lambda>(ip, port). Leaf_new ip port) [(''a'', 1)]) [demo3_leaf]"
  obtain x where x: "run3 1 1 2 demo_reads ?x0 = Some x"
    "map (\<lambda>rc. (laid rc, pc (reader rc), unat (sum_client (sums (bench (reader rc)))))) (readers x) = [(1, Finished, 34)]"
    "calls3 (system3 x) = [W_Call 0 (decimal 0) (replicate 2 65) 0, R_Call 0 1 (decimal 0) 2 1]"
    "failed3 (system3 x) = []" "length (leafs (db3 (system3 x))) = 1"
    using demo_reads_run by (auto split: option.splits)
  show ?thesis by (rule that [OF exp3_reach_run [OF exp3_reach.start x(1)] x(2-5)])
qed


end
