(* ===== verification/Exp3Files.thy ===== *)
theory Exp3Files
  imports Exp3Experiment
begin

text \<open>
  What the clients of \<open>fbthrift/exp3\<close> write before they read: every file a client asks for has been laid down by that
  client, and its write has been acknowledged, in every run of the experiment of \<open>Exp3Experiment\<close>.
\<close>

section \<open>Writes and what waits for them\<close>

text \<open>A write whose futures are not all resolved has someone waiting for the rest. \<open>n\<close> is the number of leafs.\<close>

fun tracked_call :: "nat \<Rightarrow> db_wait set \<Rightarrow> nat set \<Rightarrow> db_call \<Rightarrow> bool" where
  "tracked_call n W Rt (W_Call cb k d a) =
     ({a..<a + n} \<subseteq> Rt \<or> (\<exists>fs. Wait_All cb fs \<in> W \<and> {a..<a + n} \<subseteq> set fs \<union> Rt))"
| "tracked_call n W Rt (R_Call cb reqid fn sz f) = True"

definition tracked :: "'f sys3 \<Rightarrow> bool" where
  "tracked s \<longleftrightarrow> (\<forall>c \<in> set (calls3 s). tracked_call (length (leafs (db3 s))) (set (waiting (db3 s))) (settled s) c)"

lemma tracked_mono: "tracked_call n W Rt c \<Longrightarrow> W \<subseteq> W' \<Longrightarrow> tracked_call n W' Rt c"
  by (cases c) auto

lemma tracked_resolve:
  assumes "tracked_call n (set ws) Rt c"
  shows "tracked_call n (set (concat (map (keep f) ws))) (insert f Rt) c"
proof (cases c)
  case (W_Call cb k d a)
  show ?thesis
  proof (cases "{a..<a + n} \<subseteq> Rt")
    case False
    then obtain fs where fs: "Wait_All cb fs \<in> set ws" "{a..<a + n} \<subseteq> set fs \<union> Rt"
      using assms W_Call by auto
    show ?thesis
    proof (cases "f \<in> set fs \<and> removeAll f fs = []")
      case True
      then have "set fs \<subseteq> {f}" by (auto simp: removeAll_filter_not_eq filter_empty_conv)
      then show ?thesis using fs(2) by (auto simp: W_Call)
    next
      case False
      then have "Wait_All cb (removeAll f fs) \<in> set (concat (map (keep f) ws))" using fs(1) by force
      moreover have "{a..<a + n} \<subseteq> set (removeAll f fs) \<union> insert f Rt" using fs(2) by auto
      ultimately show ?thesis unfolding W_Call tracked_call.simps by blast
    qed
  qed (auto simp: W_Call)
qed simp

text \<open>What a step leaves of what was known: calls are added, futures are resolved, the leafs stay.\<close>

definition grows :: "db_call list \<Rightarrow> 'f sys3 \<Rightarrow> 'f sys3 \<Rightarrow> bool" where
  "grows Q s t \<longleftrightarrow> calls3 t = calls3 s @ Q \<and> settled s \<subseteq> settled t \<and> length (leafs (db3 t)) = length (leafs (db3 s))"

lemma tracked_resolved:
  assumes "tracked s" and "db3 t = resolve now f r (db3 s)" and "settled t = insert f (settled s)" and "calls3 t = calls3 s"
  shows "tracked t \<and> grows [] s t"
  using assms tracked_resolve [of "length (leafs (db3 s))" "waiting (db3 s)" "settled s" _ f]
  by (simp add: tracked_def resolve_def grows_def) blast

lemma tracked_same:
  assumes "tracked s" and "waiting (db3 t) = waiting (db3 s)" and "settled t = settled s" and "calls3 t = calls3 s"
    and "length (leafs (db3 t)) = length (leafs (db3 s))"
  shows "tracked t \<and> grows [] s t"
  using assms by (simp add: tracked_def grows_def)

lemma tracked_step:
  assumes tr: "tracked s" and st: "sys3_step e s = Inr t" and e: "\<not> client_call e"
  shows "tracked t \<and> grows [] s t"
  using st e
proof (cases rule: sys3_step_effect)
  case same
  then show ?thesis by (intro tracked_same [OF tr]) (simp_all add: settled_def)
next
  case (answered i q now)
  show ?thesis by (rule tracked_resolved [OF tr]) (auto simp: answered(4) settled_def)
next
  case (lost f now)
  show ?thesis by (rule tracked_resolved [OF tr]) (auto simp: lost(3) settled_def)
qed

text \<open>The call that a client's message becomes.\<close>

fun made_call :: "nat \<Rightarrow> nat \<Rightarrow> client_msg \<Rightarrow> db_call" where
  "made_call f c (Ask_Write k d) = W_Call c k d f"
| "made_call f c (Ask_Read reqid fn sz) = R_Call c reqid fn sz f"

lemma tracked_ask:
  assumes tr: "tracked s" and inv: "sys3_inv {#} s" and st: "sys3_step (ask_event now c m) s = Inr t"
  shows "tracked t \<and> grows [made_call (length (requests_made (db3 s))) c m] s t"
proof -
  note I = sys3_invD [OF inv]
  let ?R = "requests_made (db3 s)" and ?n = "length (leafs (db3 s))"
  have all: ?thesis
    if t: "t = db_calls (made_call (length ?R) c m) d s" and d: "waiting d = waiting (db3 s) @ [w]" "length (leafs d) = ?n"
      and w: "tracked_call ?n {w} (settled s) (made_call (length ?R) c m)" for d w
  proof -
    have "settled t = settled s" by (simp add: t db_calls_def settled_def)
    then show ?thesis
      using tr tracked_mono [OF w, of "set (waiting (db3 s) @ [w])"]
      by (auto simp: tracked_def grows_def t db_calls_def d intro: tracked_mono)
  qed
  show ?thesis
  proof (cases m)
    case (Ask_Write k d)
    let ?w = "Wait_All c [length ?R..<length ?R + ?n]"
    have "t = db_calls (made_call (length ?R) c m) ((db3 s)\<lparr>leafs := map connected_leaf (leafs (db3 s)),
        requests_made := ?R @ map (\<lambda>i. (i, Leaf_Write k d)) [0..<?n], waiting := waiting (db3 s) @ [?w]\<rparr>) s"
      using st by (simp add: Ask_Write sys3_step_def db_write_eq [OF I(1)])
    then show ?thesis by (rule all [where w = ?w]) (simp_all add: Ask_Write)
  next
    case (Ask_Read reqid fn sz)
    let ?w = "Wait_Read c reqid now (length ?R)"
    from db_read_eq [OF I(1,2), of now c reqid fn sz] obtain d where
      d: "db_read True now c reqid fn sz (db3 s) = Inr d" "waiting d = waiting (db3 s) @ [?w]" "length (leafs d) = ?n"
      by auto
    have "t = db_calls (made_call (length ?R) c m) d s" using st d(1) by (simp add: Ask_Read sys3_step_def)
    then show ?thesis by (rule all [where w = ?w]) (simp_all add: Ask_Read d)
  qed
qed

section \<open>Files of a client\<close>

text \<open>File \<open>i\<close> of client \<open>c\<close>: being written, written with all its futures resolved, asked for.\<close>

definition writing :: "u32 \<Rightarrow> (nat \<times> client_msg) set \<Rightarrow> 'f sys3 \<Rightarrow> nat \<Rightarrow> nat \<Rightarrow> bool" where
  "writing sz A s c i \<longleftrightarrow>
     (c, Ask_Write (decimal i) (replicate (unat sz) 65)) \<in> A \<or>
     (\<exists>a. W_Call c (decimal i) (replicate (unat sz) 65) a \<in> set (calls3 s))"

definition written :: "u32 \<Rightarrow> 'f sys3 \<Rightarrow> nat \<Rightarrow> nat \<Rightarrow> bool" where
  "written sz s c i \<longleftrightarrow>
     (\<exists>a. W_Call c (decimal i) (replicate (unat sz) 65) a \<in> set (calls3 s) \<and>
        {a..<a + length (leafs (db3 s))} \<subseteq> settled s)"

definition asks_read :: "(nat \<times> client_msg) set \<Rightarrow> 'f sys3 \<Rightarrow> nat \<Rightarrow> string \<Rightarrow> u32 \<Rightarrow> bool" where
  "asks_read A s c fn k \<longleftrightarrow> (\<exists>reqid. (c, Ask_Read reqid fn k) \<in> A) \<or> (\<exists>reqid f. R_Call c reqid fn k f \<in> set (calls3 s))"

definition reader_files :: "u32 \<Rightarrow> u32 \<Rightarrow> (nat \<times> client_msg) set \<Rightarrow> 'f sys3 \<Rightarrow> nat \<Rightarrow> read_client \<Rightarrow> bool" where
  "reader_files qd sz A s c rc \<longleftrightarrow>
     (\<forall>i < laid rc. written sz s c i) \<and> (acking rc \<longrightarrow> writing sz A s c (laid rc)) \<and>
     unat (req_tosend (bench (reader rc))) \<le> unat qd"

definition reads_laid :: "u32 \<Rightarrow> u64 \<Rightarrow> u32 \<Rightarrow> read_client \<Rightarrow> string \<Rightarrow> u32 \<Rightarrow> bool" where
  "reads_laid qd n sz rc fn k \<longleftrightarrow> laid rc = unat n \<and> k = sz \<and> (\<exists>i < unat qd. fn = decimal i)"

definition files_ok :: "u32 \<Rightarrow> u64 \<Rightarrow> u32 \<Rightarrow> read_client list \<Rightarrow> (nat \<times> client_msg) set \<Rightarrow> 'f sys3 \<Rightarrow> bool" where
  "files_ok qd n sz rcs A s \<longleftrightarrow>
     tracked s \<and> (\<forall>c < length rcs. reader_files qd sz A s c (rcs ! c)) \<and>
     (\<forall>c fn k. asks_read A s c fn k \<longrightarrow> c < length rcs \<and> reads_laid qd n sz (rcs ! c) fn k)"

lemma files_okD:
  assumes "files_ok qd n sz rcs A s"
  shows "tracked s" and "\<And>c. c < length rcs \<Longrightarrow> reader_files qd sz A s c (rcs ! c)"
    and "\<And>c fn k. asks_read A s c fn k \<Longrightarrow> c < length rcs \<and> reads_laid qd n sz (rcs ! c) fn k"
  using assms by (simp_all add: files_ok_def)

lemma reader_files_mono:
  assumes "reader_files qd sz A s c rc" and "written sz s c \<le> written sz t c" and "writing sz A s c \<le> writing sz B t c"
  shows "reader_files qd sz B t c rc"
  using assms by (auto simp: reader_files_def le_fun_def)

lemma written_mono: "grows Q s t \<Longrightarrow> written sz s c \<le> written sz t c"
  by (force simp: grows_def written_def le_fun_def)

text \<open>A step of client \<open>c\<close>, which sends \<open>ms\<close>.\<close>

lemma client_files:
  assumes ok: "files_ok qd n sz rcs A s" and rc: "c < length rcs \<Longrightarrow> reader_files qd sz (A \<union> Pair c ` set ms) s c rc"
    and laid: "laid (rcs ! c) = unat n \<Longrightarrow> laid rc = unat n"
    and reads: "\<And>reqid fn k. c < length rcs \<Longrightarrow> Ask_Read reqid fn k \<in> set ms \<Longrightarrow> reads_laid qd n sz rc fn k"
    and c: "c < length rcs"
  shows "files_ok qd n sz (rcs[c := rc]) (A \<union> Pair c ` set ms) s"
proof -
  note I = files_okD [OF ok]
  let ?B = "A \<union> Pair c ` set ms"
  have "reader_files qd sz ?B s d (rcs[c := rc] ! d)" if d: "d < length rcs" for d
  proof (cases "d = c")
    case False
    have "writing sz A s d \<le> writing sz ?B s d" by (auto simp: writing_def le_fun_def)
    from reader_files_mono [OF I(2) [OF d] _ this] show ?thesis using False by simp
  qed (use rc d in simp)
  moreover have "d < length rcs \<and> reads_laid qd n sz (rcs[c := rc] ! d) fn k" if a: "asks_read ?B s d fn k" for d fn k
  proof (cases "asks_read A s d fn k")
    case True
    from I(3) [OF this] laid c show ?thesis by (auto simp: reads_laid_def nth_list_update)
  next
    case False
    with a obtain reqid where "d = c" "Ask_Read reqid fn k \<in> set ms" by (auto simp: asks_read_def)
    with reads c show ?thesis by auto
  qed
  ultimately show ?thesis using I(1) by (simp add: files_ok_def)
qed

lemma client_files_silent:
  assumes ok: "files_ok qd n sz rcs A s" and rc: "c < length rcs \<Longrightarrow> reader_files qd sz A s c rc"
    and laid: "laid (rcs ! c) = unat n \<Longrightarrow> laid rc = unat n" and c: "c < length rcs"
  shows "files_ok qd n sz (rcs[c := rc]) A s"
  using client_files [OF ok, of c "[]" rc] rc laid c by simp

lemma lays_files:
  assumes ok: "files_ok qd n sz rcs A s" and c: "c < length rcs" and l: "client3_lays n sz (rcs ! c) = (rc, ms)"
  shows "files_ok qd n sz (rcs[c := rc]) (A \<union> Pair c ` set ms) s"
proof (cases "laid (rcs ! c) < unat n \<and> \<not> acking (rcs ! c)")
  case True
  then have rc: "rc = (rcs ! c)\<lparr>acking := True\<rparr>" and ms: "ms = [Ask_Write (decimal (laid (rcs ! c))) (replicate (unat sz) 65)]"
    using l by (auto simp: client3_lays_def)
  show ?thesis
    by (rule client_files [OF ok _ _ _ c])
      (use files_okD(2) [OF ok c] in \<open>auto simp: rc ms reader_files_def writing_def\<close>)
qed (use l ok c in \<open>auto simp: client3_lays_def\<close>)

lemma client_sends_tosend: "req_tosend (bench (client_sends now cl)) = req_tosend (bench cl)"
  by (simp add: client_sends_def send_request_def Let_def split: client_pc.splits)

lemma sends_files:
  assumes ok: "files_ok qd n sz rcs A s" and c: "c < length rcs" and l: "client3_sends now n sz (rcs ! c) = (rc, ms)"
  shows "files_ok qd n sz (rcs[c := rc]) (A \<union> Pair c ` set ms) s"
proof (cases "laid (rcs ! c) = unat n")
  case True
  let ?cl = "reader (rcs ! c)"
  from True l have rc: "rc = (rcs ! c)\<lparr>reader := client_sends now ?cl\<rparr>" by (simp add: client3_sends_def)
  have f: "reader_files qd sz A s c (rcs ! c)" by (rule files_okD(2) [OF ok c])
  have ms: "\<exists>i < unat qd. m = Ask_Read (req_id (bench ?cl)) (decimal i) sz" if m: "m \<in> set ms" for m
  proof -
    obtain i where i: "i < unat (req_tosend (bench ?cl))" "m = Ask_Read (req_id (bench ?cl)) (decimal i) sz"
      using l True m by (auto simp: client3_sends_def split: client_pc.splits if_splits)
    have "i < unat qd" using i(1) f by (simp add: reader_files_def)
    with i(2) show ?thesis by blast
  qed
  show ?thesis
  proof (rule client_files [OF ok _ _ _ c])
    show "reader_files qd sz (A \<union> Pair c ` set ms) s c rc"
      using f by (auto simp: rc reader_files_def client_sends_tosend writing_def)
    show "reads_laid qd n sz rc fn k" if "Ask_Read reqid fn k \<in> set ms" for reqid fn k
      using ms [OF that] True by (auto simp: reads_laid_def rc)
  qed (simp add: rc)
qed (use l ok c in \<open>auto simp: client3_sends_def\<close>)

lemma loops_files:
  assumes ok: "files_ok qd n sz rcs A s" and c: "c < length rcs" and cl: "client_ok qd n (reader (rcs ! c))"
    and cfg: "bench_ok qd n"
  shows "files_ok qd n sz (rcs[c := (rcs ! c)\<lparr>reader := client_loops qd n (reader (rcs ! c))\<rparr>]) A s"
proof (rule client_files_silent [OF ok _ _ c])
  let ?b = "bench (reader (rcs ! c))"
  have f: "reader_files qd sz A s c (rcs ! c)" by (rule files_okD(2) [OF ok c])
  have "unat (req_tosend (next_tosend qd n ?b)) \<le> unat qd"
    using next_tosend_value [of ?b qd n] cl cfg by (auto simp: client_ok_def bench_ok_def)
  then have "unat (req_tosend (bench (client_loops qd n (reader (rcs ! c))))) \<le> unat qd"
    using f by (simp add: client_loops_def reader_files_def Let_def split: client_pc.splits)
  then show "reader_files qd sz A s c ((rcs ! c)\<lparr>reader := client_loops qd n (reader (rcs ! c))\<rparr>)"
    using f by (simp add: reader_files_def)
qed simp

lemma receives_files:
  assumes ok: "files_ok qd n sz rcs A s" and c: "c < length rcs" and r: "client3_receives sz now r (rcs ! c) = Inr rc"
  shows "files_ok qd n sz (rcs[c := rc]) A s"
proof -
  have "laid rc = laid (rcs ! c) \<and> acking rc = acking (rcs ! c) \<and>
      req_tosend (bench (reader rc)) = req_tosend (bench (reader (rcs ! c)))"
    using r by (auto simp: client3_receives_def receive_reply_def Let_def result_simps split: option.splits if_splits)
  then show ?thesis
    using files_okD(2) [OF ok c] by (intro client_files_silent [OF ok _ _ c]) (auto simp: reader_files_def)
qed


section \<open>Answers to writes\<close>

text \<open>A call is under way once, so with its answer on its way to the client nothing waits for the write any more.\<close>

lemma write_answered_once:
  assumes ok: "trial3_ok qd n sz x" and y: "DB_Done c \<in> set (inbox3 x)"
  shows "(c, Ask_Write k d) \<notin> set (asked x)" and "Wait_All c fs \<notin> set (waiting (db3 (system3 x)))"
proof -
  have once: "count (items3 x) y \<le> 1" for y
    using mset_subset_eq_count [OF trial3_okD(4) [OF ok], of y] by (simp add: count_mset_set' split: if_splits)
  have "Inl c \<in># image_mset answer_item (mset (inbox3 x))" using y by force
  then have "0 < count (image_mset answer_item (mset (inbox3 x))) (Inl c)" by (simp only: count_greater_zero_iff)
  with once [of "Inl c"] have "count (image_mset msg_item (mset (asked x))) (Inl c) = 0" "count (waits (system3 x)) (Inl c) = 0"
    unfolding items3_def count_union by linarith+
  then have "Inl c \<notin># image_mset msg_item (mset (asked x))" and "Inl c \<notin># waits (system3 x)"
    by (simp_all only: not_in_iff)
  then show "(c, Ask_Write k d) \<notin> set (asked x)" "Wait_All c fs \<notin> set (waiting (db3 (system3 x)))"
    by (force simp: waits_def)+
qed

lemma acked_files:
  assumes ok: "files_ok qd n sz (readers x) (set (asked x)) (system3 x)" and t: "trial3_ok qd n sz x"
    and y: "DB_Done c \<in> set (inbox3 x)" and c: "c < length (readers x)"
    and r: "client3_acked (readers x ! c) = Inr rc"
  shows "files_ok qd n sz ((readers x)[c := rc]) (set (asked x)) (system3 x)"
proof (cases "acking (readers x ! c)")
  case True
  let ?l = "laid (readers x ! c)" and ?s = "system3 x"
  have rc: "rc = (readers x ! c)\<lparr>laid := Suc ?l, acking := False\<rparr>"
    using r True by (auto simp: client3_acked_def split: if_splits)
  have f: "reader_files qd sz (set (asked x)) ?s c (readers x ! c)" by (rule files_okD(2) [OF ok c])
  then have "writing sz (set (asked x)) ?s c ?l" using True by (simp add: reader_files_def)
  then obtain a where a: "W_Call c (decimal ?l) (replicate (unat sz) 65) a \<in> set (calls3 ?s)"
    using write_answered_once(1) [OF t y] by (auto simp: writing_def)
  from files_okD(1) [OF ok] a have "tracked_call (length (leafs (db3 ?s))) (set (waiting (db3 ?s))) (settled ?s)
      (W_Call c (decimal ?l) (replicate (unat sz) 65) a)" unfolding tracked_def by blast
  then have "{a..<a + length (leafs (db3 ?s))} \<subseteq> settled ?s"
    using write_answered_once(2) [OF t y] by auto
  with a have w: "written sz ?s c ?l" by (auto simp: written_def)
  have l: "?l < unat n" using trial3_okD(3) [OF t] c True by (simp add: reader_ok_def)
  show ?thesis
    by (rule client_files_silent [OF ok _ _ c]) (use f w l in \<open>auto simp: rc reader_files_def less_Suc_eq\<close>)
qed (use r ok in \<open>auto simp: client3_acked_def\<close>)

section \<open>Steps\<close>

lemma system_files:
  assumes ok: "files_ok qd n sz rcs A s" and t: "tracked t" and g: "grows [] s t"
  shows "files_ok qd n sz rcs A t"
proof -
  have same: "writing sz A t c = writing sz A s c" "asks_read A t c = asks_read A s c" for c
    using g by (auto simp: grows_def writing_def asks_read_def fun_eq_iff)
  have "reader_files qd sz A t c (rcs ! c)" if "c < length rcs" for c
    by (rule reader_files_mono [OF files_okD(2) [OF ok that] written_mono [OF g]]) (simp add: same)
  with ok t show ?thesis by (simp add: files_ok_def same)
qed

lemma message_files:
  assumes ok: "files_ok qd n sz rcs A s" and A: "A = insert (c, m) B"
    and t: "tracked t" and g: "grows [made_call f c m] s t"
  shows "files_ok qd n sz rcs B t"
proof -
  have calls: "calls3 t = calls3 s @ [made_call f c m]" using g by (simp add: grows_def)
  have w: "writing sz A s d \<le> writing sz B t d" for d
    by (cases m) (auto simp: writing_def A calls le_fun_def)
  have "asks_read A s d fn k" if "asks_read B t d fn k" for d fn k
    using that by (cases m) (auto simp: asks_read_def A calls)
  moreover have "reader_files qd sz B t d (rcs ! d)" if "d < length rcs" for d
    by (rule reader_files_mono [OF files_okD(2) [OF ok that] written_mono [OF g] w])
  ultimately show ?thesis using t files_okD(3) [OF ok] unfolding files_ok_def by blast
qed


lemma set_take_nth: "k < length xs \<Longrightarrow> set xs = insert (xs ! k) (set (take k xs @ drop (Suc k) xs))"
  by (subst id_take_nth_drop [of k xs]) auto

lemma system_does_files:
  assumes t: "trial3_ok qd n sz x" and ok: "files_ok qd n sz (readers x) (set (asked x)) (system3 x)"
    and e: "\<not> client_call e" and st: "system_does e x = Inr y"
  shows "files_ok qd n sz (readers y) (set (asked y)) (system3 y)"
proof -
  obtain s where s: "sys3_step e (system3 x) = Inr s" "readers y = readers x" "asked y = asked x" "system3 y = s"
    using st by (auto simp: system_does_def result_simps)
  from tracked_step [OF files_okD(1) [OF ok] s(1) e] system_files [OF ok] show ?thesis by (simp add: s)
qed

lemma message_arrives_files:
  assumes t: "trial3_ok qd n sz x" and ok: "files_ok qd n sz (readers x) (set (asked x)) (system3 x)"
    and k: "k < length (asked x)" and m: "asked x ! k = (c, m)"
    and st: "system_does (ask_event now c m) (x\<lparr>asked := take k (asked x) @ drop (Suc k) (asked x)\<rparr>) = Inr y"
  shows "files_ok qd n sz (readers y) (set (asked y)) (system3 y)"
proof -
  obtain s where s: "sys3_step (ask_event now c m) (system3 x) = Inr s" "readers y = readers x"
    "asked y = take k (asked x) @ drop (Suc k) (asked x)" "system3 y = s"
    using st by (auto simp: system_does_def result_simps)
  from tracked_ask [OF files_okD(1) [OF ok] trial3_okD(1) [OF t] s(1)]
  show ?thesis unfolding s(2-4) by (intro message_files [OF ok set_take_nth [OF k, unfolded m]]) blast+
qed

lemma exp3_event_files:
  assumes t: "trial3_ok qd n sz x" and ok: "files_ok qd n sz (readers x) (set (asked x)) (system3 x)"
    and cfg: "bench_ok qd n" and st: "exp3_event qd n sz now e x = Inr y"
  shows "files_ok qd n sz (readers y) (set (asked y)) (system3 y)"
proof (cases e)
  case (Reader_Lays c)
  then show ?thesis
    using ok st lays_files [OF ok, of c] by (auto simp: exp3_event_def split: if_splits prod.splits)
next
  case (Reader_Sends c)
  then show ?thesis
    using ok st sends_files [OF ok, of c now] by (auto simp: exp3_event_def split: if_splits prod.splits)
next
  case (Message_Arrives k)
  then show ?thesis
    using ok st message_arrives_files [OF t ok, of k "fst (asked x ! k)" "snd (asked x ! k)" now y]
    by (auto simp: exp3_event_def split: if_splits)
next
  case (System_Event e3)
  then show ?thesis using ok st system_does_files [OF t ok, of e3 y] by (auto simp: exp3_event_def split: if_splits)
next
  case (Reader_Loops c)
  have "client_ok qd n (reader (readers x ! c))" if "c < length (readers x)"
    using trial3_okD(3) [OF t] that by (simp add: reader_ok_def)
  then show ?thesis
    using ok st loops_files [OF ok _ _ cfg, of c] Reader_Loops by (auto simp: exp3_event_def Let_def split: if_splits)
next
  case (Reply_Arrives k)
  show ?thesis
  proof (cases "k < length (inbox3 x)")
    case True
    show ?thesis
    proof (cases "inbox3 x ! k")
      case (DB_Done c)
      then have "DB_Done c \<in> set (inbox3 x)" using True by (metis nth_mem)
      from acked_files [OF ok t this] show ?thesis
        using ok st True DB_Done Reply_Arrives by (auto simp: exp3_event_def Let_def result_simps split: if_splits)
    next
      case (DB_Data c r)
      from receives_files [OF ok, of c now r] show ?thesis
        using ok st True DB_Data Reply_Arrives by (auto simp: exp3_event_def Let_def result_simps split: if_splits)
    qed
  qed (use ok st Reply_Arrives in \<open>simp add: exp3_event_def\<close>)
qed

lemma exp3_reach_files:
  assumes "exp3_reach qd n sz x0 x" and "trial3_ok qd n sz x0" and "bench_ok qd n" "unat n \<le> 2147483647" "unat sz < 2147483648"
    and "files_ok qd n sz (readers x0) (set (asked x0)) (system3 x0)"
  shows "files_ok qd n sz (readers x) (set (asked x)) (system3 x)"
  using assms(1)
proof (induction rule: exp3_reach.induct)
  case (step x e now y)
  from exp3_event_files [OF exp3_reach_ok [OF step.hyps(1) assms(2-5)] step.IH assms(3) step.hyps(3)] show ?case .
qed (rule assms(6))

lemma exp3_start_files:
  "files_ok qd n sz (readers (exp3_start qd n nt ls lfs)) (set (asked (exp3_start qd n nt ls lfs)))
     (system3 (exp3_start qd n nt ls lfs))"
  by (simp add: files_ok_def exp3_start_def sys3_start_def tracked_def asks_read_def reader_files_def new_reader_def
      new_client_def bench_start_def)

text \<open>
  C12. A client reads only what it has written: in every reachable state of the experiment with a queue depth of at
  most the number of files, each read that has reached the database server asks for the size and one of the files of that
  client, whose write has been answered by every leaf, except those whose calls have failed.
\<close>

theorem exp3_reads_laid_files:
  assumes "addrs \<noteq> []" and "length addrs < 4294967296" and "length lfs = length addrs" and "fresh_leafs lfs"
    and "1 \<le> unat qd" and "unat qd \<le> unat n" and "unat n \<le> 2147483647" and "unat sz < 2147483648"
    and "exp3_reach qd n sz (exp3_start qd n nt (map (\<lambda>(ip, port). Leaf_new ip port) addrs) lfs) x"
    and "R_Call c reqid fn k f \<in> set (calls3 (system3 x))"
  shows "k = sz \<and> (\<exists>i < unat n. fn = decimal i) \<and>
    (\<exists>a. W_Call c fn (replicate (unat sz) 65) a \<in> set (calls3 (system3 x)) \<and>
       (\<forall>j < length (leafs (db3 (system3 x))).
          requests_made (db3 (system3 x)) ! (a + j) = (j, Leaf_Write fn (replicate (unat sz) 65)) \<and>
          (Reply_Done (a + j) \<in> set (replies (leafs3 (system3 x) ! j)) \<or> a + j \<in> set (failed3 (system3 x)))))"
proof -
  have qd: "unat qd \<le> 2147483647" using assms(6,7) by linarith
  note r = exp3_reached_ok [OF assms(1-5) qd assms(7-9)]
  have F: "files_ok qd n sz (readers x) (set (asked x)) (system3 x)"
    by (rule exp3_reach_files [OF assms(9) exp3_start_ok [OF assms(1-4) r(3)] r(3) assms(7,8) exp3_start_files])
  have "asks_read (set (asked x)) (system3 x) c fn k" using assms(10) by (auto simp: asks_read_def)
  from files_okD(3) [OF F this] obtain i where
    i: "c < length (readers x)" "laid (readers x ! c) = unat n" "k = sz" "i < unat qd" "fn = decimal i"
    by (auto simp: reads_laid_def)
  have lt: "i < unat n" using i(4) assms(6) by linarith
  have "written sz (system3 x) c i"
    using files_okD(2) [OF F i(1)] i(2) lt by (simp add: reader_files_def)
  then obtain a where a: "W_Call c fn (replicate (unat sz) 65) a \<in> set (calls3 (system3 x))"
    "{a..<a + length (leafs (db3 (system3 x)))} \<subseteq> settled (system3 x)" by (auto simp: written_def i(5))
  from settled_write_answered [OF trial3_okD(1) [OF r(1)] this] a(1) i(3,5) lt show ?thesis by blast
qed

theorem exp3_reads_laid_files_witness:
  "\<exists>x a. exp3_reach 1 1 2 (exp3_start 1 1 1 [Leaf_new ''a'' 1] [demo3_leaf]) x \<and>
     W_Call 0 (decimal 0) (replicate 2 65) a \<in> set (calls3 (system3 x)) \<and> Reply_Done a \<in> set (replies (leafs3 (system3 x) ! 0))"
proof -
  obtain x where x: "exp3_reach 1 1 2 (exp3_start 1 1 1 (map (\<lambda>(ip, port). Leaf_new ip port) [(''a'', 1)]) [demo3_leaf]) x"
    "calls3 (system3 x) = [W_Call 0 (decimal 0) (replicate 2 65) 0, R_Call 0 1 (decimal 0) 2 1]"
    "failed3 (system3 x) = []" "length (leafs (db3 (system3 x))) = 1"
    by (rule demo_reads_reached)
  have "R_Call 0 1 (decimal 0) 2 1 \<in> set (calls3 (system3 x))" using x(2) by simp
  from exp3_reads_laid_files [OF _ _ _ demo3_leafs _ _ _ _ x(1) this] x show ?thesis by auto
qed


end
