(* ===== verification/Exp3Fair.thy ===== *)
theory Exp3Fair
  imports Exp3Experiment Exp2Fair
begin

text \<open>
  The read experiment of \<open>fbthrift/exp3\<close> ends under every fair schedule: as for \<open>exp2\<close> (\<open>Exp2Fair\<close>), every move of a
  request takes from a load, so from some moment on nothing moves; then everything sent has been answered, and
  a client that has not finished and has a free slot would send. A run is a sequence of states, each reached from the one before
  by a step that does not fail; the kernel leaves at least the bytes asked for in the buffer of an IO.
\<close>

section \<open>Futures waited for and buffers\<close>

fun open_wait :: "nat \<Rightarrow> nat set \<Rightarrow> db_wait \<Rightarrow> bool" where
  "open_wait n Rt (Wait_All cb fs) = (fs \<noteq> [] \<and> (\<forall>f \<in> set fs. f < n \<and> f \<notin> Rt))"
| "open_wait n Rt (Wait_Read cb reqid t f) = (f < n \<and> f \<notin> Rt)"

definition waits_open :: "'f sys3 \<Rightarrow> bool" where
  "waits_open s \<longleftrightarrow> settled s \<subseteq> {..<length (requests_made (db3 s))} \<and>
     (\<forall>w \<in> set (waiting (db3 s)). open_wait (length (requests_made (db3 s))) (settled s) w)"

lemma open_wait_mono: "open_wait n Rt w \<Longrightarrow> n \<le> m \<Longrightarrow> open_wait m Rt w"
  by (cases w) auto

lemma open_wait_keep: "open_wait n Rt w \<Longrightarrow> v \<in> set (keep f w) \<Longrightarrow> open_wait n (insert f Rt) v"
  by (cases w) (auto split: if_splits)

lemma waits_open_resolve:
  assumes "waits_open s" and "db3 t = resolve now f r (db3 s)" and "settled t = insert f (settled s)"
    and "f < length (requests_made (db3 s))"
  shows "waits_open t"
proof -
  have "open_wait (length (requests_made (db3 s))) (insert f (settled s)) v"
    if "v \<in> set (concat (map (keep f) (waiting (db3 s))))" for v
    using that assms(1) open_wait_keep by (fastforce simp: waits_open_def)
  with assms show ?thesis by (auto simp: waits_open_def resolve_def)
qed

lemma answered_future:
  assumes inv: "sys3_inv {#} s" and "i < length (leafs3 s)" and "q \<in> set (replies (leafs3 s ! i))"
  shows "reply_cb q < length (requests_made (db3 s))"
proof -
  have "reply_item q \<in> leaf_items (leafs3 s ! i)" unfolding leaf_items_def using assms(3) by blast
  then have "item3_ok i (requests_made (db3 s)) (reply_item q)" using sys3_invD(3,6) [OF inv] assms(2) by simp
  then show ?thesis by (cases q) (simp_all add: item3_ok_def)
qed

lemma waits_open_step:
  assumes inv: "sys3_inv {#} s" and w: "waits_open s" and st: "sys3_step e s = Inr t" and e: "\<not> client_call e"
  shows "waits_open t"
  using st e
proof (cases rule: sys3_step_effect)
  case same
  then show ?thesis using w by (simp add: waits_open_def settled_def)
next
  case (answered i q now)
  show ?thesis
    by (rule waits_open_resolve [OF w _ _ answered_future [OF inv answered(1,2)]])
      (auto simp: answered(4) settled_def)
next
  case (lost f now)
  show ?thesis by (rule waits_open_resolve [OF w _ _ lost(1)]) (auto simp: lost(3) settled_def)
qed

lemma waits_open_ask:
  assumes inv: "sys3_inv {#} s" and w: "waits_open s" and st: "sys3_step (ask_event now c m) s = Inr t"
  shows "waits_open t"
proof -
  note I = sys3_invD [OF inv]
  let ?R = "requests_made (db3 s)"
  have new: "f \<notin> settled s" if "length ?R \<le> f" for f using w that by (auto simp: waits_open_def)
  have old: "open_wait (length ?R + k) (settled s) v" if "v \<in> set (waiting (db3 s))" for k v
    by (rule open_wait_mono [of "length ?R"]) (use w that in \<open>simp_all add: waits_open_def\<close>)
  have settled: "settled s \<subseteq> {..<length ?R + k}" for k using w by (auto simp: waits_open_def)
  show ?thesis
  proof (cases m)
    case (Ask_Write k d)
    then have t: "waiting (db3 t) = waiting (db3 s) @ [Wait_All c [length ?R..<length ?R + length (leafs (db3 s))]]"
      "length (requests_made (db3 t)) = length ?R + length (leafs (db3 s))" "settled t = settled s"
      using st by (auto simp: sys3_step_def db_write_eq [OF I(1)] db_calls_def settled_def)
    have "leafs (db3 s) \<noteq> []" using I(2) by auto
    then show ?thesis using old settled new by (auto simp: waits_open_def t)
  next
    case (Ask_Read reqid fn sz)
    then have t: "waiting (db3 t) = waiting (db3 s) @ [Wait_Read c reqid now (length ?R)]"
      "length (requests_made (db3 t)) = length ?R + 1" "settled t = settled s"
      using st db_read_eq [OF I(1,2), of now c reqid fn sz] by (auto simp: sys3_step_def db_calls_def settled_def)
    show ?thesis using old [of _ 1] settled [of 1] new [of "length ?R"] by (auto simp: waits_open_def t)
  qed
qed

text \<open>The kernel returns the buffer of an IO with at least the bytes that were asked for.\<close>

fun kernel_keeps :: "u32 \<Rightarrow> 'f exp3_event \<Rightarrow> bool" where
  "kernel_keeps sz (System_Event (Leaf_Kernel i now ev)) = (unat sz \<le> length (ev_buffer ev))"
| "kernel_keeps sz _ = True"

fun op_keeps :: "u32 \<Rightarrow> 'f leaf_op \<Rightarrow> bool" where
  "op_keeps sz (Kernel now ev) = (unat sz \<le> length (ev_buffer ev))"
| "op_keeps sz _ = True"

definition buffers_ok :: "u32 \<Rightarrow> 'f sys3 \<Rightarrow> bool" where
  "buffers_ok sz s \<longleftrightarrow> (\<forall>l \<in> set (leafs3 s). \<forall>t \<in> set (tasks l). unat sz \<le> length (task_buffer t))"

lemma leaf_step_buffers:
  assumes ok: "leaf_ok l" and st: "leaf_step op l = Inr l'"
    and old: "\<forall>t \<in> set (tasks l). unat sz \<le> length (task_buffer t)"
    and op: "op_keeps sz op"
  shows "\<forall>t \<in> set (tasks l'). unat sz \<le> length (task_buffer t)"
proof (cases op)
  case (Write_Call env f fn d)
  with st have "leaf_write env f fn d l = Inr l'" by (simp add: leaf_step_def)
  from leaf_write_Inr [OF this] old show ?thesis by auto
next
  case (Read_Call env f fn s)
  with st have "leaf_read env f fn s l = Inr l'" by (simp add: leaf_step_def)
  from leaf_read_Inr [OF this] old show ?thesis by auto
next
  case (Kernel now ev)
  with st have "leaf_complete now ev l = Inr l'" by (simp add: leaf_step_def)
  from leaf_complete_Inr [OF ok this] obtain io k rest where
    l': "l' = run_cont now (io\<lparr>bufp := ev_buffer ev, io_result := ioResult ev, fulfilled := True\<rparr>) k
      (l\<lparr>asyncio := (asyncio l)\<lparr>inflight := rest\<rparr>, conts := filter (\<lambda>c. fst c \<noteq> ev_data ev) (conts l)\<rparr>)"
    by blast
  show ?thesis using old op Kernel by (cases k) (auto simp: l' run_cont_def)
next
  case (Worker i cpu)
  then have "set (tasks l') \<subseteq> set (tasks l)"
    using st by (auto simp: leaf_step_def leaf_worker_def Let_def split: if_splits dest: in_set_takeD in_set_dropD)
  with old show ?thesis by blast
qed

lemma leaf_does_buffers:
  assumes inv: "sys3_inv {#} s" and old: "buffers_ok sz s" and st: "leaf_does i op (s\<lparr>undelivered := U\<rparr>) = Inr t"
    and op: "op_keeps sz op"
  shows "buffers_ok sz t"
proof (cases "i < length (leafs3 s)")
  case True
  with st obtain l where l: "leaf_step op (leafs3 s ! i) = Inr l" "leafs3 t = (leafs3 s)[i := l]"
    by (auto simp: leaf_does_def result_simps)
  have "leaf_ok (leafs3 s ! i)" using sys3_invD(3,6) [OF inv] True by simp
  moreover have "\<forall>t \<in> set (tasks (leafs3 s ! i)). unat sz \<le> length (task_buffer t)"
    using old nth_mem [OF True] unfolding buffers_ok_def by blast
  ultimately have "\<forall>t \<in> set (tasks l). unat sz \<le> length (task_buffer t)"
    by (rule leaf_step_buffers [OF _ l(1) _ op])
  then show ?thesis using old by (auto simp: buffers_ok_def l(2) dest!: in_set_update)
qed (use st old in \<open>auto simp: leaf_does_def buffers_ok_def\<close>)

lemma buffers_step:
  assumes inv: "sys3_inv {#} s" and old: "buffers_ok sz s" and st: "sys3_step e s = Inr t"
    and k: "kernel_keeps sz (System_Event e)"
  shows "buffers_ok sz t"
proof (cases "client_call e")
  case True
  then have "leafs3 t = leafs3 s" using st by (cases e) (auto simp: sys3_step_def db_calls_def result_simps)
  with old show ?thesis by (simp add: buffers_ok_def)
next
  case False
  have u: "s\<lparr>undelivered := undelivered s\<rparr> = s" by simp
  note local = leaf_does_buffers [OF inv old, of _ _ "undelivered s", unfolded u]
  from st False show ?thesis
  proof (cases rule: sys3_step_cases)
    case (delivered j i q env)
    show ?thesis by (rule leaf_does_buffers [OF inv old delivered(4)]) (cases q; simp)
  next
    case (kernel i now ev)
    show ?thesis by (rule local [OF kernel(2)]) (use k in \<open>simp add: kernel(1)\<close>)
  next
    case (worker i k cpu)
    show ?thesis by (rule local [OF worker]) simp
  qed (use old in \<open>simp_all add: buffers_ok_def\<close>)
qed

section \<open>The load\<close>

text \<open>
  A request is sent, delivered, made of a leaf, done by the kernel, in a read copied by a worker, and answered; its answer
  resolves a future, and the client receives the answer. \<open>w\<close> is what a message on its way to the database server may still cost.
\<close>

definition leaf3_load :: "'f leaf_state \<Rightarrow> nat" where
  "leaf3_load l = 2 * length (conts l) + length (tasks l)"

definition unresolved :: "'f sys3 \<Rightarrow> nat" where
  "unresolved s = length (filter (\<lambda>f. f \<notin> settled s) [0..<length (requests_made (db3 s))])"

definition servers3_load :: "'f sys3 \<Rightarrow> nat" where
  "servers3_load s = 3 * length (undelivered s) + sum_list (map leaf3_load (leafs3 s)) + unresolved s +
     2 * length (waiting (db3 s))"

definition msg_load :: "'f sys3 \<Rightarrow> nat" where
  "msg_load s = 4 * length (leafs (db3 s)) + 3"

definition asks_left :: "u32 \<Rightarrow> u64 \<Rightarrow> read_client \<Rightarrow> nat" where
  "asks_left qd n rc =
     unat n - (laid rc + (if acking rc then 1 else 0)) + (unat n + unat qd - unat (req_sched (bench (reader rc))))"

definition budget3 :: "nat \<Rightarrow> u32 \<Rightarrow> u64 \<Rightarrow> read_client \<Rightarrow> nat" where
  "budget3 w qd n rc = Suc w * asks_left qd n rc"

definition trial3_load :: "u32 \<Rightarrow> u64 \<Rightarrow> 'f trial3 \<Rightarrow> nat" where
  "trial3_load qd n x =
     sum_list (map (budget3 (msg_load (system3 x)) qd n) (readers x)) + msg_load (system3 x) * length (asked x) +
     servers3_load (system3 x) + length (inbox3 x)"

text \<open>What is under way, which a step moves or leaves.\<close>

definition wires :: "'f sys3 \<Rightarrow> nat list \<times> (nat \<times> leaf_cont) list list \<times> leaf_task list list \<times> nat list \<times> nat list" where
  "wires s = (undelivered s, map conts (leafs3 s), map tasks (leafs3 s), returned s, failed3 s)"

definition moved3 :: "'f trial3 \<Rightarrow> 'f trial3 \<Rightarrow> bool" where
  "moved3 x y \<longleftrightarrow> (asked y, wires (system3 y), inbox3 y) \<noteq> (asked x, wires (system3 x), inbox3 x)"

lemma leaf_step_load3:
  assumes ok: "leaf_ok l" and st: "leaf_step op l = Inr l'"
  shows "called op \<noteq> {#} \<Longrightarrow> leaf3_load l' \<le> leaf3_load l + 2"
    and "called op = {#} \<Longrightarrow> l' = l \<or> leaf3_load l' < leaf3_load l"
proof -
  show "leaf3_load l' \<le> leaf3_load l + 2" if "called op \<noteq> {#}"
  proof (cases op)
    case (Write_Call env f fn d)
    with st have "leaf_write env f fn d l = Inr l'" by (simp add: leaf_step_def)
    from leaf_write_Inr [OF this] show ?thesis by (auto simp: leaf3_load_def)
  next
    case (Read_Call env f fn s)
    with st have "leaf_read env f fn s l = Inr l'" by (simp add: leaf_step_def)
    from leaf_read_Inr [OF this] show ?thesis by (auto simp: leaf3_load_def)
  qed (use that in simp_all)
  show "l' = l \<or> leaf3_load l' < leaf3_load l" if "called op = {#}"
  proof (cases op)
    case (Kernel now ev)
    with st have "leaf_complete now ev l = Inr l'" by (simp add: leaf_step_def)
    from leaf_complete_Inr [OF ok this] obtain io k rest where
      k: "map_of (conts l) (ev_data ev) = Some k"
      and l': "l' = run_cont now (io\<lparr>bufp := ev_buffer ev, io_result := ioResult ev, fulfilled := True\<rparr>) k
        (l\<lparr>asyncio := (asyncio l)\<lparr>inflight := rest\<rparr>, conts := filter (\<lambda>c. fst c \<noteq> ev_data ev) (conts l)\<rparr>)"
      by blast
    have "length (conts l) = Suc (length (filter (\<lambda>c. fst c \<noteq> ev_data ev) (conts l)))"
      using arg_cong [OF filter_key [OF leaf_ok_keys(1) [OF ok] k], of size] by (simp only: size_mset size_add_mset)
    then show ?thesis by (cases k) (simp_all add: l' run_cont_def leaf3_load_def)
  next
    case (Worker i cpu)
    then show ?thesis
      using st by (auto simp: leaf_step_def leaf_worker_def leaf3_load_def Let_def split: if_splits)
  qed (use that in simp_all)
qed

lemma leafs_load_update:
  assumes "i < length ls"
  shows "sum_list (map leaf3_load (ls[i := l])) + leaf3_load (ls ! i) = sum_list (map leaf3_load ls) + leaf3_load l"
proof -
  have "leaf3_load (ls ! i) \<le> sum_list (map leaf3_load ls)" using assms by (intro member_le_sum_list) auto
  then show ?thesis using assms by (simp add: map_update sum_list_update)
qed

lemma unresolved_settle:
  fixes s t :: "'f sys3"
  assumes "f < length (requests_made (db3 s))" and "f \<notin> settled s" and "settled t = insert f (settled s)"
    and "requests_made (db3 t) = requests_made (db3 s)"
  shows "unresolved s = Suc (unresolved t)"
proof -
  let ?n = "length (requests_made (db3 s))"
  have card: "unresolved u = card {g. g < length (requests_made (db3 u)) \<and> g \<notin> settled u}" for u :: "'f sys3"
    unfolding unresolved_def by (subst distinct_card [symmetric]) (auto intro: arg_cong [of _ _ card])
  have "{g. g < ?n \<and> g \<notin> settled s} = insert f {g. g < ?n \<and> g \<notin> settled t}"
    using assms by auto
  moreover have "f \<notin> {g. g < ?n \<and> g \<notin> settled t}" using assms(3) by simp
  ultimately show ?thesis by (simp add: card assms(4))
qed

lemma answers_and_waits:
  "length (concat (map (fire now f res) ws)) + length (concat (map (keep f) ws)) \<le> length ws"
proof (induction ws)
  case (Cons w ws)
  have "length (fire now f res w) + length (keep f w) \<le> 1" by (cases w; cases res) auto
  with Cons show ?case by simp
qed simp

lemma resolve_load:
  assumes "f < length (requests_made (db3 s))" and "f \<notin> settled s" and "settled t = insert f (settled s)"
    and "db3 t = resolve now f r (db3 s)" and "undelivered t = undelivered s" and "leafs3 t = leafs3 s"
  shows "servers3_load t + (length (db_replies (db3 t)) - length (db_replies (db3 s))) < servers3_load s"
proof -
  have "unresolved s = Suc (unresolved t)" by (rule unresolved_settle) (use assms in \<open>simp_all add: resolve_def\<close>)
  with answers_and_waits [of now f r "waiting (db3 s)"] show ?thesis
    by (simp add: servers3_load_def assms resolve_def)
qed


lemma leaf_does_load:
  assumes inv: "sys3_inv {#} s" and st: "leaf_does i op (s\<lparr>undelivered := U\<rparr>) = Inr t"
  shows "db3 t = db3 s \<and> undelivered t = U \<and> settled t = settled s \<and>
    (called op \<noteq> {#} \<longrightarrow> sum_list (map leaf3_load (leafs3 t)) \<le> sum_list (map leaf3_load (leafs3 s)) + 2) \<and>
    (called op = {#} \<longrightarrow> t = s\<lparr>undelivered := U\<rparr> \<or>
       sum_list (map leaf3_load (leafs3 t)) < sum_list (map leaf3_load (leafs3 s)))"
proof (cases "i < length (leafs3 s)")
  case True
  with st obtain l where l: "leaf_step op (leafs3 s ! i) = Inr l" "t = s\<lparr>undelivered := U, leafs3 := (leafs3 s)[i := l]\<rparr>"
    by (auto simp: leaf_does_def result_simps)
  have "leaf_ok (leafs3 s ! i)" using sys3_invD(3,6) [OF inv] True by simp
  note load = leaf_step_load3 [OF this l(1)] and up = leafs_load_update [OF True, of l]
  have "s\<lparr>undelivered := U, leafs3 := leafs3 s\<rparr> = s\<lparr>undelivered := U\<rparr>" by simp
  then show ?thesis using load up by (auto simp: l(2) settled_def)
qed (use st in \<open>auto simp: leaf_does_def settled_def\<close>)

lemma servers_event_load:
  assumes inv: "sys3_inv {#} s" and st: "sys3_step e s = Inr t" and e: "\<not> client_call e"
  shows "msg_load t = msg_load s \<and>
    (servers3_load t + (length (db_replies (db3 t)) - length (db_replies (db3 s))) < servers3_load s \<or>
     wires t = wires s \<and> db_replies (db3 t) = db_replies (db3 s) \<and> servers3_load t = servers3_load s)"
proof -
  have u: "s\<lparr>undelivered := undelivered s\<rparr> = s" by simp
  have local: ?thesis if "leaf_does i op s = Inr t" "called op = {#}" for i op
    using leaf_does_load [OF inv, of i op "undelivered s" t] that unfolding u
    by (auto simp: msg_load_def servers3_load_def unresolved_def)
  have res: ?thesis
    if "f < length (requests_made (db3 s))" "f \<notin> settled s" "settled t = insert f (settled s)"
      "db3 t = resolve now f r (db3 s)" "undelivered t = undelivered s" "leafs3 t = leafs3 s" for now f r
    using resolve_load [OF that] by (simp add: msg_load_def that(4) resolve_def)
  from st e show ?thesis
  proof (cases rule: sys3_step_cases)
    case (delivered j i q env)
    note d = leaf_does_load [OF inv delivered(4)]
    have "called (leaf_call env (undelivered s ! j) q) \<noteq> {#}" by (cases q) simp_all
    then have "sum_list (map leaf3_load (leafs3 t)) \<le> sum_list (map leaf3_load (leafs3 s)) + 2" using d by blast
    moreover have "length (undelivered t) + 1 = length (undelivered s)" using d delivered(2) by simp
    ultimately have "servers3_load t < servers3_load s" using d by (simp add: servers3_load_def unresolved_def)
    then show ?thesis using d by (simp add: msg_load_def)
  next
    case (kernel i now ev)
    show ?thesis by (rule local [OF kernel(2)]) simp
  next
    case (worker i k cpu)
    show ?thesis by (rule local [OF worker]) simp
  next
    case (answered i q now)
    show ?thesis by (rule res [OF answered_future [OF inv answered(1,2)] answered(3)]) (auto simp: answered(4) settled_def)
  next
    case (lost f now)
    show ?thesis by (rule res [OF lost(1,2)]) (auto simp: lost(3) settled_def)
  qed (simp_all add: leaf_closed_def msg_load_def servers3_load_def unresolved_def settled_def wires_def)
qed

lemma unresolved_more:
  assumes "requests_made (db3 t) = requests_made (db3 s) @ Q" and "settled t = settled s"
  shows "unresolved t \<le> unresolved s + length Q"
proof -
  have "[0..<length (requests_made (db3 t))] = [0..<length (requests_made (db3 s))] @
      [length (requests_made (db3 s))..<length (requests_made (db3 s)) + length Q]"
    unfolding assms(1) length_append by (rule upt_add_eq_append) simp
  then have "unresolved t = unresolved s +
      length (filter (\<lambda>f. f \<notin> settled s) [length (requests_made (db3 s))..<length (requests_made (db3 s)) + length Q])"
    by (simp add: unresolved_def assms(2))
  moreover have "length (filter P [a..<a + k]) \<le> k" for P and a k :: nat
    using length_filter_le [of P "[a..<a + k]"] by simp
  ultimately show ?thesis by (metis add_left_mono)
qed

lemma ask_load:
  assumes inv: "sys3_inv {#} s" and st: "sys3_step (ask_event now c m) s = Inr t"
  shows "servers3_load t < servers3_load s + msg_load s" and "msg_load t = msg_load s"
    and "db_replies (db3 t) = db_replies (db3 s)"
proof -
  note I = sys3_invD [OF inv]
  let ?n = "length (leafs (db3 s))"
  have n: "1 \<le> ?n" using I(2) by linarith
  have "\<exists>Q w. requests_made (db3 t) = requests_made (db3 s) @ Q \<and> length Q \<le> ?n \<and> settled t = settled s \<and>
      length (undelivered t) = length (undelivered s) + length Q \<and> leafs3 t = leafs3 s \<and>
      waiting (db3 t) = waiting (db3 s) @ [w] \<and> length (leafs (db3 t)) = ?n \<and> db_replies (db3 t) = db_replies (db3 s)"
  proof (cases m)
    case (Ask_Write k d)
    then show ?thesis
      using st by (auto simp: sys3_step_def db_write_eq [OF I(1)] db_calls_def settled_def)
  next
    case (Ask_Read reqid fn sz)
    then show ?thesis
      using st n db_read_eq [OF I(1,2), of now c reqid fn sz] by (auto simp: sys3_step_def db_calls_def settled_def)
  qed
  then obtain Q w where Q: "requests_made (db3 t) = requests_made (db3 s) @ Q" "length Q \<le> ?n" "settled t = settled s"
    "length (undelivered t) = length (undelivered s) + length Q" "leafs3 t = leafs3 s"
    "waiting (db3 t) = waiting (db3 s) @ [w]" "length (leafs (db3 t)) = ?n" "db_replies (db3 t) = db_replies (db3 s)" by blast
  show "servers3_load t < servers3_load s + msg_load s"
    using unresolved_more [OF Q(1,3)] Q(2,4-6) by (simp add: servers3_load_def msg_load_def)
  show "msg_load t = msg_load s" "db_replies (db3 t) = db_replies (db3 s)" using Q(7,8) by (simp_all add: msg_load_def)
qed


lemma budget3_update:
  assumes "c < length rcs"
  shows "sum_list (map (budget3 w qd n) (rcs[c := rc])) + budget3 w qd n (rcs ! c) =
    sum_list (map (budget3 w qd n) rcs) + budget3 w qd n rc"
proof -
  have "budget3 w qd n (rcs ! c) \<le> sum_list (map (budget3 w qd n) rcs)" using assms by (intro member_le_sum_list) auto
  then show ?thesis using assms by (simp add: map_update sum_list_update)
qed

text \<open>A client that asks for something pays for it; one that does not keeps its budget.\<close>

lemma asks_load:
  assumes c: "c < length (readers x)" and b: "Suc (asks_left qd n rc) = asks_left qd n (readers x ! c)"
  shows "trial3_load qd n (x\<lparr>readers := (readers x)[c := rc], asked := asked x @ [m]\<rparr>) < trial3_load qd n x"
  using budget3_update [OF c, of "msg_load (system3 x)" qd n rc]
  by (simp add: trial3_load_def budget3_def b [symmetric])

lemma silent_load:
  assumes "c < length (readers x)" and "laid rc + (if acking rc then 1 else 0) =
      laid (readers x ! c) + (if acking (readers x ! c) then 1 else 0)"
    and "req_sched (bench (reader rc)) = req_sched (bench (reader (readers x ! c)))"
  shows "trial3_load qd n (x\<lparr>readers := (readers x)[c := rc]\<rparr>) = trial3_load qd n x"
proof -
  have "budget3 w qd n rc = budget3 w qd n (readers x ! c)" for w by (simp only: budget3_def asks_left_def assms(2,3))
  then show ?thesis using budget3_update [OF assms(1), of _ qd n rc] by (simp add: trial3_load_def)
qed

lemma lays_load:
  assumes c: "c < length (readers x)" and l: "client3_lays n sz (readers x ! c) = (rc, ms)"
    and y: "y = x\<lparr>readers := (readers x)[c := rc], asked := asked x @ map (Pair c) ms\<rparr>"
  shows "trial3_load qd n y + (if moved3 x y then 1 else 0) \<le> trial3_load qd n x"
proof (cases "laid (readers x ! c) < unat n \<and> \<not> acking (readers x ! c)")
  case True
  with l obtain m where m: "rc = (readers x ! c)\<lparr>acking := True\<rparr>" "ms = [m]" by (auto simp: client3_lays_def)
  have "Suc (asks_left qd n rc) = asks_left qd n (readers x ! c)" using True by (auto simp: asks_left_def m(1))
  from asks_load [OF c this, of "(c, m)"] show ?thesis by (simp add: y m(2))
next
  case False
  then have "rc = readers x ! c" "ms = []" using l by (auto simp: client3_lays_def)
  then show ?thesis by (simp add: y moved3_def trial3_load_def)
qed

lemma sends_load:
  assumes ok: "trial3_ok qd n sz x" and cfg: "bench_ok qd n" and c: "c < length (readers x)"
    and l: "client3_sends now n sz (readers x ! c) = (rc, ms)"
    and y: "y = x\<lparr>readers := (readers x)[c := rc], asked := asked x @ map (Pair c) ms\<rparr>"
  shows "trial3_load qd n y + (if moved3 x y then 1 else 0) \<le> trial3_load qd n x"
proof -
  let ?cl = "reader (readers x ! c)"
  have "reader_ok qd n (readers x ! c)" using trial3_okD(3) [OF ok] c by simp
  then have cl: "client_ok qd n ?cl" by (simp add: reader_ok_def)
  show ?thesis
  proof (cases "laid (readers x ! c) = unat n \<and> (\<exists>i. pc ?cl = Sending i \<and> i < unat (req_tosend (bench ?cl)))")
    case True
    then obtain i m where i: "pc ?cl = Sending i" "i < unat (req_tosend (bench ?cl))"
      and m: "rc = (readers x ! c)\<lparr>reader := client_sends now ?cl\<rparr>" "ms = [m]"
      using l by (auto simp: client3_sends_def)
    have "unat n + unat qd - unat (req_sched (bench (reader rc))) + 1 = unat n + unat qd - unat (req_sched (bench ?cl))"
      using sends_sched(1) [OF cl cfg i, of now] sends_sched(2) [OF cl cfg i] by (simp add: m(1))
    then have "Suc (asks_left qd n rc) = asks_left qd n (readers x ! c)" by (simp add: asks_left_def m(1))
    from asks_load [OF c this, of "(c, m)"] show ?thesis by (simp add: y m(2))
  next
    case False
    then have "laid rc = laid (readers x ! c)" "acking rc = acking (readers x ! c)"
      "req_sched (bench (reader rc)) = req_sched (bench ?cl)" "ms = []"
      using l client_sends_quiet(2) [OF cl, of now] by (auto simp: client3_sends_def split: client_pc.splits if_splits)
    then have "trial3_load qd n (x\<lparr>readers := (readers x)[c := rc]\<rparr>) = trial3_load qd n x"
      by (intro silent_load [OF c]) simp_all
    moreover have "trial3_load qd n y = trial3_load qd n (x\<lparr>readers := (readers x)[c := rc]\<rparr>)"
      by (simp add: y \<open>ms = []\<close> trial3_load_def)
    ultimately show ?thesis by (simp add: y moved3_def \<open>ms = []\<close>)
  qed
qed


text \<open>A client that takes an answer pays with the answer.\<close>

lemma takes_load:
  assumes c: "c < length (readers x)" and k: "k < length (inbox3 x)"
    and laid: "laid rc + (if acking rc then 1 else 0) = laid (readers x ! c) + (if acking (readers x ! c) then 1 else 0)"
    and sched: "req_sched (bench (reader rc)) = req_sched (bench (reader (readers x ! c)))"
  shows "trial3_load qd n (x\<lparr>inbox3 := take k (inbox3 x) @ drop (Suc k) (inbox3 x), readers := (readers x)[c := rc]\<rparr>)
    < trial3_load qd n x"
proof -
  have "length (take k (inbox3 x) @ drop (Suc k) (inbox3 x)) < length (inbox3 x)" using k by simp
  moreover have "trial3_load qd n (x\<lparr>readers := (readers x)[c := rc]\<rparr>) = trial3_load qd n x"
    by (rule silent_load [OF c laid sched])
  ultimately show ?thesis by (simp add: trial3_load_def)
qed

lemma reply_load:
  assumes ok: "trial3_ok qd n sz x" and n: "unat n \<le> 2147483647" and k: "k < length (inbox3 x)"
    and ev: "exp3_event qd n sz now (Reply_Arrives k) x = Inr y"
  shows "y = x \<or> trial3_load qd n y < trial3_load qd n x"
proof (cases "inbox3 x ! k")
  case (DB_Done c)
  from reader_acked_ok [OF ok n k DB_Done] obtain rc where
    c: "c < length (readers x)" and rc: "client3_acked (readers x ! c) = Inr rc" by blast
  have y: "y = x\<lparr>inbox3 := take k (inbox3 x) @ drop (Suc k) (inbox3 x), readers := (readers x)[c := rc]\<rparr>"
    using ev k c rc DB_Done by (simp add: exp3_event_def Let_def)
  show ?thesis
    unfolding y by (rule disjI2, rule takes_load [OF c k])
      (use rc in \<open>auto simp: client3_acked_def split: if_splits\<close>)
next
  case (DB_Data c r)
  show ?thesis
  proof (cases "c < length (readers x) \<and> pc (reader (readers x ! c)) = Polling")
    case True
    then obtain rc where rc: "client3_receives sz now r (readers x ! c) = Inr rc"
      and y: "y = x\<lparr>inbox3 := take k (inbox3 x) @ drop (Suc k) (inbox3 x), readers := (readers x)[c := rc]\<rparr>"
      using ev k DB_Data by (auto simp: exp3_event_def Let_def result_simps)
    have c: "c < length (readers x)" using True by simp
    show ?thesis
      unfolding y by (rule disjI2, rule takes_load [OF c k])
        (use rc in \<open>auto simp: client3_receives_def receive_reply_def Let_def result_simps split: option.splits if_splits\<close>)
  qed (use ev k DB_Data in \<open>auto simp: exp3_event_def Let_def\<close>)
qed

text \<open>The two events that run the servers.\<close>

lemma message_load:
  assumes ok: "trial3_ok qd n sz x" and k: "k < length (asked x)"
    and ev: "exp3_event qd n sz now (Message_Arrives k) x = Inr y"
  shows "trial3_load qd n y < trial3_load qd n x"
proof -
  define A where "A = take k (asked x) @ drop (Suc k) (asked x)"
  obtain s where s: "sys3_step (ask_event now (fst (asked x ! k)) (snd (asked x ! k))) (system3 x) = Inr s"
    and y: "y = x\<lparr>asked := A, system3 := s,
      inbox3 := inbox3 x @ drop (length (db_replies (db3 (system3 x)))) (db_replies (db3 s))\<rparr>"
    using ev k by (auto simp: exp3_event_def system_does_def result_simps A_def)
  have "length (asked x) = Suc (length A)" using k by (simp add: A_def)
  then show ?thesis using ask_load [OF trial3_okD(1) [OF ok] s] by (simp add: y trial3_load_def)
qed

lemma servers_load:
  assumes ok: "trial3_ok qd n sz x" and e: "\<not> client_call e" and ev: "exp3_event qd n sz now (System_Event e) x = Inr y"
  shows "trial3_load qd n y + (if moved3 x y then 1 else 0) \<le> trial3_load qd n x"
proof -
  obtain s where s: "sys3_step e (system3 x) = Inr s"
    and y: "y = x\<lparr>system3 := s, inbox3 := inbox3 x @ drop (length (db_replies (db3 (system3 x)))) (db_replies (db3 s))\<rparr>"
    using ev e by (auto simp: exp3_event_def system_does_def result_simps)
  from servers_event_load [OF trial3_okD(1) [OF ok] s e] show ?thesis
  proof (elim conjE disjE)
    assume "msg_load s = msg_load (system3 x)"
      "servers3_load s + (length (db_replies (db3 s)) - length (db_replies (db3 (system3 x)))) < servers3_load (system3 x)"
    then have "trial3_load qd n y < trial3_load qd n x" by (simp add: y trial3_load_def)
    then show ?thesis by simp
  qed (simp add: y trial3_load_def moved3_def)
qed

lemma loops_load:
  assumes c: "c < length (readers x)" and ev: "exp3_event qd n sz now (Reader_Loops c) x = Inr y"
  shows "trial3_load qd n y + (if moved3 x y then 1 else 0) \<le> trial3_load qd n x"
proof -
  let ?rc = "(readers x ! c)\<lparr>reader := client_loops qd n (reader (readers x ! c))\<rparr>"
  have y: "y = x\<lparr>readers := (readers x)[c := ?rc]\<rparr>" using ev c by (simp add: exp3_event_def Let_def)
  have "trial3_load qd n y = trial3_load qd n x"
    unfolding y by (rule silent_load [OF c])
      (simp_all add: client_loops_def next_tosend_def Let_def split: client_pc.split)
  then show ?thesis by (simp add: moved3_def y)
qed

text \<open>An event that names nothing there is changes nothing.\<close>

fun no_such :: "'f exp3_event \<Rightarrow> 'f trial3 \<Rightarrow> bool" where
  "no_such (Reader_Lays c) x = (length (readers x) \<le> c)"
| "no_such (Reader_Sends c) x = (length (readers x) \<le> c)"
| "no_such (Reader_Loops c) x = (length (readers x) \<le> c)"
| "no_such (Message_Arrives k) x = (length (asked x) \<le> k)"
| "no_such (Reply_Arrives k) x = (length (inbox3 x) \<le> k)"
| "no_such (System_Event e) x = client_call e"

lemma no_such_event: "no_such e x \<Longrightarrow> exp3_event qd n sz now e x = Inr x"
  by (cases e) (simp_all add: exp3_event_def)

lemma exp3_event_load:
  assumes ok: "trial3_ok qd n sz x" and cfg: "bench_ok qd n" and n: "unat n \<le> 2147483647"
    and ev: "exp3_event qd n sz now e x = Inr y"
  shows "trial3_load qd n y + (if moved3 x y then 1 else 0) \<le> trial3_load qd n x"
proof (cases "no_such e x")
  case True
  then have "y = x" using ev by (simp add: no_such_event)
  then show ?thesis by (simp add: moved3_def)
next
  case False
  have less: ?thesis if "trial3_load qd n y < trial3_load qd n x" using that by simp
  show ?thesis
  proof (cases e)
    case (Reader_Lays c)
    obtain rc ms where l: "client3_lays n sz (readers x ! c) = (rc, ms)" by fastforce
    show ?thesis by (rule lays_load [OF _ l]) (use ev False l in \<open>simp_all add: Reader_Lays exp3_event_def\<close>)
  next
    case (Reader_Sends c)
    obtain rc ms where l: "client3_sends now n sz (readers x ! c) = (rc, ms)" by fastforce
    show ?thesis by (rule sends_load [OF ok cfg _ l]) (use ev False l in \<open>simp_all add: Reader_Sends exp3_event_def\<close>)
  next
    case (Reader_Loops c)
    show ?thesis by (rule loops_load [of c]) (use ev False in \<open>simp_all add: Reader_Loops\<close>)
  next
    case (Message_Arrives k)
    show ?thesis by (rule less, rule message_load [OF ok, of k]) (use ev False in \<open>simp_all add: Message_Arrives\<close>)
  next
    case (System_Event e3)
    show ?thesis by (rule servers_load [OF ok, of e3]) (use ev False in \<open>simp_all add: System_Event\<close>)
  next
    case (Reply_Arrives k)
    then have "y = x \<or> trial3_load qd n y < trial3_load qd n x" using reply_load [OF ok n, of k] ev False by simp
    then show ?thesis by (auto simp: moved3_def)
  qed
qed

section \<open>Runs\<close>

definition live3 :: "u32 \<Rightarrow> u64 \<Rightarrow> u32 \<Rightarrow> 'f trial3 \<Rightarrow> bool" where
  "live3 qd n sz x \<longleftrightarrow> trial3_ok qd n sz x \<and> waits_open (system3 x) \<and> buffers_ok sz (system3 x)"

lemma live3_event:
  assumes live: "live3 qd n sz x" and cfg: "bench_ok qd n" "unat n \<le> 2147483647" "unat sz < 2147483648"
    and fresh: "fresh_event e x" and keeps: "kernel_keeps sz e" and ev: "exp3_event qd n sz now e x = Inr y"
  shows "live3 qd n sz y"
proof -
  have ok: "trial3_ok qd n sz x" and w: "waits_open (system3 x)" and b: "buffers_ok sz (system3 x)"
    using live by (simp_all add: live3_def)
  note inv = trial3_okD(1) [OF ok]
  have "waits_open (system3 y) \<and> buffers_ok sz (system3 y)"
  proof (cases e)
    case (Message_Arrives k)
    show ?thesis
    proof (cases "k < length (asked x)")
      case True
      then obtain c m where st: "sys3_step (ask_event now c m) (system3 x) = Inr (system3 y)"
        using ev by (auto simp: Message_Arrives exp3_event_def system_does_def result_simps)
      have "kernel_keeps sz (System_Event (ask_event now c m))" by (cases m) simp_all
      with waits_open_ask [OF inv w st] buffers_step [OF inv b st] show ?thesis by blast
    qed (use ev w b in \<open>simp add: Message_Arrives exp3_event_def\<close>)
  next
    case (System_Event e3)
    show ?thesis
    proof (cases "client_call e3")
      case False
      then have st: "sys3_step e3 (system3 x) = Inr (system3 y)"
        using ev by (auto simp: System_Event exp3_event_def system_does_def result_simps)
      from waits_open_step [OF inv w st False] buffers_step [OF inv b st] keeps show ?thesis by (simp add: System_Event)
    qed (use ev w b in \<open>simp add: System_Event exp3_event_def\<close>)
  qed (use ev w b in \<open>auto simp: exp3_event_def Let_def result_simps split: if_splits prod.splits db_reply.splits\<close>)
  then show ?thesis using exp3_event_ok(1) [OF ok cfg fresh ev] by (simp add: live3_def)
qed


section \<open>Quiet states\<close>

definition can_move3 :: "u32 \<Rightarrow> u64 \<Rightarrow> u32 \<Rightarrow> 'f trial3 \<Rightarrow> bool" where
  "can_move3 qd n sz x \<longleftrightarrow>
     (\<exists>now e y. fresh_event e x \<and> kernel_keeps sz e \<and> exp3_event qd n sz now e x = Inr y \<and> moved3 x y)"

lemma can_move3I:
  "fresh_event e x \<Longrightarrow> kernel_keeps sz e \<Longrightarrow> exp3_event qd n sz now e x = Inr y \<Longrightarrow> moved3 x y \<Longrightarrow> can_move3 qd n sz x"
  unfolding can_move3_def by blast

text \<open>What the servers can always do.\<close>

lemma system_moves:
  assumes "\<not> client_call e" and "address_fresh e (system3 x)" and "kernel_keeps sz (System_Event e)"
    and "sys3_step e (system3 x) = Inr s" and "wires s \<noteq> wires (system3 x)"
  shows "can_move3 qd n sz x"
  by (rule can_move3I [of "System_Event e"]) (use assms in \<open>auto simp: exp3_event_def system_does_def moved3_def\<close>)

lemma leaf_call_total:
  "\<exists>env l'. new_addr env = a \<and> leaf_step (leaf_call env f q) l = Inr l'"
  by (intro exI [of _ "\<lparr>os_open = \<lambda>p fl g. (3, g), memalign = \<lambda>k. Some (replicate (unat k) 0), new_eventfd = 7,
      new_addr = a, old_result = 0, time_now = 0\<rparr>"])
    (cases q; simp add: leaf_step_def leaf_write_def leaf_read_def leaf_init_def AsyncIO_init_def IO_new_def allocBuffer_def Let_def)

lemma quiet_undelivered:
  assumes ok: "trial3_ok qd n sz x" and quiet: "\<not> can_move3 qd n sz x"
  shows "undelivered (system3 x) = []"
proof (rule ccontr)
  let ?s = "system3 x"
  assume ne: "undelivered ?s \<noteq> []"
  note inv = trial3_okD(1) [OF ok]
  let ?f = "undelivered ?s ! 0"
  obtain i q where q: "requests_made (db3 ?s) ! ?f = (i, q)" by fastforce
  have "?f < length (requests_made (db3 ?s))" by (rule undelivered_made [OF inv]) (use ne in simp)
  then have "(i, q) \<in> set (requests_made (db3 ?s))" using q by (metis nth_mem)
  then have i: "i < length (leafs3 ?s)" using sys3_invD(3,4) [OF inv] by fastforce
  have "finite (\<Union>l \<in> set (leafs3 ?s). io_addr ` set (inflight (asyncio l)))" by simp
  then obtain a where a: "a \<notin> (\<Union>l \<in> set (leafs3 ?s). io_addr ` set (inflight (asyncio l)))"
    using ex_new_if_finite infinite_UNIV_nat by blast
  from leaf_call_total [of a ?f q "leafs3 ?s ! i"] obtain env l' where
    env: "new_addr env = a" "leaf_step (leaf_call env ?f q) (leafs3 ?s ! i) = Inr l'" by blast
  let ?t = "?s\<lparr>undelivered := drop 1 (undelivered ?s), leafs3 := (leafs3 ?s)[i := l']\<rparr>"
  have "sys3_step (Call_Reaches_Leaf 0 env) ?s = Inr ?t"
    using ne q i env(2) by (simp add: sys3_step_def leaf_does_def Let_def)
  moreover have "wires ?t \<noteq> wires ?s" using ne by (cases "undelivered ?s") (auto simp: wires_def)
  ultimately have "can_move3 qd n sz x"
    by (intro system_moves [of "Call_Reaches_Leaf 0 env"]) (use a env(1) in auto)
  with quiet show False by simp
qed

lemma conts_run_cont: "conts (run_cont now io k l) = conts l"
  by (simp add: run_cont_def split: leaf_cont.split)

lemma quiet_conts:
  assumes ok: "trial3_ok qd n sz x" and quiet: "\<not> can_move3 qd n sz x" and i: "i < length (leafs3 (system3 x))"
  shows "conts (leafs3 (system3 x) ! i) = []"
proof (rule ccontr)
  let ?s = "system3 x" and ?l = "leafs3 (system3 x) ! i"
  assume ne: "conts ?l \<noteq> []"
  have lok: "leaf_ok ?l" using sys3_invD(3,6) [OF trial3_okD(1) [OF ok]] i by simp
  have "fst (hd (conts ?l)) \<in> io_addr ` set (inflight (asyncio ?l))"
    using leaf_ok_keys(2) [OF lok] ne by (metis hd_in_set imageI)
  then have mem: "fst (hd (conts ?l)) \<in> aio_pending (asyncio ?l, [])" by (simp add: aio_pending_def)
  let ?ev = "\<lparr>ev_data = fst (hd (conts ?l)), ev_res = 0, ev_res2 = 0, ev_buffer = replicate (unat sz) 0\<rparr>"
  have "aio_ok (asyncio ?l, [])" using lok by (simp add: leaf_ok_def)
  from complete_one_pending [OF this, of ?ev] mem obtain a where "complete_one ?ev (asyncio ?l, []) = Inr a" by auto
  then obtain l' where l': "leaf_complete 0 ?ev ?l = Inr l'"
    by (cases a; cases "map_of (conts ?l) (io_addr (last (snd a)))") (auto simp: leaf_complete_def Let_def)
  from leaf_complete_Inr [OF lok l'] have "fst (hd (conts ?l)) \<notin> fst ` set (conts l')"
    by (auto simp: conts_run_cont)
  then have ne': "conts l' \<noteq> conts ?l" using ne by auto
  let ?t = "?s\<lparr>leafs3 := (leafs3 ?s)[i := l']\<rparr>"
  have "sys3_step (Leaf_Kernel i 0 ?ev) ?s = Inr ?t"
    using i l' by (simp add: sys3_step_def leaf_does_def leaf_step_def)
  moreover have "map conts (leafs3 ?t) ! i \<noteq> map conts (leafs3 ?s) ! i" using i ne' by simp
  then have "wires ?t \<noteq> wires ?s" unfolding wires_def by fastforce
  ultimately have "can_move3 qd n sz x" by (intro system_moves [of "Leaf_Kernel i 0 ?ev"]) auto
  with quiet show False by simp
qed

lemma quiet_tasks:
  assumes live: "live3 qd n sz x" and quiet: "\<not> can_move3 qd n sz x" and sz: "unat sz < 2147483648"
    and i: "i < length (leafs3 (system3 x))"
  shows "tasks (leafs3 (system3 x) ! i) = []"
proof (rule ccontr)
  let ?s = "system3 x" and ?l = "leafs3 (system3 x) ! i"
  assume ne: "tasks ?l \<noteq> []"
  let ?t0 = "tasks ?l ! 0"
  have m: "?t0 \<in> set (tasks ?l)" "?l \<in> set (leafs3 ?s)" using ne i by simp_all
  have "sys3_sized sz ?s" using live trial3_okD(2) by (auto simp: live3_def)
  then have "task_size ?t0 = sz" using m by (simp add: sys3_sized_def leaf_sized_def)
  moreover have "unat sz \<le> length (task_buffer ?t0)" using live m by (auto simp: live3_def buffers_ok_def)
  ultimately obtain l' where l': "leaf_worker 0 0 ?l = Inr l'" "tasks l' = drop 1 (tasks ?l)"
    using ne by (auto simp: leaf_worker_def Let_def size_positive [OF sz])
  let ?t = "?s\<lparr>leafs3 := (leafs3 ?s)[i := l']\<rparr>"
  have "sys3_step (Leaf_Worker i 0 0) ?s = Inr ?t"
    using i l' by (simp add: sys3_step_def leaf_does_def leaf_step_def)
  moreover have "length (map tasks (leafs3 ?t) ! i) \<noteq> length (map tasks (leafs3 ?s) ! i)" using i l'(2) ne by (cases "tasks ?l") simp_all
  then have "wires ?t \<noteq> wires ?s" unfolding wires_def by fastforce
  ultimately have "can_move3 qd n sz x" by (intro system_moves [of "Leaf_Worker i 0 0"]) auto
  with quiet show False by simp
qed

text \<open>So every call has been answered, or has failed, and nothing waits for it.\<close>

lemma quiet_settled:
  assumes live: "live3 qd n sz x" and quiet: "\<not> can_move3 qd n sz x" and sz: "unat sz < 2147483648"
    and f: "f < length (requests_made (db3 (system3 x)))"
  shows "f \<in> settled (system3 x)"
proof (rule ccontr)
  let ?s = "system3 x"
  assume open_f: "f \<notin> settled ?s"
  have ok: "trial3_ok qd n sz x" using live by (simp add: live3_def)
  have "f \<in># mset (undelivered ?s) + sum_list (map accounted (leafs3 ?s))"
    using sys3_invD(10) [OF trial3_okD(1) [OF ok]] f by simp
  then obtain l where "l \<in> set (leafs3 ?s)" "f \<in># accounted l"
    using quiet_undelivered [OF ok quiet] by (auto simp: set_mset_sum_list)
  then obtain i where i: "i < length (leafs3 ?s)" "f \<in># accounted (leafs3 ?s ! i)" by (metis in_set_conv_nth)
  then have "f \<in> reply_cb ` set (replies (leafs3 ?s ! i))"
    using quiet_conts [OF ok quiet i(1)] quiet_tasks [OF live quiet sz i(1)] by (simp add: accounted_def)
  then obtain k where k: "k < length (replies (leafs3 ?s ! i))" "reply_cb (replies (leafs3 ?s ! i) ! k) = f"
    by (metis image_iff in_set_conv_nth)
  let ?t = "?s\<lparr>db3 := resolve 0 f (reply_result (replies (leafs3 ?s ! i) ! k)) (db3 ?s), returned := returned ?s @ [f]\<rparr>"
  have "sys3_step (Leaf_Returns i k 0) ?s = Inr ?t" using i(1) k open_f by (simp add: sys3_step_def Let_def)
  moreover have "wires ?t \<noteq> wires ?s" by (simp add: wires_def)
  ultimately have "can_move3 qd n sz x" by (intro system_moves [of "Leaf_Returns i k 0"]) auto
  with quiet show False by simp
qed

lemma quiet_waiting:
  assumes live: "live3 qd n sz x" and quiet: "\<not> can_move3 qd n sz x" and sz: "unat sz < 2147483648"
  shows "waiting (db3 (system3 x)) = []"
proof (rule ccontr)
  assume "waiting (db3 (system3 x)) \<noteq> []"
  then obtain w where w: "w \<in> set (waiting (db3 (system3 x)))" by (meson hd_in_set)
  then have "open_wait (length (requests_made (db3 (system3 x)))) (settled (system3 x)) w"
    using live by (simp add: live3_def waits_open_def)
  then show False using quiet_settled [OF live quiet sz] by (cases w) (auto simp: neq_Nil_conv)
qed


section \<open>Clients in quiet states\<close>

lemma quiet_asked:
  assumes ok: "trial3_ok qd n sz x" and quiet: "\<not> can_move3 qd n sz x" and sz: "unat sz < 2147483648"
  shows "asked x = []"
proof (rule ccontr)
  assume ne: "asked x \<noteq> []"
  from message_arrives_ok [OF ok sz, of 0 0] ne obtain y where
    y: "exp3_event qd n sz 0 (Message_Arrives 0) x = Inr y" by (auto simp: exp3_event_def)
  then have "asked y = drop 1 (asked x)" using ne by (auto simp: exp3_event_def system_does_def result_simps)
  then have "moved3 x y" using ne by (cases "asked x") (auto simp: moved3_def)
  with quiet can_move3I [OF _ _ y] show False by simp
qed

lemma quiet_inbox:
  assumes ok: "trial3_ok qd n sz x" and quiet: "\<not> can_move3 qd n sz x" and n: "unat n \<le> 2147483647"
    and a: "a \<in> set (inbox3 x)"
  shows "\<exists>c r. a = DB_Data c r \<and> pc (reader (readers x ! c)) \<noteq> Polling"
proof (rule ccontr)
  assume no: "\<not> ?thesis"
  obtain k where k: "k < length (inbox3 x)" "inbox3 x ! k = a" using a by (metis in_set_conv_nth)
  have "\<exists>rs. exp3_event qd n sz 0 (Reply_Arrives k) x =
      Inr (x\<lparr>inbox3 := take k (inbox3 x) @ drop (Suc k) (inbox3 x), readers := rs\<rparr>)"
  proof (cases a)
    case (DB_Done c)
    from reader_acked_ok [OF ok n k(1), of c] k DB_Done show ?thesis by (auto simp: exp3_event_def Let_def)
  next
    case (DB_Data c r)
    then have pc: "pc (reader (readers x ! c)) = Polling" using no by simp
    have "Inr (c, db_request_id r) \<in># items3 x" using a DB_Data by (force simp: items3_def)
    from item_pending(1) [OF ok this] have "c < length (readers x)" by simp
    with reader_receives_ok [OF ok k(1) _ pc, of r 0] k DB_Data pc show ?thesis by (auto simp: exp3_event_def Let_def)
  qed
  then obtain y where y: "exp3_event qd n sz 0 (Reply_Arrives k) x = Inr y" "length (inbox3 y) \<noteq> length (inbox3 x)"
    using k(1) by fastforce
  then have "moved3 x y" by (auto simp: moved3_def)
  with quiet can_move3I [OF _ _ y(1)] show False by simp
qed

text \<open>So no client waits for a write, and all files are laid down.\<close>

lemma quiet_items:
  assumes live: "live3 qd n sz x" and quiet: "\<not> can_move3 qd n sz x"
    and n: "unat n \<le> 2147483647" and sz: "unat sz < 2147483648"
  shows "items3 x = image_mset answer_item (mset (inbox3 x))" and "Inl c \<notin># items3 x"
    and "pc (reader (readers x ! c)) = Polling \<Longrightarrow> Inr (c, i) \<notin># items3 x"
proof -
  have ok: "trial3_ok qd n sz x" using live by (simp add: live3_def)
  show it: "items3 x = image_mset answer_item (mset (inbox3 x))"
    using quiet_asked [OF ok quiet sz] quiet_waiting [OF live quiet sz] by (simp add: items3_def waits_def)
  show "Inl c \<notin># items3 x" using quiet_inbox [OF ok quiet n] by (force simp: it)
  show "Inr (c, i) \<notin># items3 x" if "pc (reader (readers x ! c)) = Polling"
    using quiet_inbox [OF ok quiet n] that by (force simp: it)
qed

lemma quiet_laid:
  assumes live: "live3 qd n sz x" and quiet: "\<not> can_move3 qd n sz x"
    and n: "unat n \<le> 2147483647" and sz: "unat sz < 2147483648" and c: "c < length (readers x)"
  shows "laid (readers x ! c) = unat n"
proof (rule ccontr)
  assume ne: "laid (readers x ! c) \<noteq> unat n"
  have ok: "trial3_ok qd n sz x" using live by (simp add: live3_def)
  have lt: "laid (readers x ! c) < unat n" using trial3_okD(3) [OF ok] c ne by (auto simp: reader_ok_def le_less)
  have "\<not> acking (readers x ! c)"
  proof
    assume "acking (readers x ! c)"
    then have "Inl c \<in> pending3 (readers x)" using c by (simp add: pending3_def)
    then have "Inl c \<in># mset_set (pending3 (readers x))" using finite_pending3 [OF trial3_okD(3) [OF ok]] by simp
    moreover have "Inl c \<notin># mset_set (pending3 (readers x)) - items3 x"
      using trial3_okD(7) [OF ok] by (simp add: lost_ok_def lost3_def)
    ultimately show False using quiet_items(2) [OF live quiet n sz, of c] by (simp add: in_diff_count not_in_iff)
  qed
  with lt c have "exp3_event qd n sz 0 (Reader_Lays c) x = Inr (x\<lparr>readers := (readers x)[c := (readers x ! c)\<lparr>acking := True\<rparr>],
      asked := asked x @ [(c, Ask_Write (decimal (laid (readers x ! c))) (replicate (unat sz) 65))]\<rparr>)"
    by (simp add: exp3_event_def client3_lays_def)
  from can_move3I [OF _ _ this] quiet show False by (simp add: moved3_def)
qed

lemma quiet_sending:
  assumes live: "live3 qd n sz x" and quiet: "\<not> can_move3 qd n sz x"
    and n: "unat n \<le> 2147483647" and sz: "unat sz < 2147483648" and c: "c < length (readers x)"
    and pc: "pc (reader (readers x ! c)) = Sending i"
  shows "unat (req_tosend (bench (reader (readers x ! c)))) \<le> i"
proof (rule ccontr)
  let ?cl = "reader (readers x ! c)"
  assume "\<not> unat (req_tosend (bench ?cl)) \<le> i"
  then have "exp3_event qd n sz 0 (Reader_Sends c) x = Inr (x\<lparr>readers := (readers x)[c := (readers x ! c)\<lparr>reader := client_sends 0 ?cl\<rparr>],
      asked := asked x @ [(c, Ask_Read (req_id (bench ?cl)) (decimal i) sz)]\<rparr>)"
    using c pc quiet_laid [OF live quiet n sz c] by (simp add: exp3_event_def client3_sends_def)
  from can_move3I [OF _ _ this] quiet show False by (simp add: moved3_def)
qed

text \<open>The reads of a client of which nothing is under way although it waits for them.\<close>

definition lost_reads :: "nat \<Rightarrow> 'f trial3 \<Rightarrow> u64 set" where
  "lost_reads c x = {i \<in> in_time (bench (reader (readers x ! c))). Inr (c, i) \<notin># items3 x}"

lemma lost_reads_failed:
  assumes ok: "trial3_ok qd n sz x" and c: "c < length (readers x)" and l: "lost_reads c x \<noteq> {}"
  shows "failed3 (system3 x) \<noteq> []"
proof
  assume none: "failed3 (system3 x) = []"
  obtain i where i: "i \<in> in_time (bench (reader (readers x ! c)))" "Inr (c, i) \<notin># items3 x"
    using l by (auto simp: lost_reads_def)
  then have "Inr (c, i) \<in># mset_set (pending3 (readers x))"
    using c finite_pending3 [OF trial3_okD(3) [OF ok]] by (simp add: pending3_def)
  with i(2) have "Inr (c, i) \<in># lost3 x" by (simp add: lost3_def in_diff_count not_in_iff)
  with trial3_okD(7) [OF ok] none show False by (simp add: lost_ok_def)
qed

lemma quiet_polling3:
  assumes live: "live3 qd n sz x" and quiet: "\<not> can_move3 qd n sz x"
    and n: "unat n \<le> 2147483647" and sz: "unat sz < 2147483648" and c: "c < length (readers x)"
    and pc: "pc (reader (readers x ! c)) = Polling"
  shows "unat (req_out (bench (reader (readers x ! c)))) = card (lost_reads c x)"
proof -
  have "lost_reads c x = in_time (bench (reader (readers x ! c)))"
    using quiet_items(3) [OF live quiet n sz pc] by (simp add: lost_reads_def)
  moreover have "trial3_ok qd n sz x" using live by (simp add: live3_def)
  then have "reader_ok qd n (readers x ! c)" using trial3_okD(3) c by fastforce
  ultimately show ?thesis using reader_counters(3) by simp
qed


section \<open>Fair runs end\<close>

definition exp3_run :: "u32 \<Rightarrow> u64 \<Rightarrow> u32 \<Rightarrow> (nat \<Rightarrow> int \<times> 'f exp3_event) \<Rightarrow> (nat \<Rightarrow> 'f trial3) \<Rightarrow> bool" where
  "exp3_run qd n sz ev x \<longleftrightarrow>
     (\<forall>m. fresh_event (snd (ev m)) (x m) \<and> kernel_keeps sz (snd (ev m)) \<and>
        exp3_event qd n sz (fst (ev m)) (snd (ev m)) (x m) = Inr (x (Suc m)))"

definition fair3 :: "u32 \<Rightarrow> u64 \<Rightarrow> u32 \<Rightarrow> (nat \<Rightarrow> int \<times> 'f exp3_event) \<Rightarrow> (nat \<Rightarrow> 'f trial3) \<Rightarrow> bool" where
  "fair3 qd n sz ev x \<longleftrightarrow>
     (\<forall>c < length (readers (x 0)). \<forall>m. \<exists>k \<ge> m. snd (ev k) = Reader_Sends c) \<and>
     (\<forall>c < length (readers (x 0)). \<forall>m. \<exists>k \<ge> m. snd (ev k) = Reader_Loops c) \<and>
     ((\<forall>m. \<exists>k \<ge> m. can_move3 qd n sz (x k)) \<longrightarrow> (\<forall>m. \<exists>k \<ge> m. moved3 (x k) (x (Suc k))))"

lemma exp3_runD:
  assumes "exp3_run qd n sz ev x"
  shows "fresh_event (snd (ev m)) (x m)" and "kernel_keeps sz (snd (ev m))"
    and "exp3_event qd n sz (fst (ev m)) (snd (ev m)) (x m) = Inr (x (Suc m))"
  using assms by (simp_all add: exp3_run_def)

lemma fair3D:
  assumes "fair3 qd n sz ev x"
  shows "c < length (readers (x 0)) \<Longrightarrow> \<exists>k \<ge> m. snd (ev k) = Reader_Sends c"
    and "c < length (readers (x 0)) \<Longrightarrow> \<exists>k \<ge> m. snd (ev k) = Reader_Loops c"
    and "\<forall>m. \<exists>k \<ge> m. can_move3 qd n sz (x k) \<Longrightarrow> \<exists>k \<ge> m. moved3 (x k) (x (Suc k))"
  using assms unfolding fair3_def by blast+

lemma run_live:
  assumes live: "live3 qd n sz (x 0)" and cfg: "bench_ok qd n" "unat n \<le> 2147483647" "unat sz < 2147483648"
    and run: "exp3_run qd n sz ev x"
  shows "live3 qd n sz (x m) \<and> length (readers (x m)) = length (readers (x 0))"
proof (induction m)
  case (Suc m)
  note r = exp3_runD [OF run, of m]
  have "exp3_reach qd n sz (x m) (x (Suc m))" by (rule exp3_reach.step [OF exp3_reach.start r(1,3)])
  from exp3_reach_length [OF this] live3_event [OF conjunct1 [OF Suc.IH] cfg r] Suc.IH show ?case by simp
qed (use live in simp)

text \<open>Since every move takes from the load, nothing can move any more from some moment on.\<close>

lemma run_quiet:
  assumes live: "live3 qd n sz (x 0)" and cfg: "bench_ok qd n" "unat n \<le> 2147483647" "unat sz < 2147483648"
    and run: "exp3_run qd n sz ev x" and fair: "fair3 qd n sz ev x"
  shows "\<exists>M. \<forall>k \<ge> M. \<not> can_move3 qd n sz (x k)"
proof -
  have load: "trial3_load qd n (x (Suc m)) + (if moved3 (x m) (x (Suc m)) then 1 else 0) \<le> trial3_load qd n (x m)" for m
  proof (rule exp3_event_load [OF _ cfg(1,2) exp3_runD(3) [OF run]])
    show "trial3_ok qd n sz (x m)" using run_live [OF live cfg run, of m] by (simp add: live3_def)
  qed
  obtain M where M: "\<forall>k \<ge> M. trial3_load qd n (x (Suc k)) = trial3_load qd n (x k)"
    using eventually_constant [of "\<lambda>m. trial3_load qd n (x m)"] load add_leD1 by blast
  have "\<not> moved3 (x k) (x (Suc k))" if "M \<le> k" for k
    using M that load [of k] by (auto split: if_splits)
  then show ?thesis using fair3D(3) [OF fair, of M] by blast
qed

text \<open>What a step does to one client.\<close>

lemma step3_own:
  assumes "exp3_event qd n sz now e x = Inr y" and "c < length (readers x)"
  shows "e = Reader_Sends c \<Longrightarrow> readers y ! c = fst (client3_sends now n sz (readers x ! c))"
    and "e = Reader_Loops c \<Longrightarrow> readers y ! c = (readers x ! c)\<lparr>reader := client_loops qd n (reader (readers x ! c))\<rparr>"
  using assms by (auto simp: exp3_event_def Let_def split: prod.splits)

text \<open>Every event updates at most one client: the one it names or the one whose answer it delivers.\<close>

lemma reply_taken:
  assumes "k < length (inbox3 x)" and "exp3_event qd n sz now (Reply_Arrives k) x = Inr y" and "y \<noteq> x"
  shows "length (inbox3 y) < length (inbox3 x)"
  using assms by (cases "inbox3 x ! k") (auto simp: exp3_event_def Let_def result_simps split: if_splits)

lemma step3_client:
  assumes ev: "exp3_event qd n sz now e x = Inr y" and c: "c < length (readers x)"
  shows "readers y ! c = readers x ! c \<or> readers y ! c = fst (client3_lays n sz (readers x ! c)) \<or>
    readers y ! c = fst (client3_sends now n sz (readers x ! c)) \<or>
    e = Reader_Loops c \<and> readers y ! c = (readers x ! c)\<lparr>reader := client_loops qd n (reader (readers x ! c))\<rparr> \<or>
    length (inbox3 y) \<noteq> length (inbox3 x)"
proof (cases "no_such e x \<or> y = x")
  case False
  show ?thesis
  proof (cases e)
    case (Reader_Lays d)
    then show ?thesis using ev by (cases "d = c") (auto simp: exp3_event_def split: if_splits prod.splits)
  next
    case (Reader_Sends d)
    then show ?thesis using ev by (cases "d = c") (auto simp: exp3_event_def split: if_splits prod.splits)
  next
    case (Reader_Loops d)
    then show ?thesis using ev c by (cases "d = c") (auto simp: exp3_event_def Let_def split: if_splits)
  next
    case (Reply_Arrives k)
    then have k: "k < length (inbox3 x)" using False by simp
    have "length (inbox3 y) < length (inbox3 x)"
      by (rule reply_taken [OF k ev [unfolded Reply_Arrives]]) (use False in simp)
    then show ?thesis by simp
  next
    case (Message_Arrives k)
    then have "readers y = readers x" using ev by (auto simp: exp3_event_def system_does_def result_simps split: if_splits)
    then show ?thesis by simp
  next
    case (System_Event e3)
    then have "readers y = readers x" using ev by (auto simp: exp3_event_def system_does_def result_simps split: if_splits)
    then show ?thesis by simp
  qed
qed (use ev in \<open>auto simp: no_such_event\<close>)

text \<open>
  Once nothing can move, a client that polls polls until its next turn of the loop, one that has finished stays so, and
  the reads it waits for without anything of them being under way remain the same.
\<close>

lemma quiet_step:
  assumes live: "live3 qd n sz x" "live3 qd n sz y" and quiet: "\<not> can_move3 qd n sz x" "\<not> can_move3 qd n sz y"
    and n: "unat n \<le> 2147483647" and sz: "unat sz < 2147483648" and c: "c < length (readers x)"
    and fresh: "fresh_event e x" and keeps: "kernel_keeps sz e" and ev: "exp3_event qd n sz now e x = Inr y"
  shows "pc (reader (readers x ! c)) = Finished \<Longrightarrow> pc (reader (readers y ! c)) = Finished"
    and "pc (reader (readers x ! c)) = Polling \<Longrightarrow> e \<noteq> Reader_Loops c \<Longrightarrow> pc (reader (readers y ! c)) = Polling"
    and "lost_reads c y = lost_reads c x"
proof -
  let ?r = "reader (readers x ! c)" and ?s = "reader (readers y ! c)"
  have "\<not> moved3 x y" using quiet(1) can_move3I [OF fresh keeps ev] by blast
  then have inbox: "inbox3 y = inbox3 x" by (simp add: moved3_def)
  have s: "?s = ?r \<or> ?s = client_sends now ?r \<or> e = Reader_Loops c \<and> ?s = client_loops qd n ?r"
    using step3_client [OF ev c] inbox by (auto simp: client3_lays_def client3_sends_def split: if_splits)
  have "in_time (bench (client_sends now ?r)) = in_time (bench ?r)"
    using quiet_sending [OF live(1) quiet(1) n sz c] by (cases "pc ?r") (auto simp: client_sends_def not_less)
  moreover have "in_time (bench (client_loops qd n ?r)) = in_time (bench ?r)"
    by (simp add: client_loops_def Let_def next_tosend_frame split: client_pc.splits)
  moreover have "items3 y = items3 x"
    by (simp add: quiet_items(1) [OF live(1) quiet(1) n sz] quiet_items(1) [OF live(2) quiet(2) n sz] inbox)
  ultimately show "lost_reads c y = lost_reads c x" using s by (auto simp: lost_reads_def)
  show "pc ?r = Finished \<Longrightarrow> pc ?s = Finished" "pc ?r = Polling \<Longrightarrow> e \<noteq> Reader_Loops c \<Longrightarrow> pc ?s = Polling"
    using s by (auto simp: client_sends_def client_loops_def)
qed

definition settled_reader :: "u32 \<Rightarrow> nat \<Rightarrow> 'f trial3 \<Rightarrow> bool" where
  "settled_reader qd c x \<longleftrightarrow> pc (reader (readers x ! c)) = Finished \<or> unat qd \<le> card (lost_reads c x)"

lemma quiet_run_step:
  assumes live: "live3 qd n sz (x 0)" and cfg: "bench_ok qd n" "unat n \<le> 2147483647" "unat sz < 2147483648"
    and run: "exp3_run qd n sz ev x" and c: "c < length (readers (x 0))"
    and all_quiet: "\<forall>k \<ge> M. \<not> can_move3 qd n sz (x k)" and k: "M \<le> k"
  shows "settled_reader qd c (x k) \<Longrightarrow> k \<le> m \<Longrightarrow> settled_reader qd c (x m)"
    and "pc (reader (readers (x k) ! c)) = Polling \<Longrightarrow> k \<le> m \<Longrightarrow> (\<And>j. k \<le> j \<Longrightarrow> j < m \<Longrightarrow> snd (ev j) \<noteq> Reader_Loops c) \<Longrightarrow>
      pc (reader (readers (x m) ! c)) = Polling"
proof -
  have at: "live3 qd n sz (x k)" "c < length (readers (x k))" for k using run_live [OF live cfg run, of k] c by simp_all
  have quiet: "\<not> can_move3 qd n sz (x k)" if "M \<le> k" for k using all_quiet that by blast
  show "settled_reader qd c (x m)" if "settled_reader qd c (x k)" "k \<le> m"
    using that(2)
  proof (induction m rule: dec_induct)
    case (step m)
    then show ?case using k quiet_step(1,3) [OF at(1) at(1) quiet quiet cfg(2,3) at(2) exp3_runD(1,2,3) [OF run], of m]
      by (auto simp: settled_reader_def)
  qed (rule that(1))
  show "pc (reader (readers (x m) ! c)) = Polling"
    if "pc (reader (readers (x k) ! c)) = Polling" "k \<le> m" "\<And>j. k \<le> j \<Longrightarrow> j < m \<Longrightarrow> snd (ev j) \<noteq> Reader_Loops c"
    using that(2,3)
  proof (induction m rule: dec_induct)
    case (step m)
    then show ?case using k quiet_step(2) [OF at(1) at(1) quiet quiet cfg(2,3) at(2) exp3_runD(1,2,3) [OF run], of m] by simp
  qed (rule that(1))
qed

lemma fair3_client:
  assumes live: "live3 qd n sz (x 0)" and cfg: "bench_ok qd n" "unat n \<le> 2147483647" "unat sz < 2147483648"
    and run: "exp3_run qd n sz ev x" and fair: "fair3 qd n sz ev x" and c: "c < length (readers (x 0))"
    and all_quiet: "\<forall>k \<ge> M. \<not> can_move3 qd n sz (x k)"
  shows "\<exists>m. \<forall>k \<ge> m. settled_reader qd c (x k)"
proof (rule ccontr)
  assume no: "\<not> ?thesis"
  have at: "live3 qd n sz (x k)" "c < length (readers (x k))" for k using run_live [OF live cfg run, of k] c by simp_all
  have quiet: "\<not> can_move3 qd n sz (x k)" if "M \<le> k" for k using all_quiet that by blast
  note on = quiet_run_step [OF live cfg run c all_quiet]
  have "\<not> settled_reader qd c (x k)" if "M \<le> k" for k using no on(1) [OF that] by blast
  then have open_c: "pc (reader (readers (x k) ! c)) \<noteq> Finished" "card (lost_reads c (x k)) < unat qd" if "M \<le> k" for k
    using that by (auto simp: settled_reader_def not_le)
  obtain k where k: "M \<le> k" "snd (ev k) = Reader_Sends c" using fair3D(1) [OF fair c] by blast
  note q = quiet [OF k(1)]
  have poll: "pc (reader (readers (x (Suc k)) ! c)) = Polling"
    using step3_own(1) [OF exp3_runD(3) [OF run] at(2) k(2)] quiet_laid [OF at(1) q cfg(2,3) at(2)]
      quiet_sending [OF at(1) q cfg(2,3) at(2)] open_c(1) [OF k(1)]
    by (auto simp: client3_sends_def client_sends_def split: client_pc.splits)
  obtain l where "Suc k \<le> l \<and> snd (ev l) = Reader_Loops c" using fair3D(2) [OF fair c] by blast
  then obtain m where m: "Suc k \<le> m" "snd (ev m) = Reader_Loops c" "\<And>j. j < m \<Longrightarrow> \<not> (Suc k \<le> j \<and> snd (ev j) = Reader_Loops c)"
    using exists_least_iff [of "\<lambda>l. Suc k \<le> l \<and> snd (ev l) = Reader_Loops c"] by blast
  have pm: "pc (reader (readers (x m) ! c)) = Polling"
    by (rule on(2) [OF _ poll m(1)]) (use k(1) m(3) in auto)
  let ?b = "bench (reader (readers (x m) ! c))"
  have qm: "M \<le> m" "M \<le> Suc m" using k(1) m(1) by simp_all
  have free: "unat (req_out ?b) < unat qd"
    using quiet_polling3 [OF at(1) quiet [OF qm(1)] cfg(2,3) at(2) pm] open_c(2) [OF qm(1)] by simp
  have after: "reader (readers (x (Suc m)) ! c) = client_loops qd n (reader (readers (x m) ! c))"
    using step3_own(2) [OF exp3_runD(3) [OF run] at(2) m(2)] by simp
  then have todo: "req_complete ?b < n" and next_pc: "pc (reader (readers (x (Suc m)) ! c)) = Sending 0"
    and next_b: "bench (reader (readers (x (Suc m)) ! c)) = next_tosend qd n ?b"
    using pm open_c(1) [OF qm(2)] next_tosend_frame [of qd n ?b] by (auto simp: client_loops_def Let_def split: if_splits)
  have "1 \<le> unat (req_tosend (next_tosend qd n ?b))"
    by (rule next_tosend_positive [OF cfg(1) free]) (use todo in \<open>simp add: word_less_nat_alt\<close>)
  with quiet_sending [OF at(1) quiet [OF qm(2)] cfg(2,3) at(2) next_pc] show False by (simp add: next_b)
qed

lemma exp3_start_live:
  assumes "addrs \<noteq> []" and "length addrs < 4294967296" and "length lfs = length addrs" and "fresh_leafs lfs"
    and "bench_ok qd n"
  shows "live3 qd n sz (exp3_start qd n nt (map (\<lambda>(ip, port). Leaf_new ip port) addrs) lfs)"
proof -
  have "tasks l = []" if "l \<in> set lfs" for l
    using that assms(4) by (force simp: fresh_leafs_def LeafHandler_new_def AsyncIO_new_def result_simps)
  then show ?thesis
    using exp3_start_ok [OF assms]
    by (simp add: live3_def exp3_start_def sys3_start_def DBHandler_new_def waits_open_def buffers_ok_def settled_def)
qed

text \<open>
  C13. The read experiment ends in every fair run: if the threads of all clients go on, and messages, calls, IOs, replies and
  answers that can be moved again and again are moved again and again, then from some moment on every client has finished, or
  it has lost, with failed calls, as many reads as its queue depth, which is when it can never finish. In a run
  without failed calls every client finishes.
\<close>

theorem exp3_fair_runs_end:
  assumes "addrs \<noteq> []" and "length addrs < 4294967296" and "length lfs = length addrs" and "fresh_leafs lfs"
    and "1 \<le> unat qd" and "unat qd \<le> 2147483647" and "unat n \<le> 2147483647" and "unat sz < 2147483648"
    and "x 0 = exp3_start qd n nt (map (\<lambda>(ip, port). Leaf_new ip port) addrs) lfs"
    and "exp3_run qd n sz ev x" and "fair3 qd n sz ev x"
  shows "\<exists>M. \<forall>m \<ge> M. \<forall>c < nt.
    pc (reader (readers (x m) ! c)) = Finished \<or>
    unat qd \<le> card (lost_reads c (x m)) \<and> failed3 (system3 (x m)) \<noteq> []"
proof -
  have cfg: "bench_ok qd n" using assms(5-7) by (simp add: bench_ok_def)
  have live: "live3 qd n sz (x 0)" unfolding assms(9) by (rule exp3_start_live [OF assms(1-4) cfg])
  have len: "length (readers (x 0)) = nt" by (simp add: assms(9) exp3_start_def)
  obtain Q where quiet: "\<forall>k \<ge> Q. \<not> can_move3 qd n sz (x k)"
    using run_quiet [OF live cfg assms(7,8,10,11)] by blast
  have "\<forall>c < nt. \<exists>m. \<forall>k \<ge> m. settled_reader qd c (x k)"
    using fair3_client [OF live cfg assms(7,8,10,11) _ quiet] by (simp add: len)
  then obtain f where f: "\<And>c k. c < nt \<Longrightarrow> f c \<le> k \<Longrightarrow> settled_reader qd c (x k)" by metis
  have sum: "f c \<le> sum f {..<nt}" if "c < nt" for c using that by (intro member_le_sum) auto
  have "pc (reader (readers (x m) ! c)) = Finished \<or>
      unat qd \<le> card (lost_reads c (x m)) \<and> failed3 (system3 (x m)) \<noteq> []" if "sum f {..<nt} \<le> m" "c < nt" for m c
  proof -
    have at: "trial3_ok qd n sz (x m)" "c < length (readers (x m))"
      using run_live [OF live cfg assms(7,8,10), of m] that(2) by (simp_all add: live3_def len)
    have "card (lost_reads c (x m)) = 0 \<or> failed3 (system3 (x m)) \<noteq> []"
      using lost_reads_failed [OF at] by auto
    with f [OF that(2) le_trans [OF sum [OF that(2)] that(1)]] assms(5) show ?thesis
      by (auto simp: settled_reader_def)
  qed
  then show ?thesis by blast
qed

section \<open>A fair run\<close>

text \<open>One file laid down and read; after that the client's thread goes on for ever.\<close>

definition reads_schedule :: "nat \<Rightarrow> int \<times> (string \<Rightarrow> bytes option) exp3_event" where
  "reads_schedule m =
     (if m < length demo_reads then demo_reads ! m else (0, if even m then Reader_Sends 0 else Reader_Loops 0))"

primrec reads_state :: "nat \<Rightarrow> (string \<Rightarrow> bytes option) trial3" where
  "reads_state 0 = exp3_start 1 1 1 [Leaf_new ''a'' 1] [demo3_leaf]"
| "reads_state (Suc m) =
     (case exp3_event 1 1 2 (fst (reads_schedule m)) (snd (reads_schedule m)) (reads_state m) of
        Inl z \<Rightarrow> reads_state m
      | Inr y \<Rightarrow> y)"

lemma run3_states:
  assumes "run3 qd n sz es (x 0) = Some y"
    and "\<And>m. m < length es \<Longrightarrow> x (Suc m) = (case exp3_event qd n sz (fst (es ! m)) (snd (es ! m)) (x m) of Inl z \<Rightarrow> x m | Inr u \<Rightarrow> u)"
  shows "x (length es) = y \<and> (\<forall>m < length es. fresh_event (snd (es ! m)) (x m) \<and>
    exp3_event qd n sz (fst (es ! m)) (snd (es ! m)) (x m) = Inr (x (Suc m)))"
  using assms
proof (induction es arbitrary: x)
  case (Cons e es)
  have e: "fresh_event (snd e) (x 0)" "exp3_event qd n sz (fst e) (snd e) (x 0) = Inr (x 1)" "run3 qd n sz es (x 1) = Some y"
    using Cons.prems(1) Cons.prems(2) [of 0] by (cases e; auto split: if_splits sum.splits)+
  from Cons.IH [of "\<lambda>m. x (Suc m)"] e(3) Cons.prems(2) [of "Suc _"] e(1,2) show ?case
    by (auto simp: nth_Cons split: nat.splits)
qed simp

lemma rest_step:
  assumes "undelivered s = []" and "leafs3 s = [l]" and "conts l = []" and "tasks l = []"
    and "\<forall>q \<in> set (replies l). reply_cb q \<in> settled s" and "\<forall>f < length (requests_made (db3 s)). f \<in> settled s"
    and st: "sys3_step e s = Inr u" and e: "\<not> client_call e"
  shows "wires u = wires s \<and> db_replies (db3 u) = db_replies (db3 s)"
proof (cases e)
  case (Leaf_Kernel i now ev)
  then show ?thesis
    using st assms(1-4) by (auto simp: sys3_step_def leaf_does_def leaf_step_def leaf_complete_def wires_def Let_def
        result_simps less_Suc_eq split: if_splits prod.splits)
next
  case (Leaf_Worker i k cpu)
  then show ?thesis
    using st assms(1-4) by (auto simp: sys3_step_def leaf_does_def leaf_step_def leaf_worker_def wires_def Let_def
        result_simps less_Suc_eq split: if_splits)
qed (use st e assms in \<open>auto simp: sys3_step_def wires_def Let_def leaf_closed_def less_Suc_eq split: if_splits\<close>)

lemma at_rest3:
  assumes "readers x = [rc]" and "pc (reader rc) = Finished" and "laid rc = 1" and "asked x = []" and "inbox3 x = []"
    and "undelivered (system3 x) = []" and "leafs3 (system3 x) = [l]" and "conts l = []" and "tasks l = []"
    and "\<forall>q \<in> set (replies l). reply_cb q \<in> settled (system3 x)"
    and "\<forall>f < length (requests_made (db3 (system3 x))). f \<in> settled (system3 x)"
  shows "\<not> can_move3 qd 1 sz x" and "exp3_event qd 1 sz 0 (Reader_Sends 0) x = Inr x"
    and "exp3_event qd 1 sz 0 (Reader_Loops 0) x = Inr x"
proof -
  have "\<not> moved3 x y" if ev: "exp3_event qd 1 sz t e x = Inr y" for t e y
  proof (cases e)
    case (System_Event e3)
    show ?thesis
    proof (cases "client_call e3")
      case False
      then obtain u where st: "sys3_step e3 (system3 x) = Inr u" and y: "y = x\<lparr>system3 := u,
          inbox3 := inbox3 x @ drop (length (db_replies (db3 (system3 x)))) (db_replies (db3 u))\<rparr>"
        using ev by (auto simp: System_Event exp3_event_def system_does_def result_simps)
      have "wires u = wires (system3 x) \<and> db_replies (db3 u) = db_replies (db3 (system3 x))"
        by (rule rest_step [OF assms(6-11) st False])
      with y show ?thesis by (simp add: moved3_def)
    qed (use ev in \<open>simp add: System_Event exp3_event_def moved3_def\<close>)
  qed (use ev assms in \<open>auto simp: exp3_event_def moved3_def less_Suc_eq client3_lays_def client3_sends_def Let_def\<close>)
  then show "\<not> can_move3 qd 1 sz x" by (auto simp: can_move3_def)
  show "exp3_event qd 1 sz 0 (Reader_Sends 0) x = Inr x" "exp3_event qd 1 sz 0 (Reader_Loops 0) x = Inr x"
    using assms by (simp_all add: exp3_event_def client3_sends_def client_sends_def client_loops_def Let_def)
qed

lemma demo_reads_rest:
  "case run3 1 1 2 demo_reads (exp3_start 1 1 1 [Leaf_new ''a'' 1] [demo3_leaf]) of
     None \<Rightarrow> False
   | Some x \<Rightarrow> map (\<lambda>rc. (laid rc, pc (reader rc))) (readers x) = [(1, Finished)] \<and> asked x = [] \<and> inbox3 x = [] \<and>
       map (\<lambda>l. (conts l, tasks l, map reply_cb (replies l))) (leafs3 (system3 x)) = [([], [], [0, 1])] \<and>
       undelivered (system3 x) = [] \<and> returned (system3 x) = [0, 1] \<and> failed3 (system3 x) = [] \<and>
       length (requests_made (db3 (system3 x))) = 2"
  by (simp add: demo_reads_def demo3_leaf_def trial3_evals sys3_evals)

lemma reads_rest:
  obtains y where "\<And>m. m < length demo_reads \<Longrightarrow> fresh_event (snd (reads_schedule m)) (reads_state m)"
    "\<And>m. exp3_event 1 1 2 (fst (reads_schedule m)) (snd (reads_schedule m)) (reads_state m) = Inr (reads_state (Suc m))"
    "\<And>m. length demo_reads \<le> m \<Longrightarrow> reads_state m = y" "\<not> can_move3 1 1 2 y" "failed3 (system3 y) = []"
proof -
  let ?x = "exp3_start 1 1 1 [Leaf_new ''a'' 1] [demo3_leaf]"
  obtain y where y: "run3 1 1 2 demo_reads ?x = Some y"
    and f: "map (\<lambda>rc. (laid rc, pc (reader rc))) (readers y) = [(1, Finished)]" "asked y = []" "inbox3 y = []"
      "map (\<lambda>l. (conts l, tasks l, map reply_cb (replies l))) (leafs3 (system3 y)) = [([], [], [0, 1])]"
      "undelivered (system3 y) = []" "returned (system3 y) = [0, 1]" "failed3 (system3 y) = []"
      "length (requests_made (db3 (system3 y))) = 2"
    using demo_reads_rest by (simp split: option.splits)
  obtain rc where rc: "readers y = [rc]" "laid rc = 1" "pc (reader rc) = Finished" using f(1) by auto
  obtain l where l: "leafs3 (system3 y) = [l]" "conts l = []" "tasks l = []" "map reply_cb (replies l) = [0, 1]" using f(4) by auto
  have settled: "settled (system3 y) = {0, 1}" by (simp add: settled_def f(6,7))
  have "reply_cb q \<in> set (map reply_cb (replies l))" if "q \<in> set (replies l)" for q using that by simp
  then have answered: "\<forall>q \<in> set (replies l). reply_cb q \<in> settled (system3 y)" unfolding l(4) settled by simp
  have "\<forall>k < length (requests_made (db3 (system3 y))). k \<in> settled (system3 y)"
    unfolding f(8) settled by (simp add: less_2_cases_iff)
  note rest = at_rest3 [OF rc(1,3,2) f(2,3,5) l(1-3) answered this]
  have first: "reads_state (length demo_reads) = y \<and> (\<forall>m < length demo_reads. fresh_event (snd (demo_reads ! m)) (reads_state m) \<and>
      exp3_event 1 1 2 (fst (demo_reads ! m)) (snd (demo_reads ! m)) (reads_state m) = Inr (reads_state (Suc m)))"
    by (rule run3_states) (use y in \<open>simp_all add: reads_schedule_def\<close>)
  have late: "reads_state m = y" if "length demo_reads \<le> m" for m
    using that
  proof (induction m rule: dec_induct)
    case (step m)
    then show ?case using rest(2,3) [of 1 2] by (simp add: reads_schedule_def)
  qed (use first in simp)
  have "exp3_event 1 1 2 (fst (reads_schedule m)) (snd (reads_schedule m)) (reads_state m) = Inr (reads_state (Suc m))" for m
    using first late [of m] late [of "Suc m"] rest(2,3) [of 1 2]
    by (cases "m < length demo_reads") (simp_all add: reads_schedule_def del: reads_state.simps)
  with first show ?thesis by (intro that [OF _ _ late rest(1) f(7)]) (simp_all add: reads_schedule_def)
qed

lemma reads_run: "exp3_run 1 1 2 reads_schedule reads_state"
proof -
  have "\<forall>e \<in> set demo_reads. kernel_keeps 2 (snd e)" by (simp add: demo_reads_def toy_event_def)
  then have "kernel_keeps 2 (snd (reads_schedule m))" for m by (simp add: reads_schedule_def)
  moreover have "fresh_event (snd (reads_schedule m)) (reads_state m)" if "\<not> m < length demo_reads" for m
    using that by (simp add: reads_schedule_def)
  ultimately show ?thesis unfolding exp3_run_def using reads_rest by metis
qed

lemma reads_fair: "fair3 1 1 2 reads_schedule reads_state"
proof -
  let ?L = "length demo_reads"
  obtain y where y: "\<And>m. ?L \<le> m \<Longrightarrow> reads_state m = y" "\<not> can_move3 1 1 2 y" by (rule reads_rest) blast
  have later: "reads_schedule m = (0, if even m then Reader_Sends 0 else Reader_Loops 0)" if "?L \<le> m" for m
    using that by (simp add: reads_schedule_def)
  have "\<not> (\<forall>m. \<exists>k \<ge> m. can_move3 1 1 2 (reads_state k))" using y by metis
  moreover have "\<exists>k \<ge> m. snd (reads_schedule k) = Reader_Sends 0" for m
    using later [of "2 * (m + ?L)"] by (intro exI [of _ "2 * (m + ?L)"]) simp
  moreover have "\<exists>k \<ge> m. snd (reads_schedule k) = Reader_Loops 0" for m
    using later [of "Suc (2 * (m + ?L))"] by (intro exI [of _ "Suc (2 * (m + ?L))"]) simp
  moreover have "c = 0" if "c < length (readers (reads_state 0))" for c using that by (simp add: exp3_start_def)
  ultimately show ?thesis unfolding fair3_def by blast
qed

theorem exp3_fair_runs_end_witness:
  "\<exists>M. pc (reader (readers (reads_state M) ! 0)) = Finished"
proof -
  obtain y where y: "\<And>m. length demo_reads \<le> m \<Longrightarrow> reads_state m = y" "failed3 (system3 y) = []"
    by (rule reads_rest) blast
  have start: "reads_state 0 = exp3_start 1 1 1 (map (\<lambda>(ip, port). Leaf_new ip port) [(''a'', 1)]) [demo3_leaf]" by simp
  have "\<exists>M. \<forall>m \<ge> M. \<forall>c < 1. pc (reader (readers (reads_state m) ! c)) = Finished \<or>
      unat (1 :: u32) \<le> card (lost_reads c (reads_state m)) \<and> failed3 (system3 (reads_state m)) \<noteq> []"
    by (rule exp3_fair_runs_end [OF _ _ _ demo3_leafs _ _ _ _ start reads_run reads_fair]) simp_all
  then obtain M where M: "\<forall>m \<ge> M. pc (reader (readers (reads_state m) ! 0)) = Finished \<or> failed3 (system3 (reads_state m)) \<noteq> []"
    by auto
  have "failed3 (system3 (reads_state (max M (length demo_reads)))) = []" using y by simp
  with M show ?thesis by (metis max.cobounded1)
qed

end
