(* ===== verification/BenchProgram.thy ===== *)
theory BenchProgram
  imports BenchReport
begin

text \<open>
  The client programs of the fbthrift experiments from the first configuration to the last: the nested
  loops of \<open>main\<close> (\<open>exp1/client.cpp\<close>, \<open>exp2/DB/client.cpp\<close>, \<open>exp3/DB/client.cpp\<close>) around the runs and lines of
  \<open>BenchReport\<close>. The environment gives for each configuration how long it took and what its threads
  received; that servers can serve every configuration is shown, not assumed.
\<close>

section \<open>The loops\<close>

definition for_configs :: "(u32 \<Rightarrow> u32 \<Rightarrow> u32 \<Rightarrow> 'row result) \<Rightarrow> 'row list result" where
  "for_configs f =
     foldE (\<lambda>nt out.
       foldE (\<lambda>qd out.
         foldE (\<lambda>sz out. bindE (f nt qd sz) (\<lambda>row. Inr (out @ [row]))) req_sizes out) queue_depths out) nthreads []"

type_synonym config_env = "u32 \<Rightarrow> u32 \<Rightarrow> u32 \<Rightarrow> int \<times> bench_input list list"

definition exp1_program :: "config_env \<Rightarrow> (u64 \<times> u64 \<times> u64) list result" where
  "exp1_program env = for_configs (\<lambda>nt qd sz. case env nt qd sz of (d, runs) \<Rightarrow> main_exp1 nt qd sz d runs)"

definition exp2_program :: "config_env \<Rightarrow> put_row list result" where
  "exp2_program env = for_configs (\<lambda>nt qd sz. case env nt qd sz of (d, runs) \<Rightarrow> main_exp2 nt qd sz d runs)"

definition exp3_program :: "config_env \<Rightarrow> read_row list result" where
  "exp3_program env = for_configs (\<lambda>nt qd sz. case env nt qd sz of (d, runs) \<Rightarrow> main_exp3 nt qd sz d runs)"

text \<open>The loops go through \<open>bench_configs\<close>, 32 configurations, in order.\<close>

lemma foldE_concat_map: "foldE f (concat (map g xs)) = foldE (\<lambda>x. foldE f (g x)) xs"
  by (induction xs; intro ext; simp add: foldE_append)

lemma foldE_map: "foldE f (map g xs) = foldE (\<lambda>x. f (g x)) xs"
  by (induction xs; intro ext; simp)

lemma for_configs_eq:
  "for_configs f = foldE (\<lambda>(nt, qd, sz) out. bindE (f nt qd sz) (\<lambda>row. Inr (out @ [row]))) bench_configs []"
  by (simp add: for_configs_def bench_configs_def foldE_concat_map foldE_map)

lemma foldE_rows:
  assumes "\<forall>c \<in> set cs. \<exists>row. f c = Inr row \<and> P c row"
  shows "\<exists>rows. foldE (\<lambda>c out. bindE (f c) (\<lambda>row. Inr (out @ [row]))) cs out = Inr (out @ rows) \<and> list_all2 P cs rows"
  using assms
proof (induction cs arbitrary: out)
  case (Cons c cs)
  from Cons.prems obtain row where row: "f c = Inr row" "P c row" by auto
  from Cons.prems Cons.IH [of "out @ [row]"] obtain rows where
    "foldE (\<lambda>c out. bindE (f c) (\<lambda>row. Inr (out @ [row]))) cs (out @ [row]) = Inr ((out @ [row]) @ rows)"
    "list_all2 P cs rows" by auto
  with row show ?case by (intro exI [of _ "row # rows"]) simp
qed simp

lemma for_configs_rows:
  assumes "\<And>nt qd sz. (nt, qd, sz) \<in> set bench_configs \<Longrightarrow> \<exists>row. f nt qd sz = Inr row \<and> P (nt, qd, sz) row"
  shows "\<exists>rows. for_configs f = Inr rows \<and> list_all2 P bench_configs rows \<and> length rows = 32"
proof -
  have "\<forall>c \<in> set bench_configs. \<exists>row. (case c of (nt, qd, sz) \<Rightarrow> f nt qd sz) = Inr row \<and> P c row"
    using assms by auto
  from foldE_rows [OF this, of "[]"] obtain rows where
    "for_configs f = Inr rows" "list_all2 P bench_configs rows" by (auto simp: for_configs_eq split_def)
  moreover have "length bench_configs = 32"
    by (simp add: bench_configs_def nthreads_def queue_depths_def req_sizes_def)
  ultimately show ?thesis by (auto dest: list_all2_lengthD)
qed

section \<open>Servers that serve\<close>

text \<open>
  From every state of the loop a server can answer one outstanding request per round, so that all hypotheses
  on the environment can be met for any depth.
\<close>

definition prompt_input :: "nat \<Rightarrow> u64 \<Rightarrow> int \<Rightarrow> bench_input" where
  "prompt_input len i t0 =
     \<lparr>send_clock = (\<lambda>j. 0), arrivals = [(t0, \<lparr>reply_id = i, reply_length = len, reply_db = 0, reply_leaf = 0,
        reply_io = 0, reply_cpu = 0\<rparr>)]\<rparr>"

lemma can_answer:
  assumes ok: "bench_ok qd n" and inv: "bench_inv qd n s" and g: "req_complete s < n" and d: "data_ok len"
  shows "\<exists>inp :: bench_input. length (arrivals inp) = 1 \<and>
    answers_out data_ok (arrivals inp) (send_batch (send_clock inp) (unat (req_tosend s)) s) \<and>
    all_timed ns_limit (arrivals inp) (send_batch (send_clock inp) (unat (req_tosend s)) s)"
proof -
  let ?k = "unat (req_tosend s)"
  let ?b = "send_batch (\<lambda>j. 0) ?k s"
  have c: "bench_counts qd n s" and ids: "bench_ids s" using inv by (simp_all add: bench_inv_def)
  have oc: "unat (req_out s) \<le> unat (req_sched s)" and small: "unat (req_sched s) + ?k < 18446744073709551616"
    and some: "1 \<le> unat (req_out s) + ?k"
    using c ok g by (simp_all add: bench_counts_def bench_ok_def word_less_nat_alt)
  have "unat (req_out ?b) = unat (req_out s) + ?k"
    using send_batch_frame [of "\<lambda>j. 0" ?k s] unat_add_of_nat [of "req_out s" ?k] small oc by simp
  moreover have "card (in_time ?b) = unat (req_out ?b)"
    using send_batch_ids [OF ids oc small, of "\<lambda>j. 0"] by (simp add: bench_ids_def)
  ultimately have "in_time ?b \<noteq> {}" using some by auto
  then obtain i t0 where "req_time ?b i = Some t0" unfolding in_time_def by blast
  with d show ?thesis
    by (intro exI [of _ "prompt_input len i t0"])
      (auto simp: prompt_input_def answers_out_def in_time_def all_timed_def timed_def)
qed

lemma can_serve:
  assumes ok: "bench_ok qd n" and d: "data_ok len"
  shows "bench_inv qd n s \<Longrightarrow>
    \<exists>inps. bench_env data_ok qd n inps s \<and> timed_env ns_limit data_ok qd n inps s \<and>
      sum_list (map (\<lambda>i. length (arrivals i)) inps) = k"
proof (induction k arbitrary: s)
  case (Suc k)
  show ?case
  proof (cases "req_complete s < n")
    case True
    from can_answer [OF ok Suc.prems True, of data_ok, OF d] obtain inp :: bench_input where
      inp: "length (arrivals inp) = 1"
        "answers_out data_ok (arrivals inp) (send_batch (send_clock inp) (unat (req_tosend s)) s)"
        "all_timed ns_limit (arrivals inp) (send_batch (send_clock inp) (unat (req_tosend s)) s)" by blast
    from bench_body_ok [OF ok Suc.prems True inp(2)] obtain u where
      u: "bench_body data_ok qd n inp s = Inr u" "bench_inv qd n u" by blast
    from Suc.IH [OF u(2)] obtain inps where
      "bench_env data_ok qd n inps u" "timed_env ns_limit data_ok qd n inps u"
      "sum_list (map (\<lambda>i. length (arrivals i)) inps) = k" by blast
    with inp u(1) show ?thesis by (intro exI [of _ "inp # inps"]) simp
  next
    case False
    let ?inp = "\<lparr>send_clock = \<lambda>j. 0, arrivals = replicate (Suc k) (0, \<lparr>reply_id = 0, reply_length = len, reply_db = 0,
      reply_leaf = 0, reply_io = 0, reply_cpu = 0\<rparr>)\<rparr>"
    from False show ?thesis by (intro exI [of _ "[?inp]"]) simp
  qed
qed (rule exI [of _ "[]"], simp)

lemma served_exists:
  assumes "bench_ok qd n" and "data_ok len"
  shows "\<exists>inps. served data_ok qd n inps"
  using can_serve [of qd n data_ok len, OF assms bench_inv_start [OF assms(1)], of "unat n"] by (auto simp: served_def)

text \<open>An environment in which all threads of all configurations are served.\<close>

definition serving :: "(u32 \<Rightarrow> nat \<Rightarrow> bool) \<Rightarrow> u64 \<Rightarrow> config_env \<Rightarrow> bool" where
  "serving data_ok n env \<longleftrightarrow>
     (\<forall>(nt, qd, sz) \<in> set bench_configs. length (snd (env nt qd sz)) = unat nt \<and>
        (\<forall>inps \<in> set (snd (env nt qd sz)). served (data_ok sz) qd n inps))"

lemma serving_config:
  assumes "serving data_ok n env" and "(nt, qd, sz) \<in> set bench_configs"
  obtains d runs where "env nt qd sz = (d, runs)" "length runs = unat nt" "\<forall>inps \<in> set runs. served (data_ok sz) qd n inps"
  using assms by (cases "env nt qd sz") (fastforce simp: serving_def)

lemma serving_exists:
  assumes "unat n < 9223372036854775808" and "\<And>sz. data_ok sz (len sz)"
  shows "\<exists>env. serving data_ok n env"
proof -
  have "\<exists>inps. (nt, qd, sz) \<in> set bench_configs \<longrightarrow> served (data_ok sz) qd n inps" for nt qd sz
    using served_exists [of qd n "data_ok sz" "len sz"] configs_bounds [of nt qd sz] assms by (fastforce simp: bench_ok_def)
  then obtain w where "\<And>nt qd sz. (nt, qd, sz) \<in> set bench_configs \<Longrightarrow> served (data_ok sz) qd n (w nt qd sz)" by metis
  then have "serving data_ok n (\<lambda>nt qd sz. (0, replicate (unat nt) (w nt qd sz)))" by (auto simp: serving_def)
  then show ?thesis by blast
qed

section \<open>The programs\<close>

lemma main_exp2_config:
  "main_exp2 nt qd sz d runs = Inr row \<Longrightarrow> row_threads row = nt \<and> row_qdepth row = qd \<and> row_size row = sz \<and> row_run_time row = d"
  by (auto simp: main_exp2_def report_exp2_def result_simps Let_def split: if_splits)



text \<open>The other two clients: exp3 in the same way, exp1, whose lines hold times only, in any environment of answers.\<close>

lemma exp3_program_report:
  assumes "serving (\<lambda>sz k. k = unat sz) MaxRequests_exp3 env"
  shows "\<exists>rows. exp3_program env = Inr rows \<and> length rows = 32 \<and>
    list_all2 (\<lambda>(nt, qd, sz) row.
      unat (row_total row) = unat nt * 2048 \<and>
      unat (row_db_leaf row) + unat (row_leaf row) = unat (row_db row) \<and>
      unat (row_rest row) + unat (row_io row) + unat (row_cpu row) = unat (row_leaf row)) bench_configs rows"
proof -
  let ?P = "\<lambda>(nt :: u32, qd :: u32, sz :: u32) row.
      unat (row_total row) = unat nt * 2048 \<and>
      unat (row_db_leaf row) + unat (row_leaf row) = unat (row_db row) \<and>
      unat (row_rest row) + unat (row_io row) + unat (row_cpu row) = unat (row_leaf row)"
  have "\<exists>row. (case env nt qd sz of (d, runs) \<Rightarrow> main_exp3 nt qd sz d runs) = Inr row \<and> ?P (nt, qd, sz) row"
    if cfg: "(nt, qd, sz) \<in> set bench_configs" for nt qd sz
  proof -
    from serving_config [OF assms cfg] obtain d runs where
      env: "env nt qd sz = (d, runs)" "length runs = unat nt"
        "\<forall>inps \<in> set runs. served (\<lambda>k. k = unat sz) qd MaxRequests_exp3 inps" .
    from read_report_exact [OF cfg env(2,3), of d] env(1) show ?thesis by auto
  qed
  from for_configs_rows [of _ ?P, OF this] show ?thesis unfolding exp3_program_def by blast
qed

lemma exp1_program_lines:
  assumes "serving (\<lambda>sz k. True) MaxRequests_exp1 env"
  shows "\<exists>rows. exp1_program env = Inr rows \<and> length rows = 32 \<and>
    list_all2 (\<lambda>(nt, qd, sz) (avg, nr, total_avg). unat nr = unat nt * 100000) bench_configs rows"
proof -
  let ?P = "\<lambda>(nt :: u32, qd :: u32, sz :: u32) (avg :: u64, nr :: u64, total_avg :: u64). unat nr = unat nt * 100000"
  have "\<exists>row. (case env nt qd sz of (d, runs) \<Rightarrow> main_exp1 nt qd sz d runs) = Inr row \<and> ?P (nt, qd, sz) row"
    if cfg: "(nt, qd, sz) \<in> set bench_configs" for nt qd sz
  proof -
    from serving_config [OF assms cfg] obtain d runs where
      env: "env nt qd sz = (d, runs)" "\<forall>inps \<in> set runs. served (\<lambda>k. True) qd MaxRequests_exp1 inps" .
    then have "\<forall>inps \<in> set runs. bench_env (\<lambda>k. True) qd MaxRequests_exp1 inps (bench_start qd)" by (simp add: served_def)
    from exp1_line [OF cfg this, of d] env(1) show ?thesis by auto
  qed
  from for_configs_rows [of _ ?P, OF this] show ?thesis unfolding exp1_program_def by blast
qed

end
