(* ===== verification/Exp1System.thy ===== *)
theory Exp1System
  imports BenchClient
begin

text \<open>
  \<open>fbthrift/exp1\<close> as a whole: a thread of \<open>client.cpp\<close>, which asks for data, against the handler of \<open>GaneshaDBServer.cpp\<close>.
  A round of the client sends its requests; while it waits, the server answers calls that have reached it, in any
  order, between calls of other threads that share the handler; the replies are what the client receives.
\<close>

section \<open>The system\<close>

definition exp1_call :: "u32 \<Rightarrow> u64 \<Rightarrow> BenchmarkData" where
  "exp1_call sz i = BenchmarkData_new\<lparr>bd_request_id := i, bd_data := [], bd_data_size := ucast sz\<rparr>"

text \<open>What the continuation reads of a reply; there is no figure for the CPU.\<close>

definition exp1_reply :: "BenchmarkData \<Rightarrow> bench_reply" where
  "exp1_reply ret =
     \<lparr>reply_id = bd_request_id ret, reply_length = length (bd_data ret), reply_db = of_int (bd_db_latency ret),
      reply_leaf = of_int (bd_leaf_latency ret), reply_io = of_int (bd_io_latency ret), reply_cpu = 0\<rparr>"

text \<open>
  An answer: other calls of the handler before it, which of the calls not yet answered, how long the handler takes, and
  when the reply is received.
\<close>

record exp1_answer =
  others :: "bench_call list"
  which_call :: nat
  took :: int
  received :: int

text \<open>A call that raises is answered with the exception, for which the client has no continuation.\<close>

fun exp1_serve ::
  "nat \<Rightarrow> u32 \<Rightarrow> exp1_answer list \<Rightarrow> u64 list \<Rightarrow> BenchmarkHandler \<Rightarrow> (int \<times> bench_reply) list \<times> u64 list \<times> BenchmarkHandler" where
  "exp1_serve lim sz [] pend h = ([], pend, h)"
| "exp1_serve lim sz (a # as) pend h =
     (let h = snd (bench_serve_all lim (others a) h); k = which_call a in
      if k < length pend then
        case bench_serve lim (Get (took a) (exp1_call sz (pend ! k))) h of (r, h) \<Rightarrow>
          (case exp1_serve lim sz as (take k pend @ drop (Suc k) pend) h of (rs, rest) \<Rightarrow>
             ((case r of Inl e \<Rightarrow> [] | Inr ret \<Rightarrow> [(received a, exp1_reply ret)]) @ rs, rest))
      else exp1_serve lim sz as pend h)"

record exp1_state =
  thread1 :: bench_state
  pend1 :: "u64 list"
  server1 :: BenchmarkHandler
  got1 :: "bench_reply list"

definition exp1_start :: "u32 \<Rightarrow> u64 \<Rightarrow> exp1_state" where
  "exp1_start qd garbage = \<lparr>thread1 = bench_start qd, pend1 = [], server1 = GaneshaHandler_new garbage, got1 = []\<rparr>"

text \<open>The calls that a round adds are those the client's wire gains.\<close>

definition sent_in_round :: "(nat \<Rightarrow> int) \<Rightarrow> bench_state \<Rightarrow> u64 list" where
  "sent_in_round clk s = map fst (drop (length (wire s)) (wire (send_batch clk (unat (req_tosend s)) s)))"

definition exp1_round ::
  "nat \<Rightarrow> u32 \<Rightarrow> u32 \<Rightarrow> u64 \<Rightarrow> (nat \<Rightarrow> int) \<times> exp1_answer list \<Rightarrow> exp1_state \<Rightarrow> exp1_state result" where
  "exp1_round lim qd sz n rnd x =
     (case rnd of (clk, as) \<Rightarrow>
        case exp1_serve lim sz as (pend1 x @ sent_in_round clk (thread1 x)) (server1 x) of (rs, pend, h) \<Rightarrow>
          bindE (bench_body (\<lambda>k. True) qd n \<lparr>send_clock = clk, arrivals = rs\<rparr> (thread1 x)) (\<lambda>t.
            Inr \<lparr>thread1 = t, pend1 = pend, server1 = h, got1 = got1 x @ map snd rs\<rparr>))"

fun exp1_run ::
  "nat \<Rightarrow> u32 \<Rightarrow> u32 \<Rightarrow> u64 \<Rightarrow> ((nat \<Rightarrow> int) \<times> exp1_answer list) list \<Rightarrow> exp1_state \<Rightarrow> exp1_state result" where
  "exp1_run lim qd sz n [] x = Inr x"
| "exp1_run lim qd sz n (rnd # rnds) x =
     (if req_complete (thread1 x) < n then bindE (exp1_round lim qd sz n rnd x) (exp1_run lim qd sz n rnds) else Inr x)"

section \<open>The server\<close>

text \<open>The handler is consistent, or still as its constructor left it.\<close>

definition ganesha_ok :: "nat \<Rightarrow> u64 \<Rightarrow> BenchmarkHandler \<Rightarrow> bool" where
  "ganesha_ok lim g h \<longleftrightarrow> cache_ok lim h \<or> h = GaneshaHandler_new g"

lemma ganesha_serve:
  assumes "ganesha_ok lim g h"
  shows "ganesha_ok lim g (snd (bench_serve lim c h))"
proof (cases "cache_ok lim h")
  case True
  then show ?thesis using bench_serve_spec [OF True, of c] by (auto simp: ganesha_ok_def)
next
  case False
  with assms have h: "h = GaneshaHandler_new g" by (simp add: ganesha_ok_def)
  show ?thesis
    by (cases c) (auto simp: h ganesha_ok_def bench_serve_def key_get_def init_data_def copy_benchmark_data_def
        GaneshaHandler_new_def cache_ok_def BenchmarkData_new_def Let_def)
qed

lemma ganesha_serve_all:
  "ganesha_ok lim g h \<Longrightarrow> ganesha_ok lim g (snd (bench_serve_all lim cs h))"
proof (induction cs arbitrary: h)
  case (Cons c cs)
  from Cons.IH [OF ganesha_serve [OF Cons.prems, of c]] show ?case by (simp add: split_beta)
qed simp

text \<open>A call of the client is answered, with its identifier, and with all its data unless the garbage was its size.\<close>

lemma ganesha_answers:
  assumes "ganesha_ok lim g h" and "unat sz \<le> lim"
  shows "\<exists>ret. fst (bench_serve lim (Get l (exp1_call sz i)) h) = Inr ret \<and> bd_request_id ret = i \<and>
    (ucast sz \<noteq> g \<longrightarrow> length (bd_data ret) = unat sz)"
proof -
  have u: "unat (ucast sz :: u64) = unat sz" by (rule unat_ucast_u32)
  show ?thesis
  proof (cases "cache_ok lim h")
    case True
    from bench_serve_spec [OF True, of "Get l (exp1_call sz i)"] assms(2) show ?thesis
      by (auto simp: exp1_call_def u)
  next
    case False
    with assms(1) have h: "h = GaneshaHandler_new g" by (simp add: ganesha_ok_def)
    show ?thesis using assms(2)
      by (auto simp: h bench_serve_def key_get_def init_data_def copy_benchmark_data_def GaneshaHandler_new_def
          exp1_call_def u Let_def)
  qed
qed

lemma take_drop_mset: "k < length xs \<Longrightarrow> mset xs = add_mset (xs ! k) (mset (take k xs @ drop (Suc k) xs))"
  by (metis add_mset_commute id_take_nth_drop mset_append mset.simps(2) union_mset_add_mset_right)

lemma exp1_serve_ok:
  assumes "unat sz \<le> lim"
  shows "ganesha_ok lim g h \<Longrightarrow> exp1_serve lim sz as pend h = (rs, pend', h') \<Longrightarrow>
    ganesha_ok lim g h' \<and> mset pend = mset (map (\<lambda>r. reply_id (snd r)) rs) + mset pend' \<and>
    (ucast sz \<noteq> g \<longrightarrow> (\<forall>r \<in> set rs. reply_length (snd r) = unat sz)) \<and>
    (pend \<noteq> [] \<and> (\<exists>a \<in> set as. which_call a = 0) \<longrightarrow> rs \<noteq> [])"
proof (induction as arbitrary: pend h rs)
  case (Cons a as)
  let ?h = "snd (bench_serve_all lim (others a) h)" and ?k = "which_call a"
  have ok: "ganesha_ok lim g ?h" by (rule ganesha_serve_all [OF Cons.prems(1)])
  show ?case
  proof (cases "?k < length pend")
    case True
    let ?c = "Get (took a) (exp1_call sz (pend ! ?k))" and ?rest = "take ?k pend @ drop (Suc ?k) pend"
    from ganesha_answers [OF ok assms] obtain ret where
      ret: "fst (bench_serve lim ?c ?h) = Inr ret" "bd_request_id ret = pend ! ?k"
        "ucast sz \<noteq> g \<longrightarrow> length (bd_data ret) = unat sz" by blast
    obtain rs' q where q: "exp1_serve lim sz as ?rest (snd (bench_serve lim ?c ?h)) = (rs', q)" by (rule prod.exhaust)
    then have rs': "exp1_serve lim sz as ?rest (snd (bench_serve lim ?c ?h)) = (rs', pend', h')"
        "rs = (received a, exp1_reply ret) # rs'"
      using Cons.prems(2) True ret(1) by (auto simp: Let_def split_beta)
    from Cons.IH [OF ganesha_serve [OF ok, of ?c] rs'(1)] ret take_drop_mset [OF True]
    show ?thesis by (auto simp: rs'(2) exp1_reply_def)
  next
    case False
    with Cons.prems(2) have "exp1_serve lim sz as pend ?h = (rs, pend', h')" by (simp add: Let_def)
    from Cons.IH [OF ok this] False show ?thesis by auto
  qed
qed auto

section \<open>A round\<close>

lemma send_batch_wire:
  "\<exists>ids. wire (send_batch clk k s) = wire s @ ids \<and> in_time (send_batch clk k s) = in_time s \<union> fst ` set ids \<and> length ids = k"
proof (induction k)
  case (Suc k)
  then obtain ids where ids: "wire (send_batch clk k s) = wire s @ ids"
    "in_time (send_batch clk k s) = in_time s \<union> fst ` set ids" "length ids = k" by blast
  show ?case
    by (rule exI [of _ "ids @ [(req_id (send_batch clk k s), k)]"])
      (use ids in \<open>simp add: send_batch_Suc send_request_def Let_def in_time_def\<close>)
qed (simp add: send_batch_def)

definition exp1_inv :: "nat \<Rightarrow> u64 \<Rightarrow> u32 \<Rightarrow> u32 \<Rightarrow> u64 \<Rightarrow> exp1_state \<Rightarrow> bool" where
  "exp1_inv lim g qd sz n x \<longleftrightarrow>
     bench_inv qd n (thread1 x) \<and> ganesha_ok lim g (server1 x) \<and> set (pend1 x) = in_time (thread1 x) \<and>
     mset (map fst (wire (thread1 x))) = mset (map reply_id (got1 x)) + mset (pend1 x) \<and>
     length (got1 x) = unat (req_complete (thread1 x)) \<and>
     (ucast sz \<noteq> g \<longrightarrow> (\<forall>r \<in> set (got1 x). reply_length r = unat sz))"

lemma wire_distinct: "bench_ids s \<Longrightarrow> distinct (map fst (wire s))"
proof -
  assume ids: "bench_ids s"
  have "inj_on (\<lambda>i. of_nat (Suc i) :: u64) {0..<unat (req_sched s)}"
  proof (rule inj_onI)
    fix i j assume ij: "i \<in> {0..<unat (req_sched s)}" "j \<in> {0..<unat (req_sched s)}" "(of_nat (Suc i) :: u64) = of_nat (Suc j)"
    have "unat (req_sched s) < 18446744073709551616" by (rule unat_u64_bound)
    with ij have "Suc i < 18446744073709551616" "Suc j < 18446744073709551616" by auto
    then have "unat (of_nat (Suc i) :: u64) = Suc i" "unat (of_nat (Suc j) :: u64) = Suc j"
      by (intro unat_of_nat_u64; simp)+
    with ij(3) have "Suc i = Suc j" by argo
    then show "i = j" by simp
  qed
  with ids show ?thesis by (simp add: bench_ids_def distinct_map)
qed

lemma exp1_round_ok:
  assumes ok: "bench_ok qd n" and lim: "unat sz \<le> lim" and inv: "exp1_inv lim g qd sz n x" and go: "req_complete (thread1 x) < n"
  shows "\<exists>y inp. exp1_round lim qd sz n (clk, as) x = Inr y \<and> exp1_inv lim g qd sz n y \<and>
    bench_body (\<lambda>k. True) qd n inp (thread1 x) = Inr (thread1 y) \<and>
    unat (req_complete (thread1 x)) \<le> unat (req_complete (thread1 y)) \<and>
    ((\<exists>a \<in> set as. which_call a = 0) \<longrightarrow> unat (req_complete (thread1 x)) < unat (req_complete (thread1 y)))"
proof -
  let ?s = "thread1 x" and ?new = "sent_in_round clk (thread1 x)"
  let ?k = "unat (req_tosend ?s)"
  let ?b = "send_batch clk ?k ?s"
  have binv: "bench_inv qd n ?s" and c: "bench_counts qd n ?s" and ids: "bench_ids ?s"
    using inv by (simp_all add: exp1_inv_def bench_inv_def)
  have oc: "unat (req_out ?s) \<le> unat (req_sched ?s)" and small: "unat (req_sched ?s) + ?k < 18446744073709551616"
    and some: "1 \<le> unat (req_out ?s) + ?k" and k31: "?k \<le> 2147483647"
    using c ok go by (simp_all add: bench_counts_def bench_ok_def word_less_nat_alt)
  have bids: "bench_ids ?b" by (rule send_batch_ids [OF ids oc small])
  obtain sent where "wire ?b = wire ?s @ sent" "in_time ?b = in_time ?s \<union> fst ` set sent" "length sent = ?k"
    using send_batch_wire [of clk ?k ?s] by blast
  then have w: "map fst (wire ?b) = map fst (wire ?s) @ ?new" "in_time ?b = in_time ?s \<union> set ?new" "length ?new = ?k"
    by (simp_all add: sent_in_round_def)
  obtain rs pend h where sv: "exp1_serve lim sz as (pend1 x @ ?new) (server1 x) = (rs, pend, h)" by (metis prod_cases3)
  have gok: "ganesha_ok lim g (server1 x)" using inv by (simp add: exp1_inv_def)
  note served = exp1_serve_ok [OF lim gok sv]
  let ?ids = "map (\<lambda>r. reply_id (snd r)) rs"
  have bw: "mset (map fst (wire ?b)) = mset (map reply_id (got1 x)) + mset (pend1 x @ ?new)"
    using inv by (simp add: w(1) exp1_inv_def)
  then have dist: "distinct (pend1 x @ ?new)"
    using wire_distinct [OF bids] by (metis distinct_append mset_append mset_eq_imp_distinct_iff)
  have split: "mset (pend1 x @ ?new) = mset (?ids @ pend)" using served by simp
  then have d2: "distinct (?ids @ pend)" using dist mset_eq_imp_distinct_iff by blast
  have set: "in_time ?b = set ?ids \<union> set pend"
    using inv w(2) arg_cong [OF split, of set_mset] by (simp add: exp1_inv_def)
  let ?inp = "\<lparr>send_clock = clk, arrivals = rs\<rparr>"
  have env: "answers_out (\<lambda>k. True) (arrivals ?inp) (send_batch (send_clock ?inp) ?k ?s)"
    using d2 set by (auto simp: answers_out_def)
  from bench_body_ok [OF ok binv go env] obtain t where
    t: "bench_body (\<lambda>k. True) qd n ?inp ?s = Inr t" "bench_inv qd n t" "unat (req_complete t) = unat (req_complete ?s) + length rs"
    by auto
  from env have env': "answers_out (\<lambda>k. True) rs ?b" by simp
  from receive_all_ok [OF env'] obtain u where
    u: "foldE (receive_reply (\<lambda>k. True)) rs ?b = Inr u" "in_time u = in_time ?b - set ?ids" "wire u = wire ?b" by auto
  have "t = next_tosend qd n u" using t(1) u(1) by (simp add: bench_body_def send_loop_batch [OF k31])
  then have tu: "in_time t = in_time ?b - set ?ids" "wire t = wire ?b" using next_tosend_frame [of qd n u] u(2,3) by simp_all
  let ?y = "\<lparr>thread1 = t, pend1 = pend, server1 = h, got1 = got1 x @ map snd rs\<rparr>"
  have "set pend = in_time t" using d2 by (auto simp: tu(1) set)
  moreover have "mset (map fst (wire t)) = mset (map reply_id (got1 ?y)) + mset pend"
    using bw split by (simp add: tu(2) comp_def)
  ultimately have "exp1_inv lim g qd sz n ?y"
    using inv t served by (auto simp: exp1_inv_def)
  moreover have "exp1_round lim qd sz n (clk, as) x = Inr ?y" by (simp add: exp1_round_def sv t(1))
  moreover have "pend1 x @ ?new \<noteq> []"
  proof -
    have "card (in_time ?s) = unat (req_out ?s)" using ids by (simp add: bench_ids_def)
    then have "card (set (pend1 x)) + length ?new \<ge> 1" using inv some w(3) by (simp add: exp1_inv_def)
    then show ?thesis by auto
  qed
  ultimately show ?thesis using t served by (intro exI [of _ ?y] exI [of _ ?inp]) auto
qed

section \<open>Runs\<close>

lemma exp1_run_ok:
  assumes ok: "bench_ok qd n" and lim: "unat sz \<le> lim"
  shows "exp1_inv lim g qd sz n x \<Longrightarrow> \<exists>y inps. exp1_run lim qd sz n rnds x = Inr y \<and> exp1_inv lim g qd sz n y \<and>
    bench_loop (\<lambda>k. True) qd n inps (thread1 x) = Inr (thread1 y) \<and>
    ((\<forall>rnd \<in> set rnds. \<exists>a \<in> set (snd rnd). which_call a = 0) \<longrightarrow>
       n \<le> req_complete (thread1 y) \<or> unat (req_complete (thread1 x)) + length rnds \<le> unat (req_complete (thread1 y)))"
proof (induction rnds arbitrary: x)
  case Nil
  then show ?case by (intro exI [of _ x] exI [of _ "[]"]) simp
next
  case (Cons rnd rnds)
  show ?case
  proof (cases "req_complete (thread1 x) < n")
    case True
    obtain clk as where rnd: "rnd = (clk, as)" by fastforce
    from exp1_round_ok [OF ok lim Cons.prems True, of clk as] obtain u inp where
      u: "exp1_round lim qd sz n rnd x = Inr u" "exp1_inv lim g qd sz n u"
        "bench_body (\<lambda>k. True) qd n inp (thread1 x) = Inr (thread1 u)"
        "(\<exists>a \<in> set as. which_call a = 0) \<longrightarrow> unat (req_complete (thread1 x)) < unat (req_complete (thread1 u))"
      unfolding rnd by blast
    from Cons.IH [OF u(2)] obtain y inps where
      y: "exp1_run lim qd sz n rnds u = Inr y" "exp1_inv lim g qd sz n y"
        "bench_loop (\<lambda>k. True) qd n inps (thread1 u) = Inr (thread1 y)"
        "(\<forall>rnd \<in> set rnds. \<exists>a \<in> set (snd rnd). which_call a = 0) \<longrightarrow>
           n \<le> req_complete (thread1 y) \<or> unat (req_complete (thread1 u)) + length rnds \<le> unat (req_complete (thread1 y))" by blast
    show ?thesis
      by (intro exI [of _ y] exI [of _ "inp # inps"]) (use True u y in \<open>auto simp: rnd\<close>)
  next
    case False
    with Cons.prems show ?thesis by (intro exI [of _ x] exI [of _ "[]"]) (simp add: not_less leD)
  qed
qed

text \<open>
  C29. The client and the server of exp1 together, whatever the order in which the server answers and whatever it
  does for other threads in between: no assertion fails; what runs is the client's loop; each request is answered at
  most once, and those not answered are exactly those whose send times the client keeps; every reply carries as
  many bytes as were asked for, unless the size that the server's constructor left unset happened to be that size; and
  if the server goes on answering its oldest call, the client ends after at most as many rounds as it wants requests.
\<close>

theorem exp1_client_and_server:
  assumes "bench_ok qd n" and "unat sz \<le> lim"
  shows "\<exists>x inps. exp1_run lim qd sz n rnds (exp1_start qd garbage) = Inr x \<and>
    start_benchmark_exp1 sz qd n inps = Inr (thread1 x) \<and>
    mset (map fst (wire (thread1 x))) = mset (map reply_id (got1 x)) + mset (pend1 x) \<and>
    distinct (map fst (wire (thread1 x))) \<and> set (pend1 x) = dom (req_time (thread1 x)) \<and>
    (garbage \<noteq> ucast sz \<longrightarrow> (\<forall>r \<in> set (got1 x). reply_length r = unat sz)) \<and>
    ((\<forall>rnd \<in> set rnds. \<exists>a \<in> set (snd rnd). which_call a = 0) \<and> unat n \<le> length rnds \<longrightarrow> n \<le> req_complete (thread1 x))"
proof -
  have "exp1_inv lim garbage qd sz n (exp1_start qd garbage)"
    using bench_inv_start [OF assms(1)]
    by (simp add: exp1_inv_def exp1_start_def ganesha_ok_def) (simp add: bench_start_def in_time_def)
  from exp1_run_ok [OF assms this, of rnds] obtain x inps where
    x: "exp1_run lim qd sz n rnds (exp1_start qd garbage) = Inr x" "exp1_inv lim garbage qd sz n x"
      "bench_loop (\<lambda>k. True) qd n inps (bench_start qd) = Inr (thread1 x)"
      "(\<forall>rnd \<in> set rnds. \<exists>a \<in> set (snd rnd). which_call a = 0) \<longrightarrow>
         n \<le> req_complete (thread1 x) \<or> length rnds \<le> unat (req_complete (thread1 x))"
    by (auto simp: exp1_start_def bench_start_def)
  then show ?thesis
    by (intro exI [of _ x] exI [of _ inps])
      (auto simp: exp1_inv_def start_benchmark_exp1_def in_time_def bench_inv_def wire_distinct word_le_nat_alt)
qed

text \<open>Two requests wanted at depth 2: the second is answered first, and another thread asks for another size in between.\<close>

definition exp1_demo :: "((nat \<Rightarrow> int) \<times> exp1_answer list) list" where
  "exp1_demo =
     [(\<lambda>i. 0, [\<lparr>others = [], which_call = 1, took = 3, received = 10\<rparr>]),
      (\<lambda>i. 20, [\<lparr>others = [Get 1 (exp1_call 7 1)], which_call = 0, took = 3, received = 30\<rparr>])]"

theorem exp1_client_and_server_witness:
  "\<exists>x. exp1_run 4096 2 16 2 exp1_demo (exp1_start 2 99) = Inr x \<and> req_complete (thread1 x) = 2 \<and>
     map reply_id (got1 x) = [2, 1] \<and> (\<forall>r \<in> set (got1 x). reply_length r = 16) \<and>
     set (pend1 x) = dom (req_time (thread1 x))"
proof -
  have ok: "bench_ok 2 2" by (simp add: bench_ok_def)
  have "\<exists>x. exp1_run 4096 2 16 2 exp1_demo (exp1_start 2 99) = Inr x \<and> req_complete (thread1 x) = 2 \<and>
      map reply_id (got1 x) = [2, 1]"
    by (simp add: exp1_demo_def exp1_start_def exp1_round_def sent_in_round_def exp1_call_def exp1_reply_def bench_evals
        bench_serve_def key_get_def init_data_def copy_benchmark_data_def GaneshaHandler_new_def BenchmarkData_new_def)
  with exp1_client_and_server [OF ok, of 16 4096 exp1_demo 99] show ?thesis by auto
qed

end
