(* ===== verification/Wangle.thy ===== *)
theory Wangle
  imports CompletionTable
begin

text \<open>
  \<open>wangle/message.h\<close>, \<open>wangle/server.cpp\<close>, \<open>wangle/client.cpp\<close>: a message with a header and extra
  bytes behind it, its codec, the echo service, the client's dispatcher of responses, and the
  client's measuring loop. The pipeline's framing is the library's and delivers
  whole frames; memory behind an object is modelled by the bytes that were allocated with it,
  and reading further is the error \<open>Out_Of_Bounds\<close>.
\<close>

section \<open>Messages\<close>

record Message =
  reqId :: u64
  extraLen :: u64
  client_send :: u64
  client_resp :: u64

text \<open>An object on the heap: the header and the extra bytes allocated behind it.\<close>

type_synonym message_object = "Message \<times> bytes"

definition sizeof_Message :: nat where
  "sizeof_Message = 32"

text \<open>\<open>new(extra) Message(len)\<close>; the extra bytes are whatever the allocator gives.\<close>

definition Message_new :: "bytes \<Rightarrow> u64 \<Rightarrow> Message \<Rightarrow> message_object" where
  "Message_new heap len old = (old\<lparr>extraLen := len\<rparr>, heap)"

definition message_bytes :: "Message \<Rightarrow> bytes" where
  "message_bytes m = le_bytes 8 (reqId m) @ le_bytes 8 (extraLen m) @ le_bytes 8 (client_send m) @ le_bytes 8 (client_resp m)"

definition bytes_message :: "bytes \<Rightarrow> Message" where
  "bytes_message b =
     \<lparr>reqId = le_word (take 8 b), extraLen = le_word (take 8 (drop 8 b)),
      client_send = le_word (take 8 (drop 16 b)), client_resp = le_word (take 8 (drop 24 b))\<rparr>"

lemma length_message_bytes [simp]: "length (message_bytes m) = 32"
  by (simp add: message_bytes_def)

lemma bytes_message_bytes [simp]: "bytes_message (message_bytes m @ rest) = m"
  by (simp add: bytes_message_def message_bytes_def)

section \<open>The codec and the echo service\<close>

text \<open>\<open>read\<close>: an empty pointer is ignored; otherwise the header is copied into an object without extra bytes.\<close>

definition codec_read :: "bytes option \<Rightarrow> message_object option result" where
  "codec_read buf =
     (case buf of
        None \<Rightarrow> Inr None
      | Some b \<Rightarrow>
          if length b < sizeof_Message then Inl Out_Of_Bounds
          else Inr (Some (bytes_message b, [])))"

text \<open>\<open>write\<close> copies the header and \<open>extraLen\<close> bytes from the object's address on.\<close>

definition codec_write :: "message_object \<Rightarrow> bytes result" where
  "codec_write msg =
     (case msg of (m, extra) \<Rightarrow>
        if unat (extraLen m) > length extra then Inl Out_Of_Bounds
        else Inr (message_bytes m @ take (unat (extraLen m)) extra))"

definition MsgService :: "message_object \<Rightarrow> message_object" where
  "MsgService msg = msg"

text \<open>The server's pipeline on one frame.\<close>

definition server_frame :: "bytes \<Rightarrow> bytes option result" where
  "server_frame frame =
     bindE (codec_read (Some frame)) (\<lambda>msg.
       case msg of None \<Rightarrow> Inr None | Some msg \<Rightarrow> bindE (codec_write (MsgService msg)) (\<lambda>b. Inr (Some b)))"

text \<open>
  The codec keeps the header and loses the rest: what a client sends for a message with all of its extra
  bytes is read by the other side as the same header with no bytes behind it, although the
  header still announces them.
\<close>

theorem codec_roundtrip:
  assumes "unat (extraLen m) \<le> length extra"
  shows "\<exists>frame. codec_write (m, extra) = Inr frame \<and> codec_read (Some frame) = Inr (Some (m, []))"
  using assms by (simp add: codec_write_def codec_read_def sizeof_Message_def)

theorem codec_roundtrip_witness:
  "\<exists>frame. codec_write (\<lparr>reqId = 5, extraLen = 2, client_send = 9, client_resp = 0\<rparr>, [1, 2]) = Inr frame \<and>
     codec_read (Some frame) = Inr (Some (\<lparr>reqId = 5, extraLen = 2, client_send = 9, client_resp = 0\<rparr>, []))"
  by (rule codec_roundtrip) simp

text \<open>
  The echo server reads beyond its object for every message with a payload: it answers a
  frame with no extra bytes by the same frame, and for a frame that announces extra bytes it copies
  memory that does not belong to the message, as many bytes as the peer's header says.
\<close>

theorem echo_overreads:
  "server_frame (message_bytes m @ extra) =
     (if extraLen m = 0 then Inr (Some (message_bytes m)) else Inl Out_Of_Bounds)"
  by (auto simp: server_frame_def codec_read_def codec_write_def MsgService_def sizeof_Message_def unat_gt_0)

section \<open>The dispatcher\<close>

text \<open>Promises are numbered in the order in which they are made; a resolved one is listed with its response.\<close>

record dispatcher =
  requests_map :: "(u64 \<times> nat) list"
  promises :: nat
  written :: "message_object list"
  resolved :: "(nat \<times> message_object) list"

definition dispatcher_start :: dispatcher where
  "dispatcher_start = \<lparr>requests_map = [], promises = 0, written = [], resolved = []\<rparr>"

text \<open>
  \<open>operator()\<close>: a new identifier gets a new promise; on one that is still in the map
  \<open>getFuture\<close> throws, since the future of that promise has been taken.
\<close>

definition dispatch :: "message_object \<Rightarrow> dispatcher \<Rightarrow> dispatcher result" where
  "dispatch msg d =
     (case map_of (requests_map d) (reqId (fst msg)) of
        Some p \<Rightarrow> Inl (Invalid_Argument ''FutureAlreadyRetrieved'')
      | None \<Rightarrow> Inr (d\<lparr>requests_map := (reqId (fst msg), promises d) # requests_map d,
                      promises := promises d + 1, written := written d @ [msg]\<rparr>))"

definition dispatcher_read :: "message_object \<Rightarrow> dispatcher \<Rightarrow> dispatcher result" where
  "dispatcher_read msg d =
     (case map_of (requests_map d) (reqId (fst msg)) of
        None \<Rightarrow> Inl Assert_Failed
      | Some p \<Rightarrow> Inr (d\<lparr>requests_map := filter (\<lambda>e. fst e \<noteq> reqId (fst msg)) (requests_map d),
                      resolved := resolved d @ [(p, msg)]\<rparr>))"

text \<open>The interrupt handler (a request that is cancelled).\<close>

definition dispatcher_interrupt :: "u64 \<Rightarrow> dispatcher \<Rightarrow> dispatcher" where
  "dispatcher_interrupt i d = d\<lparr>requests_map := filter (\<lambda>e. fst e \<noteq> i) (requests_map d)\<rparr>"

definition wangle_enter :: "message_object \<Rightarrow> dispatcher \<Rightarrow> dispatcher" where
  "wangle_enter msg d = (case dispatch msg d of Inl e \<Rightarrow> d | Inr d \<Rightarrow> d)"

definition msg_id :: "message_object \<Rightarrow> u64" where
  "msg_id msg = reqId (fst msg)"

definition dispatcher_pending :: "dispatcher \<Rightarrow> u64 set" where
  "dispatcher_pending d = fst ` set (requests_map d)"

text \<open>A promise belongs to the message with which it was made.\<close>

definition dispatcher_ok :: "dispatcher \<Rightarrow> bool" where
  "dispatcher_ok d \<longleftrightarrow>
     promises d = length (written d) \<and>
     (\<forall>(i, p) \<in> set (requests_map d). p < promises d \<and> msg_id (written d ! p) = i) \<and>
     (\<forall>(p, r) \<in> set (resolved d). p < promises d \<and> msg_id (written d ! p) = msg_id r) \<and>
     distinct (map snd (requests_map d) @ map fst (resolved d))"


lemma dispatch_fresh:
  "msg_id msg \<notin> dispatcher_pending d \<Longrightarrow>
     dispatch msg d = Inr (d\<lparr>requests_map := (msg_id msg, promises d) # requests_map d,
       promises := promises d + 1, written := written d @ [msg]\<rparr>)"
  by (auto simp: dispatch_def dispatcher_pending_def msg_id_def map_of_eq_None_iff split: option.splits
      dest: map_of_SomeD intro: rev_image_eqI)

lemma dispatcher_read_pending:
  assumes "msg_id msg \<in> dispatcher_pending d"
  shows "\<exists>p. (msg_id msg, p) \<in> set (requests_map d) \<and>
    dispatcher_read msg d = Inr (d\<lparr>requests_map := filter (\<lambda>e. fst e \<noteq> msg_id msg) (requests_map d),
      resolved := resolved d @ [(p, msg)]\<rparr>)"
proof -
  obtain p where p: "map_of (requests_map d) (msg_id msg) = Some p"
    using assms by (metis dispatcher_pending_def map_of_eq_None_iff not_None_eq)
  from map_of_SomeD [OF p] p show ?thesis by (auto simp: dispatcher_read_def msg_id_def)
qed

lemma enter_ok:
  assumes ok: "dispatcher_ok d" and fresh: "msg_id msg \<notin> dispatcher_pending d"
  shows "dispatcher_ok (wangle_enter msg d)"
proof -
  have eq: "wangle_enter msg d = d\<lparr>requests_map := (msg_id msg, promises d) # requests_map d,
       promises := promises d + 1, written := written d @ [msg]\<rparr>"
    by (simp add: wangle_enter_def dispatch_fresh [OF fresh])
  have old: "p < length (written d)" if "p \<in> set (map snd (requests_map d) @ map fst (resolved d))" for p
    using that ok by (auto simp: dispatcher_ok_def)
  have "distinct (promises d # map snd (requests_map d) @ map fst (resolved d))"
    using ok old [of "promises d"] by (auto simp: dispatcher_ok_def)
  moreover have "p < promises d + 1 \<and> msg_id ((written d @ [msg]) ! p) = i"
    if "(i, p) \<in> set (requests_map d)" for i p
    using that ok by (auto simp: dispatcher_ok_def nth_append)
  moreover have "p < promises d + 1 \<and> msg_id ((written d @ [msg]) ! p) = msg_id r"
    if "(p, r) \<in> set (resolved d)" for p r
    using that ok by (auto simp: dispatcher_ok_def nth_append)
  moreover have "promises d = length (written d)" using ok by (simp add: dispatcher_ok_def)
  ultimately show ?thesis by (auto simp: dispatcher_ok_def eq)
qed

lemma distinct_snd_filter: "distinct (map snd xs) \<Longrightarrow> distinct (map snd (filter P xs))"
  by (simp add: distinct_map_filter)

lemma dispatcher_ok_entry:
  "dispatcher_ok d \<Longrightarrow> (i, p) \<in> set (requests_map d) \<Longrightarrow> p < promises d \<and> msg_id (written d ! p) = i"
  unfolding dispatcher_ok_def by blast

lemma finish_ok:
  assumes ok: "dispatcher_ok d" and mem: "(msg_id msg, p) \<in> set (requests_map d)"
  shows "dispatcher_ok (d\<lparr>requests_map := filter (\<lambda>e. fst e \<noteq> msg_id msg) (requests_map d),
      resolved := resolved d @ [(p, msg)]\<rparr>)"
proof -
  let ?m = "filter (\<lambda>e. fst e \<noteq> msg_id msg) (requests_map d)"
  have dist: "distinct (map snd (requests_map d))" "distinct (map fst (resolved d))"
    "set (map snd (requests_map d)) \<inter> set (map fst (resolved d)) = {}"
    using ok by (simp_all add: dispatcher_ok_def)
  have p: "p \<in> set (map snd (requests_map d))" "p < promises d" "msg_id (written d ! p) = msg_id msg"
    using mem dispatcher_ok_entry [OF ok mem] by (auto simp: rev_image_eqI)
  have sub: "set (map snd ?m) \<subseteq> set (map snd (requests_map d))" by auto
  have "p \<notin> set (map snd ?m)"
  proof
    assume "p \<in> set (map snd ?m)"
    then obtain i where i: "(i, p) \<in> set (requests_map d)" "i \<noteq> msg_id msg" by auto
    with dispatcher_ok_entry [OF ok] have "msg_id (written d ! p) = i" by blast
    with i(2) p(3) show False by simp
  qed
  with dist p(1) sub have "distinct (map snd ?m @ map fst (resolved d @ [(p, msg)]))"
    by (auto simp: distinct_snd_filter)
  with ok p(2,3) show ?thesis by (auto simp: dispatcher_ok_def)
qed

interpretation wangle: completion_table wangle_enter msg_id dispatcher_read msg_id dispatcher_pending dispatcher_ok
proof
  fix d :: dispatcher and msg :: message_object
  assume "dispatcher_ok d" "msg_id msg \<notin> dispatcher_pending d"
  then show "dispatcher_ok (wangle_enter msg d) \<and> dispatcher_pending (wangle_enter msg d) = insert (msg_id msg) (dispatcher_pending d)"
    by (simp add: enter_ok) (simp add: wangle_enter_def dispatch_fresh dispatcher_pending_def)
next
  fix d :: dispatcher and msg :: message_object
  assume "dispatcher_ok d" "msg_id msg \<in> dispatcher_pending d"
  with dispatcher_read_pending [of msg d] finish_ok [of d msg]
  show "\<exists>t. dispatcher_read msg d = Inr t \<and> dispatcher_ok t \<and> dispatcher_pending t = dispatcher_pending d - {msg_id msg}"
    by (fastforce simp: dispatcher_pending_def)
next
  fix d :: dispatcher and msg :: message_object
  assume "msg_id msg \<notin> dispatcher_pending d"
  then show "\<exists>e. dispatcher_read msg d = Inl e"
    by (auto simp: dispatcher_read_def dispatcher_pending_def msg_id_def map_of_eq_None_iff split: option.splits
        dest: map_of_SomeD intro: rev_image_eqI)
qed

text \<open>
  The dispatcher: if identifiers are not reused while in use and only outstanding requests are
  answered, then in any order of requests and responses no check fails, every promise is resolved at
  most once, with a response that carries the identifier of its own request, and the map holds
  exactly the requests not yet answered.
\<close>

theorem dispatcher_matches:
  assumes "allowed msg_id msg_id ops {}"
  shows "\<exists>d. foldE (table_step wangle_enter dispatcher_read) ops dispatcher_start = Inr d \<and>
    (\<forall>(p, r) \<in> set (resolved d). p < length (written d) \<and> reqId (fst (written d ! p)) = reqId (fst r)) \<and>
    distinct (map fst (resolved d)) \<and> fst ` set (requests_map d) = pending_after msg_id msg_id ops {}"
proof -
  have start: "dispatcher_ok dispatcher_start" "dispatcher_pending dispatcher_start = {}"
    by (simp_all add: dispatcher_ok_def dispatcher_start_def dispatcher_pending_def)
  from wangle.allowed_run [OF start(1), of ops] assms start(2) obtain d where
    d: "foldE (table_step wangle_enter dispatcher_read) ops dispatcher_start = Inr d" "dispatcher_ok d"
      "dispatcher_pending d = pending_after msg_id msg_id ops {}"
    by auto
  then show ?thesis by (auto simp: dispatcher_ok_def dispatcher_pending_def msg_id_def)
qed

definition demo_message :: "u64 \<Rightarrow> message_object" where
  "demo_message i = (\<lparr>reqId = i, extraLen = 0, client_send = 0, client_resp = 0\<rparr>, [])"

theorem dispatcher_matches_witness:
  "\<exists>d. foldE (table_step wangle_enter dispatcher_read)
      [Enter (demo_message 1), Enter (demo_message 2), Finish (demo_message 2), Enter (demo_message 3)] dispatcher_start = Inr d \<and>
     fst ` set (requests_map d) = {1, 3}"
  using dispatcher_matches [of "[Enter (demo_message 1), Enter (demo_message 2), Finish (demo_message 2), Enter (demo_message 3)]"]
  by (force simp: demo_message_def msg_id_def)


section \<open>The measuring loop\<close>

text \<open>
  Each data size is measured for five seconds, one request at a time; the input lists, per size, what
  came of each request: the identifier and latency of a response, or none if its future ended with an exception.
  \<open>latency\<close> and \<open>count\<close> are set to 0 once, before the sizes.
\<close>

record measure =
  seq :: int
  latency :: u64
  count :: u64

definition measure_start :: measure where
  "measure_start = \<lparr>seq = 1, latency = 0, count = 0\<rparr>"

definition measure_one :: "(u64 \<times> int) option \<Rightarrow> measure \<Rightarrow> measure result" where
  "measure_one outcome m =
     (let i = (of_int (seq m) :: u64) in
      if seq m = 2147483647 then Inl Signed_Overflow
      else
        let m = m\<lparr>seq := seq m + 1\<rparr> in
        (case outcome of
           None \<Rightarrow> Inr m
         | Some (resp_id, cl) \<Rightarrow>
             assertE (i = resp_id) (Inr (m\<lparr>latency := latency m + of_int cl, count := count m + 1\<rparr>))))"

fun measure_sizes :: "(int \<times> (u64 \<times> int) option list) list \<Rightarrow> measure \<Rightarrow> (int \<times> u64) list result" where
  "measure_sizes [] m = Inr []"
| "measure_sizes ((datasize, outcomes) # rest) m =
     bindE (foldE measure_one outcomes m) (\<lambda>m.
       if count m = 0 then Inl Div_By_Zero
       else bindE (measure_sizes rest m) (\<lambda>out. Inr ((datasize, latency m div count m) # out)))"

definition client_sizes :: "int list" where
  "client_sizes = [1024, 4 * 1024, 8 * 1024, 16 * 1024, 64 * 1024]"

text \<open>The latencies of the answered requests of a size, and a run's measurements with identifiers filled in.\<close>

definition samples :: "(u64 \<times> int) option list \<Rightarrow> int list" where
  "samples outcomes = map snd (List.map_filter (\<lambda>x. x) outcomes)"

fun numbered :: "nat \<Rightarrow> int option list \<Rightarrow> (u64 \<times> int) option list" where
  "numbered n [] = []"
| "numbered n (x # xs) = map_option (\<lambda>l. (of_nat n, l)) x # numbered (Suc n) xs"

lemma samples_numbered: "samples (numbered n xs) = List.map_filter (\<lambda>x. x) xs"
  by (induction n xs rule: numbered.induct) (auto simp: samples_def map_filter_simps split: option.splits)

lemma measure_numbered:
  "int n + int (length xs) < 2147483648 \<Longrightarrow> seq m = int n \<Longrightarrow>
     foldE measure_one (numbered n xs) m =
       Inr \<lparr>seq = int n + int (length xs), latency = latency m + of_int (sum_list (List.map_filter (\<lambda>x. x) xs)),
            count = count m + of_nat (length (List.map_filter (\<lambda>x. x) xs))\<rparr>"
proof (induction n xs arbitrary: m rule: numbered.induct)
  case (2 n x xs)
  have s: "seq m \<noteq> 2147483647" using 2(2,3) by simp
  show ?case
  proof (cases x)
    case None
    with 2 s show ?thesis by (simp add: measure_one_def map_filter_simps Let_def)
  next
    case (Some l)
    with 2 s show ?thesis by (simp add: measure_one_def map_filter_simps Let_def algebra_simps)
  qed
qed (simp add: map_filter_simps)

text \<open>All samples up to and including a size.\<close>

fun numbered_sizes :: "nat \<Rightarrow> (int \<times> int option list) list \<Rightarrow> (int \<times> (u64 \<times> int) option list) list" where
  "numbered_sizes n [] = []"
| "numbered_sizes n ((d, xs) # rest) = (d, numbered n xs) # numbered_sizes (n + length xs) rest"

fun cumulative :: "int list \<Rightarrow> (int \<times> int option list) list \<Rightarrow> (int \<times> u64) list" where
  "cumulative acc [] = []"
| "cumulative acc ((d, xs) # rest) =
     (let acc = acc @ List.map_filter (\<lambda>x. x) xs in
      (d, of_int (sum_list acc) div of_nat (length acc)) # cumulative acc rest)"

definition total_requests :: "(int \<times> int option list) list \<Rightarrow> nat" where
  "total_requests groups = sum_list (map (\<lambda>g. length (snd g)) groups)"

lemma measure_sizes_from:
  assumes "int n + int (total_requests groups) < 2147483648" and "seq m = int n"
    and "latency m = of_int (sum_list acc)" and "count m = of_nat (length acc)"
    and "length acc + total_requests groups < 2147483648"
    and "groups \<noteq> [] \<longrightarrow> acc @ List.map_filter (\<lambda>x. x) (snd (hd groups)) \<noteq> []"
  shows "measure_sizes (numbered_sizes n groups) m = Inr (cumulative acc groups)"
  using assms
proof (induction n groups arbitrary: m acc rule: numbered_sizes.induct)
  case (2 n d xs rest)
  let ?acc = "acc @ List.map_filter (\<lambda>x. x) xs"
  let ?m = "\<lparr>seq = int n + int (length xs), latency = latency m + of_int (sum_list (List.map_filter (\<lambda>x. x) xs)),
            count = count m + of_nat (length (List.map_filter (\<lambda>x. x) xs))\<rparr>"
  have run: "foldE measure_one (numbered n xs) m = Inr ?m"
    by (rule measure_numbered) (use 2(2,3) in \<open>simp_all add: total_requests_def\<close>)
  have le: "length (List.map_filter (\<lambda>x. x) xs) \<le> length xs"
    by (simp add: List.map_filter_def)
  then have len: "length ?acc < 2 ^ 64" using 2(6) by (simp add: total_requests_def)
  then have "unat (of_nat (length ?acc) :: u64) = length ?acc" by (rule unat_of_nat_u64)
  moreover have "?acc \<noteq> []" using 2(7) by simp
  ultimately have nz: "(of_nat (length ?acc) :: u64) \<noteq> 0" by (metis length_0_conv unat_0)
  have c: "count ?m = of_nat (length ?acc)" "latency ?m = of_int (sum_list ?acc)"
    using 2(4,5) by simp_all
  have "measure_sizes (numbered_sizes (n + length xs) rest) ?m = Inr (cumulative ?acc rest)"
    by (rule 2(1)) (use 2(2,6,7) c le in \<open>auto simp: total_requests_def\<close>)
  with run nz c show ?case by (simp add: Let_def)
qed simp

text \<open>
  What the message client prints for a size is not that size's average: with responses that match their
  requests, and at least one for the first size, the line of each size is the average over all
  samples of this and of all smaller sizes, because the totals are never set back.
\<close>

theorem printed_averages_cumulative:
  assumes "total_requests groups < 2147483647" and "groups \<noteq> []" and "List.map_filter (\<lambda>x. x) (snd (hd groups)) \<noteq> []"
  shows "measure_sizes (numbered_sizes 1 groups) measure_start = Inr (cumulative [] groups)"
  by (rule measure_sizes_from) (use assms in \<open>simp_all add: measure_start_def\<close>)

theorem printed_averages_cumulative_witness:
  "measure_sizes (numbered_sizes 1 [(1024, [Some 10, None, Some 20]), (4096, [Some 90])]) measure_start =
     Inr [(1024, 15), (4096, 40)]"
  using printed_averages_cumulative [of "[(1024, [Some 10, None, Some 20]), (4096, [Some 90])]"]
  by (simp add: total_requests_def map_filter_simps Let_def)

text \<open>
  If no request of the first size is answered, the client divides by zero.
\<close>

theorem no_answer_divides_by_zero:
  assumes "length xs < 2147483647" and "List.map_filter (\<lambda>x. x) xs = []"
  shows "measure_sizes (numbered_sizes 1 ((d, xs) # rest)) measure_start = Inl Div_By_Zero"
proof -
  have "foldE measure_one (numbered 1 xs) measure_start =
      Inr \<lparr>seq = int 1 + int (length xs), latency = latency measure_start + of_int (sum_list (List.map_filter (\<lambda>x. x) xs)),
           count = count measure_start + of_nat (length (List.map_filter (\<lambda>x. x) xs))\<rparr>"
    by (rule measure_numbered) (use assms(1) in \<open>simp_all add: measure_start_def\<close>)
  then show ?thesis by (simp add: assms(2) measure_start_def)
qed

theorem no_answer_divides_by_zero_witness:
  "measure_sizes (numbered_sizes 1 [(1024, [None])]) measure_start = Inl Div_By_Zero"
  by (rule no_answer_divides_by_zero) (simp_all add: map_filter_simps)

end
