(* ===== verification/WangleRun.thy ===== *)
theory WangleRun
  imports Wangle
begin

text \<open>
  The message programs of \<open>wangle\<close> put together: the client's \<open>main\<close> sends a message through its dispatcher and
  its pipeline, the server's pipeline reads it, its service returns it, and it comes back to the dispatcher and to
  the continuation that measures. The handlers that put a length before each frame and cut the stream at them are the library's
  (\<open>LengthFieldPrepender\<close>, \<open>LengthFieldBasedFrameDecoder\<close>) and are parameters.
\<close>

section \<open>The pipelines\<close>

text \<open>
  What the two handlers of the library promise: a stream of frames, each preceded by its length of four bytes, is cut into the
  same frames.
\<close>

definition framing :: "(bytes \<Rightarrow> bytes) \<Rightarrow> (bytes \<Rightarrow> bytes list) \<Rightarrow> bool" where
  "framing prepend decode \<longleftrightarrow> (\<forall>fs. (\<forall>f \<in> set fs. length f < 4294967296) \<longrightarrow> decode (concat (map prepend fs)) = fs)"

text \<open>A message written passes the codec and the prepender; what is read passes the decoder and the codec.\<close>

definition pipeline_write :: "(bytes \<Rightarrow> bytes) \<Rightarrow> message_object \<Rightarrow> bytes result" where
  "pipeline_write prepend msg = bindE (codec_write msg) (\<lambda>b. Inr (prepend b))"

definition pipeline_read :: "(bytes \<Rightarrow> bytes list) \<Rightarrow> bytes \<Rightarrow> message_object list result" where
  "pipeline_read decode stream =
     foldE (\<lambda>f ms. bindE (codec_read (Some f)) (\<lambda>m. Inr (ms @ (case m of None \<Rightarrow> [] | Some m \<Rightarrow> [m])))) (decode stream) []"

text \<open>A connection of the server: each message read is given to the service, whose result is written.\<close>

definition server_conn :: "(bytes \<Rightarrow> bytes) \<Rightarrow> (bytes \<Rightarrow> bytes list) \<Rightarrow> bytes \<Rightarrow> bytes list result" where
  "server_conn prepend decode stream =
     bindE (pipeline_read decode stream) (\<lambda>ms.
       foldE (\<lambda>m out. bindE (pipeline_write prepend (MsgService m)) (\<lambda>b. Inr (out @ [b]))) ms [])"

text \<open>The client's side: the messages sent, and what arrives, which goes to the dispatcher.\<close>

definition client_send_all :: "(bytes \<Rightarrow> bytes) \<Rightarrow> message_object list \<Rightarrow> dispatcher \<Rightarrow> (dispatcher \<times> bytes) result" where
  "client_send_all prepend msgs d =
     foldE (\<lambda>m (d, w). bindE (dispatch m d) (\<lambda>d. bindE (pipeline_write prepend m) (\<lambda>b. Inr (d, w @ b)))) msgs (d, [])"

definition client_conn :: "(bytes \<Rightarrow> bytes list) \<Rightarrow> bytes \<Rightarrow> dispatcher \<Rightarrow> dispatcher result" where
  "client_conn decode stream d = bindE (pipeline_read decode stream) (\<lambda>ms. foldE dispatcher_read ms d)"

section \<open>The client's main\<close>

text \<open>The message of a round: its header, and uninitialised bytes behind it.\<close>

definition wangle_message :: "int \<Rightarrow> int \<Rightarrow> bytes \<Rightarrow> int \<Rightarrow> message_object" where
  "wangle_message datasize i heap now =
     Message_new heap (of_int datasize) \<lparr>reqId = of_int i, extraLen = 0, client_send = of_int now, client_resp = 0\<rparr>"

text \<open>
  A round: the input is the memory behind the message, the time at which it is sent and that at which its
  continuation runs. The continuation is that of the promise made for it.
\<close>

definition wangle_round ::
  "(bytes \<Rightarrow> bytes) \<Rightarrow> (bytes \<Rightarrow> bytes list) \<Rightarrow> int \<Rightarrow> bytes \<times> int \<times> int \<Rightarrow> measure \<times> dispatcher \<Rightarrow> (measure \<times> dispatcher) result" where
  "wangle_round prepend decode datasize inp st =
     (case inp of (heap, now, t) \<Rightarrow> case st of (m, d) \<Rightarrow>
        if seq m = 2147483647 then Inl Signed_Overflow
        else
          let msg = wangle_message datasize (seq m) heap now; p = promises d in
          bindE (client_send_all prepend [msg] d) (\<lambda>(d, w).
          bindE (server_conn prepend decode w) (\<lambda>out.
          bindE (client_conn decode (concat out) d) (\<lambda>d.
          bindE (measure_one (map_option (\<lambda>r. (reqId (fst r), t - sint (client_send (fst r)))) (map_of (resolved d) p)) m) (\<lambda>m.
          Inr (m, d))))))"

fun wangle_main ::
  "(bytes \<Rightarrow> bytes) \<Rightarrow> (bytes \<Rightarrow> bytes list) \<Rightarrow> (int \<times> (bytes \<times> int \<times> int) list) list \<Rightarrow> measure \<times> dispatcher \<Rightarrow>
   (int \<times> u64) list result" where
  "wangle_main prepend decode [] st = Inr []"
| "wangle_main prepend decode ((datasize, inps) # rest) st =
     bindE (foldE (wangle_round prepend decode datasize) inps st) (\<lambda>(m, d).
       if count m = 0 then Inl Div_By_Zero
       else bindE (wangle_main prepend decode rest (m, d)) (\<lambda>out. Inr ((datasize, latency m div count m) # out)))"

section \<open>Messages without payload\<close>

lemma codec_write_header: "extraLen (fst m) = 0 \<Longrightarrow> codec_write m = Inr (message_bytes (fst m))"
  by (cases m) (simp add: codec_write_def)

lemma codec_read_frame: "codec_read (Some (message_bytes m @ rest)) = Inr (Some (m, []))"
  by (simp add: codec_read_def sizeof_Message_def)

lemma pipeline_read_snoc:
  "foldE (\<lambda>f ms. bindE (codec_read (Some f)) (\<lambda>m. Inr (ms @ (case m of None \<Rightarrow> [] | Some m \<Rightarrow> [m]))))
     (map (\<lambda>(m, e). message_bytes m @ e) mes) acc = Inr (acc @ map (\<lambda>(m, e). (m, [])) mes)"
  by (induction mes arbitrary: acc) (auto simp: codec_read_frame)

lemma pipeline_read_frames:
  assumes fr: "framing prepend decode" and small: "\<forall>(m, e) \<in> set mes. length e < 4294967264"
  shows "pipeline_read decode (concat (map prepend (map (\<lambda>(m, e). message_bytes m @ e) mes))) = Inr (map (\<lambda>(m, e). (m, [])) mes)"
proof -
  have "decode (concat (map prepend (map (\<lambda>(m, e). message_bytes m @ e) mes))) = map (\<lambda>(m, e). message_bytes m @ e) mes"
    by (rule mp [OF spec [OF fr [unfolded framing_def]]]) (use small in auto)
  then show ?thesis using pipeline_read_snoc [of mes "[]"] by (simp add: pipeline_read_def)
qed

lemma server_conn_headers:
  assumes fr: "framing prepend decode" and h: "\<forall>m \<in> set ms. extraLen m = 0"
  shows "server_conn prepend decode (concat (map (\<lambda>m. prepend (message_bytes m)) ms)) = Inr (map (\<lambda>m. prepend (message_bytes m)) ms)"
proof -
  have "pipeline_read decode (concat (map (\<lambda>m. prepend (message_bytes m)) ms)) = Inr (map (\<lambda>m. (m, [])) ms)"
    using pipeline_read_frames [OF fr, of "map (\<lambda>m. (m, [])) ms"] by (simp add: comp_def split_beta)
  moreover have "foldE (\<lambda>m out. bindE (pipeline_write prepend (MsgService m)) (\<lambda>b. Inr (out @ [b]))) (map (\<lambda>m. (m, [])) ms) acc =
      Inr (acc @ map (\<lambda>m. prepend (message_bytes m)) ms)" for acc
    using h by (induction ms arbitrary: acc) (simp_all add: pipeline_write_def MsgService_def codec_write_header)
  ultimately show ?thesis by (simp add: server_conn_def)
qed

lemma client_send_all_ok:
  assumes "dispatcher_ok d" and "distinct (map msg_id msgs)" and "msg_id ` set msgs \<inter> dispatcher_pending d = {}"
    and "\<forall>m \<in> set msgs. extraLen (fst m) = 0"
  shows "\<exists>d'. client_send_all prepend msgs d = Inr (d', concat (map (\<lambda>m. prepend (message_bytes (fst m))) msgs)) \<and>
    dispatcher_ok d' \<and> written d' = written d @ msgs \<and> resolved d' = resolved d \<and>
    dispatcher_pending d' = dispatcher_pending d \<union> msg_id ` set msgs"
proof -
  have "\<exists>d'. foldE (\<lambda>m (d, w). bindE (dispatch m d) (\<lambda>d. bindE (pipeline_write prepend m) (\<lambda>b. Inr (d, w @ b)))) msgs (d, w) =
        Inr (d', w @ concat (map (\<lambda>m. prepend (message_bytes (fst m))) msgs)) \<and>
      dispatcher_ok d' \<and> written d' = written d @ msgs \<and> resolved d' = resolved d \<and>
      dispatcher_pending d' = dispatcher_pending d \<union> msg_id ` set msgs" for w
    using assms
  proof (induction msgs arbitrary: d w)
    case (Cons m msgs)
    have fresh: "msg_id m \<notin> dispatcher_pending d" using Cons.prems(3) by simp
    let ?d = "wangle_enter m d"
    have e: "dispatch m d = Inr ?d" "written ?d = written d @ [m]" "resolved ?d = resolved d"
      "dispatcher_pending ?d = insert (msg_id m) (dispatcher_pending d)"
      by (simp_all add: wangle_enter_def dispatch_fresh [OF fresh] dispatcher_pending_def)
    have w: "pipeline_write prepend m = Inr (prepend (message_bytes (fst m)))"
      using Cons.prems(4) by (simp add: pipeline_write_def codec_write_header)
    have "msg_id ` set msgs \<inter> dispatcher_pending ?d = {}" using Cons.prems(2,3) by (auto simp: e(4))
    from Cons.IH [OF enter_ok [OF Cons.prems(1) fresh] _ this, of "w @ prepend (message_bytes (fst m))"] Cons.prems(2,4)
    show ?case by (auto simp: e w)
  qed simp
  from this [of "[]"] show ?thesis by (simp add: client_send_all_def)
qed

lemma reads_resolved:
  "foldE dispatcher_read rs d = Inr t \<Longrightarrow> written t = written d \<and> map snd (resolved t) = map snd (resolved d) @ rs"
proof (induction rs arbitrary: d)
  case (Cons r rs)
  then obtain u where u: "dispatcher_read r d = Inr u" "foldE dispatcher_read rs u = Inr t" by (auto simp: result_simps)
  then have "written u = written d" "map snd (resolved u) = map snd (resolved d) @ [r]"
    by (auto simp: dispatcher_read_def split: option.splits)
  with Cons.IH [OF u(2)] show ?case by simp
qed simp

lemma mset_map_split: "mset ys = mset (map f xs) \<Longrightarrow> \<exists>zs. mset zs = mset xs \<and> ys = map f zs"
proof (induction ys arbitrary: xs)
  case (Cons y ys)
  then have "y \<in> set (map f xs)" by (metis list.set_intros(1) mset_eq_setD)
  then obtain x where x: "x \<in> set xs" "y = f x" by auto
  have "mset ys = mset (map f (remove1 x xs))" using Cons.prems x by (simp add: image_mset_Diff) (metis add_mset_remove_trivial)
  from Cons.IH [OF this] obtain zs where "mset zs = mset (remove1 x xs)" "ys = map f zs" by blast
  with x show ?case by (intro exI [of _ "x # zs"]) simp
qed simp

text \<open>
  C36. Messages without payload survive the whole way. Of any list of messages with different identifiers, sent without
  waiting, the server answers each; whatever the order in which its threads answer, the client's dispatcher resolves every promise
  once, with the header that was sent for it, no check fails, and nothing is left waiting.
\<close>

theorem wangle_pipelined:
  assumes "framing prepend decode" and "distinct (map (\<lambda>m. reqId (fst m)) msgs)" and "\<forall>m \<in> set msgs. extraLen (fst m) = 0"
  shows "\<exists>d w out. client_send_all prepend msgs dispatcher_start = Inr (d, w) \<and> server_conn prepend decode w = Inr out \<and>
    (\<forall>out'. mset out' = mset out \<longrightarrow>
      (\<exists>t. client_conn decode (concat out') d = Inr t \<and> requests_map t = [] \<and> distinct (map fst (resolved t)) \<and>
        length (resolved t) = length msgs \<and> (\<forall>(p, r) \<in> set (resolved t). p < length msgs \<and> r = (fst (msgs ! p), []))))"
proof -
  let ?f = "\<lambda>m. prepend (message_bytes m)"
  have start: "dispatcher_ok dispatcher_start" "dispatcher_pending dispatcher_start = {}" "resolved dispatcher_start = []"
    "written dispatcher_start = []"
    by (simp_all add: dispatcher_ok_def dispatcher_start_def dispatcher_pending_def)
  have ids: "distinct (map msg_id msgs)" using assms(2) by (simp add: msg_id_def [abs_def])
  from client_send_all_ok [OF start(1) ids _ assms(3), of prepend] obtain d where
    d: "client_send_all prepend msgs dispatcher_start = Inr (d, concat (map (\<lambda>m. ?f (fst m)) msgs))" "dispatcher_ok d"
      "written d = msgs" "resolved d = []" "dispatcher_pending d = msg_id ` set msgs"
    by (auto simp: start(2-4))
  have out: "server_conn prepend decode (concat (map (\<lambda>m. ?f (fst m)) msgs)) = Inr (map ?f (map fst msgs))"
    using server_conn_headers [OF assms(1), of "map fst msgs"] assms(3) by (simp add: comp_def)
  have "\<exists>t. client_conn decode (concat out') d = Inr t \<and> requests_map t = [] \<and> distinct (map fst (resolved t)) \<and>
        length (resolved t) = length msgs \<and> (\<forall>(p, r) \<in> set (resolved t). p < length msgs \<and> r = (fst (msgs ! p), []))"
    if out': "mset out' = mset (map ?f (map fst msgs))" for out'
  proof -
    obtain ms where ms: "mset ms = mset (map fst msgs)" "out' = map ?f ms" using mset_map_split [OF out'] by blast
    let ?rs = "map (\<lambda>m. (m, [])) ms"
    have read: "pipeline_read decode (concat out') = Inr ?rs"
      using pipeline_read_frames [OF assms(1), of ?rs] by (simp add: ms(2) comp_def split_beta)
    have "mset (map msg_id ?rs) = image_mset reqId (mset ms)" by (simp add: msg_id_def comp_def)
    also have "\<dots> = mset (map msg_id msgs)" by (simp add: ms(1) msg_id_def [abs_def] comp_def image_mset.compositionality)
    finally have perm: "mset (map msg_id ?rs) = mset (map msg_id msgs)" .
    then have "distinct (map msg_id ?rs)" "msg_id ` set ?rs = dispatcher_pending d"
      using ids d(5) by (metis mset_eq_imp_distinct_iff) (metis d(5) list.set_map mset_eq_setD perm)
    then obtain t where t: "foldE dispatcher_read ?rs d = Inr t" using wangle.foldE_succeeds [OF d(2)] by blast
    note after = wangle.foldE_allowed [OF d(2) t] reads_resolved [OF t]
    have "dispatcher_pending t = {}" using after(1) d(5) \<open>msg_id ` set ?rs = dispatcher_pending d\<close> by simp
    then have none: "requests_map t = []" by (simp add: dispatcher_pending_def)
    have ok: "dispatcher_ok t" using after(1) by blast
    have "p < length msgs \<and> r = (fst (msgs ! p), [])" if mem: "(p, r) \<in> set (resolved t)" for p r
    proof -
      have p: "p < length msgs" "msg_id (msgs ! p) = msg_id r" using ok mem after(2) d(3) by (auto simp: dispatcher_ok_def)
      have "r \<in> set (map snd (resolved t))" using mem by force
      then have "r \<in> set ?rs" using after(2) d(4) by simp
      then obtain m where m: "r = (m, [])" "m \<in> set ms" by auto
      then have "m \<in> fst ` set msgs" using mset_eq_setD [OF ms(1)] by simp
      then obtain q where q: "q < length msgs" "m = fst (msgs ! q)" by (auto simp: in_set_conv_nth)
      have "msg_id (msgs ! q) = msg_id (msgs ! p)" using p(2) m(1) q(2) by (simp add: msg_id_def)
      then have "q = p" using ids q(1) p(1) by (simp add: distinct_conv_nth) metis
      with p(1) m(1) q(2) show ?thesis by simp
    qed
    moreover have "length (resolved t) = length msgs"
      using arg_cong [OF conjunct2 [OF after(2)], of length] d(4) mset_eq_length [OF ms(1)] by simp
    ultimately show ?thesis using read t none ok by (auto simp: client_conn_def dispatcher_ok_def)
  qed
  with d(1) out show ?thesis by blast
qed

section \<open>The measuring loop against the server\<close>

lemma sint_of_int_64: "- 9223372036854775808 \<le> i \<Longrightarrow> i < 9223372036854775808 \<Longrightarrow> sint (of_int i :: u64) = i"
  by (simp add: signed_of_int signed_take_bit_int_eq_self)

lemma wangle_round_ok:
  assumes fr: "framing prepend decode" and ok: "dispatcher_ok d" and none: "requests_map d = []" and s: "seq m \<noteq> 2147483647"
    and now: "- 9223372036854775808 \<le> now" "now < 9223372036854775808"
  shows "\<exists>d'. wangle_round prepend decode 0 (heap, now, t) (m, d) =
      bindE (measure_one (Some (of_int (seq m), t - now)) m) (\<lambda>m. Inr (m, d')) \<and>
    dispatcher_ok d' \<and> requests_map d' = [] \<and> resolved d' = resolved d @ [(promises d, (fst (wangle_message 0 (seq m) heap now), []))]"
proof -
  let ?msg = "wangle_message 0 (seq m) heap now"
  let ?h = "fst ?msg"
  have h: "extraLen ?h = 0" "reqId ?h = of_int (seq m)" "client_send ?h = of_int now"
    by (simp_all add: wangle_message_def Message_new_def)
  have "dispatcher_pending d = {}" by (simp add: dispatcher_pending_def none)
  then have fresh: "msg_id ?msg \<notin> dispatcher_pending d" "\<And>r. msg_id r \<notin> dispatcher_pending d" by simp_all
  let ?d = "d\<lparr>requests_map := [(msg_id ?msg, promises d)], promises := promises d + 1, written := written d @ [?msg]\<rparr>"
  have ok1: "dispatcher_ok ?d" using enter_ok [OF ok fresh(1)] by (simp add: wangle_enter_def dispatch_fresh [OF fresh(1)] none)
  have send: "client_send_all prepend [?msg] d = Inr (?d, prepend (message_bytes ?h))"
    using codec_write_header [of ?msg] h(1)
    by (simp add: client_send_all_def dispatch_fresh [OF fresh(1)] none pipeline_write_def)
  have serve: "server_conn prepend decode (prepend (message_bytes ?h)) = Inr [prepend (message_bytes ?h)]"
    using server_conn_headers [OF fr, of "[?h]"] h(1) by simp
  let ?d' = "?d\<lparr>requests_map := [], resolved := resolved d @ [(promises d, (?h, []))]\<rparr>"
  have "dispatcher_read (?h, []) ?d = Inr ?d'" by (simp add: dispatcher_read_def msg_id_def)
  then have conn: "client_conn decode (concat [prepend (message_bytes ?h)]) ?d = Inr ?d'"
    using pipeline_read_frames [OF fr, of "[(?h, [])]"] by (simp add: client_conn_def)
  have ok2: "dispatcher_ok ?d'" using finish_ok [OF ok1, of "(?h, [])" "promises d"] by (simp add: msg_id_def)
  have "promises d \<notin> fst ` set (resolved d)" using ok by (auto simp: dispatcher_ok_def)
  then have "map_of (resolved ?d') (promises d) = Some (?h, [])" by (simp add: map_of_append map_add_def map_of_eq_None_iff [THEN iffD2])
  then have "wangle_round prepend decode 0 (heap, now, t) (m, d) = bindE (measure_one (Some (of_int (seq m), t - now)) m) (\<lambda>m. Inr (m, ?d'))"
    using s send serve conn h(2,3) sint_of_int_64 [OF now] by (simp add: wangle_round_def Let_def)
  with ok2 show ?thesis by (intro exI [of _ ?d']) simp
qed

text \<open>The outcomes that the loop sees, as the measuring loop takes them.\<close>

definition latencies :: "(bytes \<times> int \<times> int) list \<Rightarrow> int option list" where
  "latencies inps = map (\<lambda>(heap, now, t). Some (t - now)) inps"

lemma wangle_rounds_ok:
  assumes fr: "framing prepend decode" and "dispatcher_ok d" and "requests_map d = []" and "seq m = int n"
    and "int n + int (length inps) < 2147483648"
    and "\<forall>(heap, now, t) \<in> set inps. - 9223372036854775808 \<le> now \<and> now < 9223372036854775808"
  shows "\<exists>m' d'. foldE (wangle_round prepend decode 0) inps (m, d) = Inr (m', d') \<and>
    foldE measure_one (numbered n (latencies inps)) m = Inr m' \<and> seq m' = int (n + length inps) \<and>
    dispatcher_ok d' \<and> requests_map d' = [] \<and> length (resolved d') = length (resolved d) + length inps"
  using assms(2-)
proof (induction inps arbitrary: d m n)
  case (Cons inp inps)
  obtain heap now t where inp: "inp = (heap, now, t)" by (cases inp)
  have now: "- 9223372036854775808 \<le> now" "now < 9223372036854775808" and s: "seq m \<noteq> 2147483647"
    using Cons.prems(3-5) by (auto simp: inp)
  from wangle_round_ok [OF fr Cons.prems(1,2) s now, of heap t] obtain d1 where
    d1: "wangle_round prepend decode 0 inp (m, d) = bindE (measure_one (Some (of_int (seq m), t - now)) m) (\<lambda>m. Inr (m, d1))"
      "dispatcher_ok d1" "requests_map d1 = []" "length (resolved d1) = Suc (length (resolved d))"
    by (auto simp: inp)
  have "\<exists>m1. measure_one (Some (of_int (seq m), t - now)) m = Inr m1 \<and> seq m1 = int (Suc n)"
    using s Cons.prems(3) by (simp add: measure_one_def Let_def)
  then obtain m1 where m1: "measure_one (Some (of_int (seq m), t - now)) m = Inr m1" "seq m1 = int (Suc n)" by blast
  have "\<exists>m' d'. foldE (wangle_round prepend decode 0) inps (m1, d1) = Inr (m', d') \<and>
      foldE measure_one (numbered (Suc n) (latencies inps)) m1 = Inr m' \<and> seq m' = int (Suc n + length inps) \<and>
      dispatcher_ok d' \<and> requests_map d' = [] \<and> length (resolved d') = length (resolved d1) + length inps"
    by (rule Cons.IH [OF d1(2,3) m1(2)]) (use Cons.prems(4,5) in simp_all)
  with d1 m1 Cons.prems(3) show ?case by (auto simp: latencies_def inp)
qed (simp add: latencies_def)

text \<open>With data sizes 0, the whole program is the measuring loop with every request answered.\<close>

lemma wangle_main_measures:
  assumes fr: "framing prepend decode" and "dispatcher_ok d" and "requests_map d = []" and "seq m = int n"
    and "int n + int (total_requests (map (\<lambda>g. (0, latencies (snd g))) groups)) < 2147483648"
    and "\<forall>g \<in> set groups. fst g = 0 \<and> (\<forall>(heap, now, t) \<in> set (snd g). - 9223372036854775808 \<le> now \<and> now < 9223372036854775808)"
  shows "wangle_main prepend decode groups (m, d) = measure_sizes (numbered_sizes n (map (\<lambda>g. (0, latencies (snd g))) groups)) m"
  using assms(2-)
proof (induction groups arbitrary: d m n)
  case (Cons g groups)
  obtain inps where g: "g = (0, inps)" using Cons.prems(5) by (cases g) auto
  have "\<exists>m' d'. foldE (wangle_round prepend decode 0) inps (m, d) = Inr (m', d') \<and>
    foldE measure_one (numbered n (latencies inps)) m = Inr m' \<and> seq m' = int (n + length inps) \<and>
    dispatcher_ok d' \<and> requests_map d' = [] \<and> length (resolved d') = length (resolved d) + length inps"
    by (rule wangle_rounds_ok [OF fr Cons.prems(1-3)]) (use Cons.prems(4,5) in \<open>auto simp: g total_requests_def latencies_def\<close>)
  then obtain m' d' where r: "foldE (wangle_round prepend decode 0) inps (m, d) = Inr (m', d')"
    "foldE measure_one (numbered n (latencies inps)) m = Inr m'" "seq m' = int (n + length inps)"
    "dispatcher_ok d'" "requests_map d' = []" by blast
  have len: "length (latencies inps) = length inps" by (simp add: latencies_def)
  have "wangle_main prepend decode groups (m', d') =
      measure_sizes (numbered_sizes (n + length inps) (map (\<lambda>g. (0, latencies (snd g))) groups)) m'"
    by (rule Cons.IH [OF r(4,5,3)]) (use Cons.prems(4,5) in \<open>auto simp: g total_requests_def len\<close>)
  with r(1,2) show ?case by (simp add: g len)
qed simp



section \<open>A framing\<close>

text \<open>The library's default: four bytes of length, most significant first.\<close>

definition prepend_length :: "bytes \<Rightarrow> bytes" where
  "prepend_length f = rev (le_bytes 4 (of_nat (length f))) @ f"

function cut_frames :: "bytes \<Rightarrow> bytes list" where
  "cut_frames b =
     (if length b < 4 then []
      else
        let n = unat (le_word (rev (take 4 b))) in
        if length b < 4 + n then [] else take n (drop 4 b) # cut_frames (drop (4 + n) b))"
  by pat_completeness auto
termination
  by (relation "measure length") auto

declare cut_frames.simps [simp del]

lemma cut_prepend:
  assumes "length f < 4294967296"
  shows "cut_frames (prepend_length f @ rest) = f # cut_frames rest"
proof -
  have "unat (le_word (le_bytes 4 (of_nat (length f)))) = length f"
    using assms by (simp add: le_word_le_bytes unsigned_take_bit_eq take_bit_nat_eq_self unat_of_nat_u64)
  then show ?thesis by (subst cut_frames.simps) (simp add: prepend_length_def Let_def)
qed

lemma length_framing: "framing prepend_length cut_frames"
proof -
  have "cut_frames (concat (map prepend_length fs)) = fs" if "\<forall>f \<in> set fs. length f < 4294967296" for fs
    using that by (induction fs) (simp_all add: cut_prepend cut_frames.simps [of "[]"])
  then show ?thesis by (simp add: framing_def)
qed

theorem wangle_pipelined_witness:
  "\<exists>d w out. client_send_all prepend_length [demo_message 7, demo_message 9] dispatcher_start = Inr (d, w) \<and>
     server_conn prepend_length cut_frames w = Inr out \<and>
     (\<exists>t. client_conn cut_frames (concat (rev out)) d = Inr t \<and> requests_map t = [] \<and> length (resolved t) = 2)"
proof -
  from wangle_pipelined [OF length_framing, of "[demo_message 7, demo_message 9]"] obtain d w out where
    "client_send_all prepend_length [demo_message 7, demo_message 9] dispatcher_start = Inr (d, w)"
    "server_conn prepend_length cut_frames w = Inr out"
    "\<forall>out'. mset out' = mset out \<longrightarrow> (\<exists>t. client_conn cut_frames (concat out') d = Inr t \<and> requests_map t = [] \<and>
       distinct (map fst (resolved t)) \<and> length (resolved t) = length [demo_message 7, demo_message 9] \<and>
       (\<forall>(p, r) \<in> set (resolved t). p < length [demo_message 7, demo_message 9] \<and>
          r = (fst ([demo_message 7, demo_message 9] ! p), [])))"
    by (auto simp: demo_message_def simp del: length_Cons)
  moreover from this(3) [rule_format, of "rev out"] have "\<exists>t. client_conn cut_frames (concat (rev out)) d = Inr t \<and>
      requests_map t = [] \<and> length (resolved t) = 2" by auto
  ultimately show ?thesis by blast
qed



end
