(* ===== verification/DomainSocket.thy ===== *)
theory DomainSocket
  imports RpcClient
begin

text \<open>
  \<open>fbthrift/domain-socket/Client.cpp\<close> and \<open>Server.cpp\<close>: the storage benchmark over a Unix domain socket.
  Its statistics collector, splitter, command loop and handlers repeat those of \<open>StorageRpc\<close> (see \<open>DomainProgram\<close>). Its own are the creation of the sockets
  and the loop \<open>Benchmark\<close>, which has the rate controller of \<open>BenchmarkEcho\<close> but never
  increments the counters of sent and outstanding requests. System calls are inputs.
\<close>

section \<open>Sockets\<close>

definition kBufferSize :: nat where
  "kBufferSize = 8 * 1024 * 1024"

definition sun_path_size :: nat where
  "sun_path_size = 108"

text \<open>\<open>strncpy\<close> into a zeroed array, one byte kept for the terminator.\<close>

definition sun_path :: "string \<Rightarrow> string" where
  "sun_path path =
     (let n = sun_path_size - 1; s = take n (takeWhile (\<lambda>c. c \<noteq> CHR 0x00) path) in
      s @ replicate (sun_path_size - length s) (CHR 0x00))"

record socket_env =
  socket_fd :: int
  bind_rc :: int                     \<comment> \<open>of \<open>bind\<close>, or of \<open>connect\<close> in the client\<close>
  setsockopt_rc :: "nat \<Rightarrow> int"      \<comment> \<open>by the size asked for\<close>

text \<open>The sizes tried, largest first; the loop stops at the first that is accepted.\<close>

fun set_sndbuf :: "(nat \<Rightarrow> int) \<Rightarrow> nat \<Rightarrow> nat \<Rightarrow> nat list \<Rightarrow> nat list \<times> nat option" where
  "set_sndbuf rc i 0 tried = (tried, None)"
| "set_sndbuf rc i (Suc left) tried =
     (let sndbuf = drop_bit i kBufferSize; tried = tried @ [sndbuf] in
      if rc sndbuf \<ge> 0 then (tried, Some sndbuf) else set_sndbuf rc (Suc i) left tried)"

text \<open>The result, the descriptors left open and the buffer size set.\<close>

record socket_result =
  returned :: int
  open_fds :: "int list"
  sndbuf :: "nat option"

definition CreateUnixDomainSocket :: "socket_env \<Rightarrow> socket_result" where
  "CreateUnixDomainSocket env =
     (let fd = socket_fd env in
      if fd < 0 then \<lparr>returned = - 1, open_fds = [], sndbuf = None\<rparr>
      else if bind_rc env < 0 then \<lparr>returned = - 1, open_fds = [fd], sndbuf = None\<rparr>
      else \<lparr>returned = fd, open_fds = [fd], sndbuf = snd (set_sndbuf (setsockopt_rc env) 0 12 [])\<rparr>)"

definition Connect :: "socket_env \<Rightarrow> socket_result" where
  "Connect env =
     (let fd = socket_fd env in
      if fd < 0 then \<lparr>returned = - 1, open_fds = [], sndbuf = None\<rparr>
      else if bind_rc env < 0 then \<lparr>returned = - 1, open_fds = [fd], sndbuf = None\<rparr>
      else \<lparr>returned = fd, open_fds = [fd], sndbuf = snd (set_sndbuf (setsockopt_rc env) 0 12 [])\<rparr>)"

definition CreateAsyncRpcClient :: "socket_env \<Rightarrow> int result" where
  "CreateAsyncRpcClient env = (let fd = returned (Connect env) in assertE (fd \<ge> 0) (Inr fd))"

lemma set_sndbuf_result:
  "snd (set_sndbuf rc i n tried) =
     map_option (\<lambda>j. drop_bit j kBufferSize) (find (\<lambda>j. rc (drop_bit j kBufferSize) \<ge> 0) [i..<i + n])"
proof (induction n arbitrary: i tried)
  case (Suc n)
  have "[i..<i + Suc n] = i # [Suc i..<Suc i + n]" by (simp add: upt_conv_Cons)
  with Suc show ?case by (simp add: Let_def)
qed simp

text \<open>
  The send buffer: the client and the server settle on the largest accepted of the twelve sizes 8 MiB,
  4 MiB, ..., 4 KiB, and on none only if all are refused; the socket is returned either way.
\<close>

theorem sndbuf_largest:
  assumes "socket_fd env \<ge> 0" and "bind_rc env \<ge> 0" and "i < 12" and "setsockopt_rc env (2 ^ (23 - i)) \<ge> 0"
  shows "\<exists>j \<le> i. sndbuf (Connect env) = Some (2 ^ (23 - j)) \<and> sndbuf (CreateUnixDomainSocket env) = Some (2 ^ (23 - j)) \<and>
    setsockopt_rc env (2 ^ (23 - j)) \<ge> 0 \<and> (\<forall>k < j. setsockopt_rc env (2 ^ (23 - k)) < 0) \<and>
    CreateAsyncRpcClient env = Inr (socket_fd env)"
proof -
  have size: "drop_bit j kBufferSize = 2 ^ (23 - j)" if "j < 12" for j
  proof -
    have "kBufferSize = 2 ^ 23" by (simp add: kBufferSize_def)
    then show ?thesis using that by (simp add: drop_bit_eq_div power_diff)
  qed
  let ?P = "\<lambda>j. setsockopt_rc env (drop_bit j kBufferSize) \<ge> 0"
  have "?P i" using assms(3,4) by (simp add: size)
  then have "find ?P [0..<12] \<noteq> None" using assms(3) by (auto simp: find_None_iff)
  then obtain j where j: "find ?P [0..<12] = Some j" by blast
  then obtain m where m: "m < 12" "?P ([0..<12] ! m)" "j = [0..<12] ! m" "\<forall>k < m. \<not> ?P ([0..<12] ! k)"
    by (auto simp: find_Some_iff)
  then have jm: "j = m" by simp
  have "m \<le> i"
  proof (rule ccontr)
    assume "\<not> m \<le> i"
    then have "\<not> ?P ([0..<12] ! i)" using m(4) by simp
    with \<open>?P i\<close> assms(3) show False by simp
  qed
  moreover have "snd (set_sndbuf (setsockopt_rc env) 0 12 []) = Some (2 ^ (23 - m))"
    using set_sndbuf_result [of "setsockopt_rc env" 0 12 "[]"] j jm m(1) by (simp add: size)
  moreover have "setsockopt_rc env (2 ^ (23 - m)) \<ge> 0" using m(1,2) by (simp add: size)
  moreover have "\<forall>k < m. setsockopt_rc env (2 ^ (23 - k)) < 0"
  proof (intro allI impI)
    fix k assume "k < m"
    with m(1) have "k < 12" by simp
    with m(4) \<open>k < m\<close> show "setsockopt_rc env (2 ^ (23 - k)) < 0" by (force simp: size)
  qed
  ultimately show ?thesis
    using assms(1,2)
    by (intro exI [of _ m]) (simp add: Connect_def CreateUnixDomainSocket_def CreateAsyncRpcClient_def Let_def)
qed

definition socket_demo :: socket_env where
  "socket_demo = \<lparr>socket_fd = 5, bind_rc = 0, setsockopt_rc = (\<lambda>n. if n \<le> 2097152 then 0 else - 1)\<rparr>"

theorem sndbuf_largest_witness: "sndbuf (Connect socket_demo) = Some 2097152"
proof -
  have "\<exists>j \<le> 3. sndbuf (Connect socket_demo) = Some (2 ^ (23 - j)) \<and> sndbuf (CreateUnixDomainSocket socket_demo) = Some (2 ^ (23 - j)) \<and>
    setsockopt_rc socket_demo (2 ^ (23 - j)) \<ge> 0 \<and> (\<forall>k < j. setsockopt_rc socket_demo (2 ^ (23 - k)) < 0) \<and>
    CreateAsyncRpcClient socket_demo = Inr (socket_fd socket_demo)"
    by (rule sndbuf_largest) (simp_all add: socket_demo_def)
  then obtain j where j: "j \<le> 3" "sndbuf (Connect socket_demo) = Some (2 ^ (23 - j))"
    "setsockopt_rc socket_demo (2 ^ (23 - j)) \<ge> 0" "\<forall>k < j. setsockopt_rc socket_demo (2 ^ (23 - k)) < 0" by blast
  from j(1) have "j = 0 \<or> j = 1 \<or> j = 2 \<or> j = 3" by arith
  with j show ?thesis by (auto simp: socket_demo_def dest: spec [of _ 2])
qed


section \<open>The benchmark loop\<close>

text \<open>
  A round of \<open>Benchmark\<close>: the state and the controller are those of \<open>BenchmarkEcho\<close>, but sending a
  request changes only the identifier; the continuation counts the reply and takes it off \<open>req_out\<close>.
\<close>

definition ds_issue :: "(u64 \<Rightarrow> rpc_call) \<Rightarrow> echo_state \<Rightarrow> echo_state" where
  "ds_issue call s =
     (let s = s\<lparr>rpc_id := rpc_id s + 1\<rparr> in s\<lparr>calls := calls s @ [call (rpc_id s)]\<rparr>)"

definition ds_reply :: "echo_state \<Rightarrow> echo_state" where
  "ds_reply s = s\<lparr>rpc_complete := rpc_complete s + 1, rpc_out := rpc_out s - 1\<rparr>"

definition ds_body ::
  "(u64 \<Rightarrow> rpc_call) \<Rightarrow> rpc_flags \<Rightarrow> u64 \<Rightarrow> nat \<times> int \<Rightarrow> echo_state \<Rightarrow> echo_state option" where
  "ds_body call fl client_id inp s =
     (case for_u32 (to_send s) 0 (ds_issue call) s of
        None \<Rightarrow> None
      | Some s \<Rightarrow>
          let s = s\<lparr>ios_in_last_second := ios_in_last_second s + to_send s\<rparr>;
              s = (ds_reply ^^ fst inp) s in
          Some (next_to_send fl (rate_control fl client_id (snd inp) s)))"

text \<open>The rounds: number of replies, clock.\<close>

fun ds_Benchmark ::
  "(u64 \<Rightarrow> rpc_call) \<Rightarrow> rpc_flags \<Rightarrow> u64 \<Rightarrow> (nat \<times> int) list \<Rightarrow> echo_state \<Rightarrow> echo_state option" where
  "ds_Benchmark call fl client_id [] s = Some s"
| "ds_Benchmark call fl client_id (inp # inps) s =
     (if rpc_complete s < requests fl \<or> unlimited fl then
        (case ds_body call fl client_id inp s of
           None \<Rightarrow> None
         | Some s \<Rightarrow> ds_Benchmark call fl client_id inps s)
      else Some s)"

definition ds_BenchmarkSendNoData :: "rpc_flags \<Rightarrow> u64 \<Rightarrow> int \<Rightarrow> int \<Rightarrow> (nat \<times> int) list \<Rightarrow> echo_state option" where
  "ds_BenchmarkSendNoData fl client_id add_time now inps =
     ds_Benchmark Call_SendNoData fl client_id inps (echo_start client_id add_time now)"

definition ds_BenchmarkSend :: "rpc_flags \<Rightarrow> u64 \<Rightarrow> int \<Rightarrow> int \<Rightarrow> (nat \<times> int) list \<Rightarrow> echo_state option" where
  "ds_BenchmarkSend fl client_id add_time now inps =
     ds_Benchmark (\<lambda>i. Call_Send i (replicate (unat (block_size fl)) 65)) fl client_id inps
       (echo_start client_id add_time now)"

definition ds_BenchmarkEcho :: "rpc_flags \<Rightarrow> u64 \<Rightarrow> int \<Rightarrow> int \<Rightarrow> (nat \<times> int) list \<Rightarrow> echo_state option" where
  "ds_BenchmarkEcho fl client_id add_time now inps =
     ds_Benchmark (\<lambda>i. Call_Echo i (replicate (unat (block_size fl)) 65)) fl client_id inps
       (echo_start client_id add_time now)"

definition ds_inv :: "rpc_flags \<Rightarrow> echo_state \<Rightarrow> bool" where
  "ds_inv fl s \<longleftrightarrow>
     rpc_sent s = 0 \<and> rpc_out s = - rpc_complete s \<and> 1 \<le> current_depth s \<and> current_depth s \<le> queue_depth fl \<and>
     to_send s \<le> queue_depth fl \<and> (rpc_out s > queue_depth fl \<longrightarrow> to_send s = 1)"

lemma ds_issues:
  "(ds_issue call ^^ n) s =
     s\<lparr>rpc_id := rpc_id ((ds_issue call ^^ n) s), calls := calls ((ds_issue call ^^ n) s)\<rparr> \<and>
   length (calls ((ds_issue call ^^ n) s)) = length (calls s) + n"
proof (induction n)
  case (Suc n)
  then obtain i cs where "(ds_issue call ^^ n) s = s\<lparr>rpc_id := i, calls := cs\<rparr>" "length cs = length (calls s) + n"
    by metis
  then show ?case by (simp add: ds_issue_def [of call "s\<lparr>rpc_id := i, calls := cs\<rparr>"] Let_def)
qed simp

lemma ds_replies:
  "(ds_reply ^^ n) s = s\<lparr>rpc_complete := rpc_complete s + of_nat n, rpc_out := rpc_out s - of_nat n\<rparr>"
  by (induction n) (simp_all add: ds_reply_def)

lemma ds_body_step:
  assumes fl: "flags_ok fl" and inv: "ds_inv fl s"
  shows "\<exists>t. ds_body call fl cid inp s = Some t \<and> ds_inv fl t \<and>
    rpc_complete t = rpc_complete s + of_nat (fst inp) \<and>
    length (calls t) = length (calls s) + unat (to_send s)"
proof -
  have "unat (to_send s) < 4294967296"
    using fl inv by (simp add: flags_ok_def ds_inv_def word_le_nat_alt)
  then have loop: "for_u32 (to_send s) 0 (ds_issue call) s = Some ((ds_issue call ^^ unat (to_send s)) s)"
    by (rule for_u32_returns)
  obtain i cs where iss: "(ds_issue call ^^ unat (to_send s)) s = s\<lparr>rpc_id := i, calls := cs\<rparr>"
    "length cs = length (calls s) + unat (to_send s)"
    using ds_issues [of "unat (to_send s)" call s] by metis
  let ?u = "s\<lparr>rpc_id := i, calls := cs, ios_in_last_second := ios_in_last_second s + to_send s,
    rpc_complete := rpc_complete s + of_nat (fst inp), rpc_out := rpc_out s - of_nat (fst inp)\<rparr>"
  let ?c = "rate_control fl cid (snd inp) ?u"
  have body: "ds_body call fl cid inp s = Some (next_to_send fl ?c)"
    by (simp add: ds_body_def loop iss(1) ds_replies Let_def)
  have depth: "1 \<le> current_depth ?c \<and> current_depth ?c \<le> queue_depth fl"
    by (rule rate_control_depth [OF fl]) (use inv in \<open>simp_all add: ds_inv_def\<close>)
  note rf = rate_control_frame [of fl cid "snd inp" ?u]
  have "to_send (next_to_send fl ?c) = 1" if "rpc_out (next_to_send fl ?c) > queue_depth fl"
  proof -
    have "\<not> rpc_out ?c \<le> current_depth ?c" using that depth next_to_send_frame [of fl ?c] by auto
    moreover have "\<not> rpc_sent ?c > requests fl" using rf inv by (simp add: ds_inv_def)
    ultimately show ?thesis by (simp add: next_to_send_def Let_def)
  qed
  then have "ds_inv fl (next_to_send fl ?c)"
    using inv depth rf next_to_send_frame [of fl ?c] next_to_send_bound [of ?c "queue_depth fl" fl]
    by (simp add: ds_inv_def)
  with body rf next_to_send_frame [of fl ?c] iss(2) show ?thesis by simp
qed


lemma neg_of_nat_large:
  assumes "1 \<le> k" and "k < 9223372036854775808" and "unat q < 4294967296"
  shows "- of_nat k > (q :: u64)"
proof -
  have "(of_nat (18446744073709551616 - k) :: u64) = of_nat 18446744073709551616 - of_nat k"
    by (rule of_nat_diff) (use assms(2) in simp)
  then have "- of_nat k = (of_nat (18446744073709551616 - k) :: u64)" by simp
  then have "unat (- of_nat k :: u64) = 18446744073709551616 - k"
    using assms(1) unat_of_nat_u64 [of "18446744073709551616 - k"] by simp
  with assms(2,3) show ?thesis by (simp add: word_less_nat_alt)
qed

lemma ds_sends_something:
  assumes fl: "flags_ok fl" and inv: "ds_inv fl s" and c: "rpc_complete s = of_nat k"
    and k: "k < 9223372036854775808" and "k = 0 \<longrightarrow> to_send s \<noteq> 0"
  shows "1 \<le> unat (to_send s) \<and> (1 \<le> k \<longrightarrow> to_send s = 1)"
proof (cases "k = 0")
  case True
  with assms(5) show ?thesis by (simp add: Suc_le_eq unat_gt_0)
next
  case False
  then have "rpc_out s > queue_depth fl"
    using neg_of_nat_large [of k "queue_depth fl"] k fl inv c by (simp add: flags_ok_def ds_inv_def)
  with inv have "to_send s = 1" by (simp add: ds_inv_def)
  then show ?thesis by simp
qed

lemma ds_rounds:
  assumes fl: "flags_ok fl" "unlimited fl"
  shows "ds_inv fl s \<Longrightarrow> rpc_complete s = of_nat k \<Longrightarrow> (k = 0 \<longrightarrow> to_send s \<noteq> 0) \<Longrightarrow>
    k + sum_list (map fst inps) < 9223372036854775808 \<Longrightarrow>
    \<exists>t. ds_Benchmark call fl cid inps s = Some t \<and> ds_inv fl t \<and>
      rpc_complete t = of_nat (k + sum_list (map fst inps)) \<and>
      (k + sum_list (map fst inps) = 0 \<longrightarrow> to_send t \<noteq> 0) \<and>
      length (calls s) + length inps \<le> length (calls t)"
proof (induction inps arbitrary: s k)
  case (Cons inp inps)
  from ds_body_step [OF fl(1) Cons.prems(1), of call cid inp] obtain u where
    u: "ds_body call fl cid inp s = Some u" "ds_inv fl u" "rpc_complete u = of_nat (k + fst inp)"
      "length (calls u) = length (calls s) + unat (to_send s)"
    using Cons.prems(2) by (auto simp: add.commute)
  have sends: "1 \<le> unat (to_send s)"
    using ds_sends_something [OF fl(1) Cons.prems(1,2) _ Cons.prems(3)] Cons.prems(4) by simp
  have "to_send u \<noteq> 0" if "k + fst inp = 0"
  proof -
    from that u(2,3) have "rpc_out u = 0" "current_depth u \<noteq> 0" by (auto simp: ds_inv_def)
    moreover obtain v where "u = next_to_send fl v" "rpc_sent v = 0"
      using u(1,2) by (auto simp: ds_body_def ds_inv_def next_to_send_frame Let_def split: option.splits)
    ultimately show ?thesis by (auto simp: next_to_send_def Let_def)
  qed
  then have "\<exists>t. ds_Benchmark call fl cid inps u = Some t \<and> ds_inv fl t \<and>
      rpc_complete t = of_nat (k + fst inp + sum_list (map fst inps)) \<and>
      (k + fst inp + sum_list (map fst inps) = 0 \<longrightarrow> to_send t \<noteq> 0) \<and>
      length (calls u) + length inps \<le> length (calls t)"
    by (intro Cons.IH [OF u(2,3)]) (use Cons.prems(4) in simp_all)
  with u sends fl(2) show ?case by (auto simp: add.assoc simp del: sum_list_eq_0_iff)
qed simp




section \<open>The loop and the collector\<close>

text \<open>Although \<open>req_sent\<close> stays 0, what the loop reports to the collector is what it sends.\<close>

definition ds_stat_inv :: "u64 \<Rightarrow> int \<Rightarrow> echo_state \<Rightarrow> bool" where
  "ds_stat_inv cid a s \<longleftrightarrow>
     (\<exists>us. stat_ops s = Add cid a # us \<and> (\<forall>u \<in> set us. own cid u \<and> is_upd u) \<and>
        sum_list (map new_ios_of us) + ios_in_last_second s = of_nat (length (calls s)))"

lemma for_u32_Some: "for_u32 n 0 f s = Some t \<Longrightarrow> t = (f ^^ unat n) s"
  by (cases "unat n < 4294967296") (simp_all add: for_u32_returns for_u32_diverges)

lemma ds_issues_view:
  "stat_ops ((ds_issue call ^^ n) s) = stat_ops s" "ios_in_last_second ((ds_issue call ^^ n) s) = ios_in_last_second s"
  "to_send ((ds_issue call ^^ n) s) = to_send s" "length (calls ((ds_issue call ^^ n) s)) = length (calls s) + n"
  by (induction n) (simp_all add: ds_issue_def Let_def)

lemma rate_control_ds: "ds_stat_inv cid a s \<Longrightarrow> ds_stat_inv cid a (next_to_send fl (rate_control fl cid e s))"
  by (auto simp: ds_stat_inv_def next_to_send_def rate_control_def Let_def)

lemma ds_body_stats:
  assumes inv: "ds_stat_inv cid a s" and b: "ds_body call fl cid inp s = Some t"
  shows "ds_stat_inv cid a t"
proof -
  let ?u = "(ds_issue call ^^ unat (to_send s)) s"
  let ?v = "?u\<lparr>ios_in_last_second := ios_in_last_second s + to_send s\<rparr>"
  have t: "t = next_to_send fl (rate_control fl cid (snd inp) ((ds_reply ^^ fst inp) ?v))"
    using b by (auto simp: ds_body_def Let_def ds_issues_view dest!: for_u32_Some split: option.splits)
  have "ds_stat_inv cid a ?v" using inv by (auto simp: ds_stat_inv_def ds_issues_view algebra_simps)
  then have "ds_stat_inv cid a ((ds_reply ^^ fst inp) ?v)" by (simp add: ds_replies ds_stat_inv_def)
  then show ?thesis unfolding t by (rule rate_control_ds)
qed

lemma ds_Benchmark_stats:
  "ds_stat_inv cid a s \<Longrightarrow> ds_Benchmark call fl cid inps s = Some t \<Longrightarrow> ds_stat_inv cid a t"
  by (induction inps arbitrary: s) (auto split: if_splits option.splits dest: ds_body_stats)

definition ds_run :: "u64 \<Rightarrow> int \<Rightarrow> (u64 \<Rightarrow> rpc_call) \<times> rpc_flags \<times> int \<times> (nat \<times> int) list \<Rightarrow> echo_state option" where
  "ds_run cid a inp = (case inp of (call, fl, now, inps) \<Rightarrow> ds_Benchmark call fl cid inps (echo_start cid a now))"

interpretation ds_reports: reporting_client "\<lambda>inp. True" ds_run stat_ops ios_in_last_second "\<lambda>s. of_nat (length (calls s))"
proof
  fix inp :: "(u64 \<Rightarrow> rpc_call) \<times> rpc_flags \<times> int \<times> (nat \<times> int) list" and c a t
  assume r: "ds_run c a inp = Some t"
  have "ds_stat_inv c a (echo_start c a now)" for now by (simp add: ds_stat_inv_def echo_start_def)
  with r have "ds_stat_inv c a t" by (auto simp: ds_run_def split: prod.splits intro: ds_Benchmark_stats)
  then show "\<exists>us. stat_ops t = Add c a # us \<and> (\<forall>u \<in> set us. own c u \<and> is_upd u) \<and>
      sum_list (map new_ios_of us) + ios_in_last_second t = of_nat (length (calls t))"
    by (simp add: ds_stat_inv_def)
qed

end
