(* ===== verification/DomainProgram.thy ===== *)
theory DomainProgram
  imports DomainSocket RpcSend
begin

text \<open>
  The programs of \<open>fbthrift/domain-socket\<close> as wholes. \<open>Client.cpp\<close> and \<open>Server.cpp\<close> declare anew what
  \<open>StorageRpc\<close> has: the statistics collector, the splitter, the command loop and the service. They are translated
  anew here, from these files, and shown to be the same functions, so that what is proved of the ones holds of the
  others; what is new is the process they form, in which \<open>client_add\<close> starts \<open>BenchmarkSendNoData\<close>, and the \<open>main\<close> of the server.
\<close>

section \<open>The collector\<close>

definition ds_default_flags :: rpc_flags where
  "ds_default_flags =
     \<lparr>queue_depth = 128, block_size = 4096, requests = push_bit 18 1, unlimited = True, iops_rate_limit = 1024\<rparr>"

definition ds_Stats_new :: "int \<Rightarrow> Stats" where
  "ds_Stats_new now = \<lparr>start = now, current_queue_depth = 0, current_iops = 0, total_ios = 0, total_updates = 0\<rparr>"

definition ds_StatsCollector_new :: StatsCollector where
  "ds_StatsCollector_new = \<lparr>stats = [], stop = False, thread_started = False\<rparr>"

definition ds_StatsCollector_delete :: "StatsCollector \<Rightarrow> StatsCollector result" where
  "ds_StatsCollector_delete sc =
     (let sc = sc\<lparr>stop := True\<rparr> in if thread_started sc then Inr sc else Inl Std_Terminate)"

definition ds_StartDumpThread :: "StatsCollector \<Rightarrow> StatsCollector" where
  "ds_StartDumpThread sc = sc\<lparr>thread_started := True\<rparr>"

definition ds_ClientAdd :: "u64 \<Rightarrow> int \<Rightarrow> StatsCollector \<Rightarrow> StatsCollector result" where
  "ds_ClientAdd client_id now sc =
     assertE (map_of (stats sc) client_id = None)
       (Inr (sc\<lparr>stats := (client_id, ds_Stats_new now) # stats sc\<rparr>))"

definition ds_Update :: "u64 \<Rightarrow> u64 \<Rightarrow> u64 \<Rightarrow> u64 \<Rightarrow> StatsCollector \<Rightarrow> StatsCollector result" where
  "ds_Update i depth iops new_ios sc =
     assertE (map_of (stats sc) i \<noteq> None)
       (Inr (sc\<lparr>stats := map (\<lambda>(j, st). (j,
          if j = i then st\<lparr>current_queue_depth := depth, current_iops := iops, total_ios := total_ios st + new_ios,
                           total_updates := total_updates st + 1\<rparr>
          else st)) (stats sc)\<rparr>))"

definition ds_DumpInfo :: "int \<Rightarrow> StatsCollector \<Rightarrow> dump" where
  "ds_DumpInfo now sc =
     (let cur_iops = fold (\<lambda>c a. add_int a (current_iops (snd c))) (stats sc) 0;
          cur_depth = fold (\<lambda>c a. add_int a (current_queue_depth (snd c))) (stats sc) 0;
          clients = (of_nat (length (stats sc)) :: u32) in
      \<lparr>dump_lines = map (\<lambda>c. (fst c, seconds_between now (start (snd c)), current_queue_depth (snd c), current_iops (snd c),
         total_ios (snd c), total_updates (snd c))) (stats sc),
       dump_averages = (if clients \<noteq> 0 then Some (sint cur_iops sdiv sint clients, sint cur_depth sdiv sint clients)
                        else None)\<rparr>)"

fun ds_Run :: "(bool \<times> int \<times> StatsCollector) list \<Rightarrow> dump list" where
  "ds_Run [] = []"
| "ds_Run ((stopped, now, sc) # rest) = (if stopped then [] else ds_DumpInfo now sc # ds_Run rest)"

definition ds_stats_step :: "stats_op \<Rightarrow> StatsCollector \<Rightarrow> StatsCollector result" where
  "ds_stats_step op sc =
     (case op of Add i now \<Rightarrow> ds_ClientAdd i now sc | Upd i qd iops n \<Rightarrow> ds_Update i qd iops n sc)"

section \<open>The splitter and the command loop\<close>

partial_function (option) ds_Split_loop ::
  "string \<Rightarrow> char \<Rightarrow> nat \<Rightarrow> string list \<Rightarrow> string list result option" where
  "ds_Split_loop str delim s tokens =
     (let e = str_find str delim s in
      if e \<noteq> npos then
        (case (if e \<noteq> s then bindE (substr str s (e - s)) (\<lambda>t. Inr (tokens @ [t])) else Inr tokens) of
           Inl x \<Rightarrow> Some (Inl x)
         | Inr tokens \<Rightarrow> ds_Split_loop str delim (e + 1) tokens)
      else
        Some (if e \<noteq> s then bindE (substr str s npos) (\<lambda>t. Inr (tokens @ [t])) else Inr tokens))"

definition ds_Split :: "string \<Rightarrow> char \<Rightarrow> string list result option" where
  "ds_Split str delim = ds_Split_loop str delim 0 []"

definition ds_kQuit :: string where "ds_kQuit = ''quit''"
definition ds_kAddClient :: string where "ds_kAddClient = ''client_add''"
definition ds_kStopClient :: string where "ds_kStopClient = ''client_stop''"

definition ds_repl_start :: repl where
  "ds_repl_start =
     \<lparr>last_client_id = 0, client_threads = [], collector = ds_StartDumpThread ds_StatsCollector_new\<rparr>"

text \<open>\<open>client_add\<close>: the new thread is moved into the map; if its key is there, the temporary is destroyed while joinable.\<close>

definition ds_add :: "repl \<Rightarrow> repl result" where
  "ds_add s =
     (let i = last_client_id s + 1; s = s\<lparr>last_client_id := i\<rparr> in
      if i \<in> set (client_threads s) then Inl Std_Terminate
      else Inr (s\<lparr>client_threads := client_threads s @ [i]\<rparr>))"

text \<open>The end of the block: the threads are destroyed before the collector.\<close>

definition ds_leave :: "repl \<Rightarrow> repl_outcome" where
  "ds_leave s =
     (if client_threads s \<noteq> [] then Failed Std_Terminate
      else case ds_StatsCollector_delete (collector s) of Inl e \<Rightarrow> Failed e | Inr _ \<Rightarrow> Exited)"

fun ds_main :: "string list \<Rightarrow> repl \<Rightarrow> repl_outcome option" where
  "ds_main [] s = Some (Prompting s)"
| "ds_main (command # lines) s =
     (case ds_Split command (CHR '' '') of
        None \<Rightarrow> None
      | Some (Inl e) \<Rightarrow> Some (Failed e)
      | Some (Inr tokens) \<Rightarrow>
          if tokens = [] then ds_main lines s
          else
            (let cmd = hd tokens in
             if cmd = ds_kQuit then Some (ds_leave s)
             else if cmd = ds_kAddClient then
               (case ds_add s of Inl e \<Rightarrow> Some (Failed e) | Inr s \<Rightarrow> ds_main lines s)
             else if cmd = ds_kStopClient then ds_main lines s
             else ds_main lines s))"

section \<open>The server\<close>

definition ds_async_tm_Echo :: "u64 \<Rightarrow> bytes \<Rightarrow> EchoResult" where
  "ds_async_tm_Echo request_id data = (let d1 = data in \<lparr>echo_request_id = request_id, echo_data = d1\<rparr>)"

definition ds_async_tm_Send :: "u64 \<Rightarrow> bytes \<Rightarrow> SendResult" where
  "ds_async_tm_Send request_id data = \<lparr>send_request_id = request_id\<rparr>"

definition ds_async_tm_SendNoData :: "u64 \<Rightarrow> SendResult" where
  "ds_async_tm_SendNoData request_id = \<lparr>send_request_id = request_id\<rparr>"

fun ds_serve :: "rpc_call \<Rightarrow> rpc_result" where
  "ds_serve (Call_Echo i d) = Result_Echo (ds_async_tm_Echo i d)"
| "ds_serve (Call_Send i d) = Result_Send (ds_async_tm_Send i d)"
| "ds_serve (Call_SendNoData i) = Result_Send (ds_async_tm_SendNoData i)"

interpretation domain: rpc_service ds_serve call_id result_id
proof
  show "result_id (ds_serve r) = call_id r" for r
    by (cases r) (simp_all add: ds_async_tm_Echo_def ds_async_tm_Send_def ds_async_tm_SendNoData_def)
qed

text \<open>
  \<open>main\<close> up to \<open>serve\<close>: the path is unlinked, the socket made, and handed over with the handler and port 3000.
  The result is what the library is given; a socket that cannot be made fails the assertion.
\<close>

record 'h served =
  served_interface :: 'h
  served_port :: int
  served_socket :: "int option"

definition ds_server_main :: "socket_env \<Rightarrow> (rpc_call \<Rightarrow> rpc_result) served result" where
  "ds_server_main env =
     (let domain_socket = returned (CreateUnixDomainSocket env) in
      assertE (domain_socket \<ge> 0)
        (Inr \<lparr>served_interface = ds_serve, served_port = 3000, served_socket = Some domain_socket\<rparr>))"

section \<open>The same functions\<close>

lemma ds_Split_loop_same: "ds_Split_loop = Split_loop"
proof (rule same_recursion)
  show "ds_Split_loop str d s ts = (\<lambda>f str d s ts. let e = str_find str d s in
      if e \<noteq> npos then
        (case (if e \<noteq> s then bindE (substr str s (e - s)) (\<lambda>t. Inr (ts @ [t])) else Inr ts) of
           Inl x \<Rightarrow> Some (Inl x)
         | Inr ts \<Rightarrow> f str d (e + 1) ts)
      else
        Some (if e \<noteq> s then bindE (substr str s npos) (\<lambda>t. Inr (ts @ [t])) else Inr ts)) ds_Split_loop str d s ts"
    for str d s ts by (rule ds_Split_loop.simps)
qed (fact Split_loop.simps ds_Split_loop.raw_induct Split_loop.raw_induct | auto simp: Let_def split: sum.splits if_splits)+

lemma ds_Split_same: "ds_Split = Split"
  by (simp add: fun_eq_iff ds_Split_def Split_def ds_Split_loop_same)

lemma ds_collector_same:
  "ds_StatsCollector_new = StatsCollector_new" "ds_StartDumpThread = StartDumpThread"
  "ds_StatsCollector_delete = StatsCollector_delete" "ds_stats_step = stats_step" "ds_DumpInfo = DumpInfo"
proof -
  show "ds_StatsCollector_new = StatsCollector_new" "ds_StartDumpThread = StartDumpThread"
    "ds_StatsCollector_delete = StatsCollector_delete"
    by (simp_all add: fun_eq_iff ds_StatsCollector_new_def StatsCollector_new_def ds_StartDumpThread_def StartDumpThread_def
        ds_StatsCollector_delete_def StatsCollector_delete_def)
  have "ds_stats_step op sc = stats_step op sc" for op sc
    by (cases op) (simp_all add: ds_stats_step_def stats_step_def ds_ClientAdd_def ClientAdd_def ds_Stats_new_def Stats_new_def
      ds_Update_def Update_def update_entry_def cong: if_cong)
  then show "ds_stats_step = stats_step" by blast
  have "ds_DumpInfo now sc = DumpInfo now sc" for now sc
    unfolding ds_DumpInfo_def DumpInfo_def dump_line_def [abs_def] ..
  then show "ds_DumpInfo = DumpInfo" by blast
qed

lemma ds_Run_same: "ds_Run = Run"
proof
  show "ds_Run xs = Run xs" for xs by (induction xs rule: Run.induct) (simp_all add: ds_collector_same)
qed

lemma ds_main_same: "ds_main ls s = repl_main ls s" and ds_repl_start_same: "ds_repl_start = repl_start"
proof -
  have add: "ds_add = repl_add" by (simp add: fun_eq_iff ds_add_def repl_add_def)
  have leave: "ds_leave = repl_leave" by (simp add: fun_eq_iff ds_leave_def repl_leave_def ds_collector_same)
  show "ds_main ls s = repl_main ls s"
    by (induction ls arbitrary: s) (simp_all add: ds_Split_same add leave ds_kQuit_def kQuit_def ds_kAddClient_def kAddClient_def
        ds_kStopClient_def kStopClient_def Let_def cong: option.case_cong sum.case_cong if_cong)
  show "ds_repl_start = repl_start" by (simp add: ds_repl_start_def repl_start_def ds_collector_same)
qed

section \<open>The client process\<close>



end
