(* ===== verification/ThriftServer.thy ===== *)
theory ThriftServer
  imports BenchHandler
begin

text \<open>
  \<open>thrift/exp2/thrift-server.cpp\<close> apart from its handler (see \<open>BenchHandler\<close>): the validation of the flag
  for the server type and the choice of the server in \<open>main\<close>.
\<close>

datatype server_kind = Nonblocking | Threaded | Threadpool

record server =
  kind :: server_kind
  has_thread_manager :: bool      \<comment> \<open>the manager is passed to the server\<close>
  manager_started :: bool

definition lower :: "char \<Rightarrow> char" where
  "lower c = (if 65 \<le> (of_char c :: nat) \<and> (of_char c :: nat) \<le> 90 then char_of (of_char c + 32 :: nat) else c)"

definition to_lower :: "string \<Rightarrow> string" where
  "to_lower s = map lower s"

definition validateServerType :: "string \<Rightarrow> bool" where
  "validateServerType v =
     (let v = to_lower v in
      if v = ''nonblocking'' \<or> v = ''threaded'' \<or> v = ''threadpool'' then True else False)"

definition choose_server :: "string \<Rightarrow> server result" where
  "choose_server flag =
     (let stype = to_lower flag; started = (stype \<noteq> ''threaded'') in
      if stype = ''nonblocking'' then Inr \<lparr>kind = Nonblocking, has_thread_manager = True, manager_started = started\<rparr>
      else if stype = ''threaded'' then Inr \<lparr>kind = Threaded, has_thread_manager = False, manager_started = started\<rparr>
      else if stype = ''threadpool'' then Inr \<lparr>kind = Threadpool, has_thread_manager = True, manager_started = started\<rparr>
      else Inl Assert_Failed)"

lemma lower_idem: "lower (lower c) = lower c"
proof -
  have "(of_char (char_of (of_char c + 32 :: nat)) :: nat) = of_char c + 32" if "(of_char c :: nat) \<le> 90"
    using that by (simp add: of_char_of)
  then show ?thesis by (simp add: lower_def)
qed

lemma to_lower_idem [simp]: "to_lower (to_lower s) = to_lower s"
  by (simp add: to_lower_def comp_def lower_idem)

text \<open>
  The server starts exactly for the types the validator accepts (the validator itself is never
  registered, so for other types the assertion fails after the thread manager has been started); the
  case of the letters does not matter; and a server that is given the thread manager gets a started one.
\<close>

theorem server_type_dispatch:
  "(choose_server flag = Inl Assert_Failed \<longleftrightarrow> \<not> validateServerType flag) \<and>
   choose_server (to_lower flag) = choose_server flag \<and>
   (choose_server flag = Inr srv \<longrightarrow> has_thread_manager srv = manager_started srv)"
  by (auto simp: choose_server_def validateServerType_def Let_def)

theorem server_type_dispatch_witness:
  "\<exists>srv. choose_server ''ThreadPool'' = Inr srv \<and> kind srv = Threadpool \<and> has_thread_manager srv = manager_started srv"
proof -
  have "\<exists>srv. choose_server ''ThreadPool'' = Inr srv \<and> kind srv = Threadpool"
    by (simp add: choose_server_def to_lower_def lower_def char_of_def bit_iff_odd)
  then obtain srv where "choose_server ''ThreadPool'' = Inr srv" "kind srv = Threadpool" by blast
  with server_type_dispatch [of "''ThreadPool''" srv] show ?thesis by blast
qed

end
