(* ===== verification/ThriftClient.thy ===== *)
theory ThriftClient
  imports BenchHandler "HOL-Library.Signed_Division"
begin

text \<open>
  The synchronous clients of \<open>thrift/exp1/client.cpp\<close> and \<open>thrift/exp2/client.cpp\<close>, in front of the handler
  of their servers (\<open>BenchHandler\<close>): one call at a time, an exception of Thrift ends the benchmark of the
  thread that meets it. The network is an argument: for each call either the server's own
  measurement of the time it took, or nothing where Thrift raises a \<open>TException\<close>.
\<close>

section \<open>One thread\<close>

record thrift_run =
  made :: "BenchmarkData list"      \<comment> \<open>what \<open>key_put\<close> has been called with\<close>
  got :: "BenchmarkData list"       \<comment> \<open>what it has returned\<close>
  closed :: bool                    \<comment> \<open>\<open>transport->close()\<close> was called\<close>
  error_printed :: bool

definition thrift_new :: thrift_run where
  "thrift_new = \<lparr>made = [], got = [], closed = False, error_printed = False\<rparr>"

text \<open>The generated client sends its argument before it reads the reply into its result.\<close>

definition thrift_call :: "(nat \<Rightarrow> int option) \<Rightarrow> nat \<Rightarrow> BenchmarkData \<Rightarrow> BenchmarkData option" where
  "thrift_call net i bd = (case net i of None \<Rightarrow> None | Some l \<Rightarrow> Some (key_put l bd))"

text \<open>The index of the loop is an \<open>int\<close>; the first component says whether an exception ended it.\<close>

function put_loop ::
  "(nat \<Rightarrow> BenchmarkData \<Rightarrow> BenchmarkData option) \<Rightarrow> nat \<Rightarrow> BenchmarkData \<Rightarrow> nat \<Rightarrow> thrift_run \<Rightarrow>
     (bool \<times> thrift_run) result" where
  "put_loop call n bd i s =
     (if i < n then
        let s = s\<lparr>made := made s @ [bd]\<rparr> in
        case call i bd of
          None \<Rightarrow> Inr (True, s)
        | Some r \<Rightarrow>
            let s = s\<lparr>got := got s @ [r]\<rparr> in
            assertE (length (bd_data r) = 0)
              (if i = 2147483647 then Inl Signed_Overflow else put_loop call n bd (Suc i) s)
      else Inr (False, s))"
  by pat_completeness auto
termination
  by (relation "measure (\<lambda>(call, n, bd, i, s). n - i)") auto

declare put_loop.simps [simp del]

definition put_request :: "u32 \<Rightarrow> BenchmarkData" where
  "put_request sz = BenchmarkData_new\<lparr>bd_data_size := ucast sz, bd_data := replicate (unat sz) 65\<rparr>"

definition start_benchmark_thrift :: "bool \<Rightarrow> (nat \<Rightarrow> int option) \<Rightarrow> u64 \<Rightarrow> u32 \<Rightarrow> thrift_run result" where
  "start_benchmark_thrift opens net nrequests sz =
     (if \<not> opens then Inr (thrift_new\<lparr>error_printed := True\<rparr>)
      else
        bindE (put_loop (thrift_call net) (unat nrequests) (put_request sz) 0 thrift_new) (\<lambda>(thrown, s).
          Inr (if thrown then s\<lparr>error_printed := True\<rparr> else s\<lparr>closed := True\<rparr>)))"

section \<open>The lines printed\<close>

text \<open>exp1 has one thread and prints its line before it closes the connection, unless an exception came first.\<close>

definition nrequests_exp1 :: u64 where
  "nrequests_exp1 = 100000"

definition main_thrift_exp1 ::
  "bool \<Rightarrow> (nat \<Rightarrow> int option) \<Rightarrow> int \<Rightarrow> (thrift_run \<times> (u64 \<times> int \<times> u64) option) result" where
  "main_thrift_exp1 opens net d =
     bindE (start_benchmark_thrift opens net nrequests_exp1 4096) (\<lambda>s.
       Inr (s, if error_printed s then None else Some (nrequests_exp1, d, of_int d div nrequests_exp1)))"

definition thrift_nthreads :: "u32 list" where
  "thrift_nthreads = [1, 10, 100, 1000, 10000, 100000]"

definition thrift_req_sizes :: "u32 list" where
  "thrift_req_sizes = [1, 128, 512, 1024, 4096, 8192, 32 * 1024, 64 * 1024, 128 * 1024]"

definition thrift_configs :: "(u32 \<times> u32) list" where
  "thrift_configs = concat (map (\<lambda>nt. map (\<lambda>rs. (nt, rs)) thrift_req_sizes) thrift_nthreads)"

definition nrequests_exp2 :: int where
  "nrequests_exp2 = 10000"

record thrift_row =
  trow_threads :: u32
  trow_size :: u32
  trow_requests :: int
  trow_avg :: int
  trow_total :: u32
  trow_tot_avg :: int

text \<open>
  The times are of type \<open>long\<close>: division truncates towards zero. The number of all requests is a product of an
  \<open>int\<close> and a 32-bit unsigned number.
\<close>

definition report_thrift :: "u32 \<Rightarrow> u32 \<Rightarrow> int \<Rightarrow> thrift_row result" where
  "report_thrift nt rs d =
     (let total = of_int nrequests_exp2 * nt :: u32 in
      if total = 0 then Inl Div_By_Zero
      else
        Inr \<lparr>trow_threads = nt, trow_size = rs, trow_requests = nrequests_exp2, trow_avg = d sdiv nrequests_exp2,
             trow_total = total, trow_tot_avg = d sdiv (uint total)\<rparr>)"

definition main_thrift_exp2 ::
  "u32 \<Rightarrow> u32 \<Rightarrow> int \<Rightarrow> (bool \<times> (nat \<Rightarrow> int option)) list \<Rightarrow> (thrift_row \<times> thrift_run list) result" where
  "main_thrift_exp2 nt rs d envs =
     bindE (foldE (\<lambda>(opens, net) runs.
                bindE (start_benchmark_thrift opens net (of_int nrequests_exp2) rs) (\<lambda>s. Inr (runs @ [s])))
              envs [])
       (\<lambda>runs. bindE (report_thrift nt rs d) (\<lambda>row. Inr (row, runs)))"

section \<open>The loop\<close>

lemma thrift_reply_empty: "thrift_call net i bd = Some r \<Longrightarrow> bd_data r = []"
  by (auto simp: thrift_call_def key_put_def Let_def split: option.splits)

text \<open>The calls among \<open>i, \<dots>, n - 1\<close> that are answered: those before the first that raises.\<close>

definition answered :: "(nat \<Rightarrow> int option) \<Rightarrow> nat \<Rightarrow> nat \<Rightarrow> nat list" where
  "answered net i n = takeWhile (\<lambda>i. net i \<noteq> None) [i..<n]"

lemma answered_le: "length (answered net i n) \<le> n - i"
  unfolding answered_def using length_takeWhile_le [of "\<lambda>i. net i \<noteq> None" "[i..<n]"] by simp

lemma answered_step:
  "i < n \<Longrightarrow> answered net i n = (if net i = None then [] else i # answered net (Suc i) n)"
  by (simp add: answered_def upt_conv_Cons)

lemma length_takeWhile_all: "length (takeWhile P xs) = length xs \<longleftrightarrow> (\<forall>x \<in> set xs. P x)"
  by (induction xs) auto

lemma answered_all_iff: "length (answered net i n) = n - i \<longleftrightarrow> (\<forall>j \<in> {i..<n}. net j \<noteq> None)"
  unfolding answered_def using length_takeWhile_all [of "\<lambda>i. net i \<noteq> None" "[i..<n]"] by simp

lemma put_loop_run:
  assumes "n \<le> 2147483647" and "i \<le> n"
  shows "put_loop (thrift_call net) n bd i s =
     Inr (length (answered net i n) < n - i,
       s\<lparr>made := made s @ replicate (min (Suc (length (answered net i n))) (n - i)) bd,
         got := got s @ map (\<lambda>j. key_put (the (net j)) bd) (answered net i n)\<rparr>)"
  using assms
proof (induction "n - i" arbitrary: i s)
  case (Suc m)
  then have i: "i < n" by simp
  show ?case
  proof (cases "net i")
    case None
    then show ?thesis using i
      by (subst put_loop.simps) (simp add: thrift_call_def answered_step Let_def min_def Suc_leI)
  next
    case (Some l)
    let ?s = "s\<lparr>made := made s @ [bd], got := got s @ [key_put l bd]\<rparr>"
    let ?k = "length (answered net (Suc i) n)"
    have rep: "min (Suc (Suc ?k)) (n - i) = Suc (min (Suc ?k) (n - Suc i))" using i by simp
    have "put_loop (thrift_call net) n bd i s = put_loop (thrift_call net) n bd (Suc i) ?s"
      using i Suc.prems Some
      by (subst put_loop.simps) (simp add: thrift_call_def key_put_def Let_def)
    also have "\<dots> = Inr (?k < n - Suc i, ?s\<lparr>made := made ?s @ replicate (min (Suc ?k) (n - Suc i)) bd,
        got := got ?s @ map (\<lambda>j. key_put (the (net j)) bd) (answered net (Suc i) n)\<rparr>)"
      using Suc.hyps(1) [of "Suc i" ?s] Suc.hyps(2) Suc.prems i by simp
    finally show ?thesis
      using i Some by (simp add: answered_step rep less_diff_conv)
  qed
qed (subst put_loop.simps; simp add: answered_def)

section \<open>What a run does\<close>

lemma put_loop_reply: "bd_data (key_put l bd) = [] \<and> bd_data_size (key_put l bd) = 0"
  by (simp add: key_put_def Let_def)

lemma start_benchmark_thrift_run:
  assumes "unat n \<le> 2147483647"
  shows "start_benchmark_thrift opens net n sz = Inr
    (if \<not> opens then thrift_new\<lparr>error_printed := True\<rparr>
     else
       let js = answered net 0 (unat n); all = (length js = unat n) in
       \<lparr>made = replicate (min (Suc (length js)) (unat n)) (put_request sz),
        got = map (\<lambda>j. key_put (the (net j)) (put_request sz)) js, closed = all, error_printed = (\<not> all)\<rparr>)"
  using put_loop_run [OF assms, of 0 net "put_request sz" thrift_new] answered_le [of net 0 "unat n"]
  by (auto simp: start_benchmark_thrift_def thrift_new_def Let_def)

text \<open>
  A thread of the synchronous benchmarks: it never fails an assertion; it makes its calls with
  equal requests until one raises, gets for each the put's reply without data and size, and then either
  all calls were answered and it closes the connection, or it prints an error, with at most one call unanswered.
\<close>

theorem thrift_thread_run:
  assumes "unat n \<le> 2147483647"
  shows "\<exists>s. start_benchmark_thrift opens net n sz = Inr s \<and>
    (\<forall>q \<in> set (made s). q = put_request sz) \<and>
    (\<forall>r \<in> set (got s). \<exists>l. r = key_put l (put_request sz) \<and> bd_data r = [] \<and> bd_data_size r = 0) \<and>
    closed s = (\<not> error_printed s) \<and>
    (closed s \<longleftrightarrow> opens \<and> (\<forall>j < unat n. net j \<noteq> None)) \<and>
    (closed s \<longrightarrow> length (made s) = unat n \<and> length (got s) = unat n) \<and>
    (opens \<longrightarrow> error_printed s \<longrightarrow> length (made s) = Suc (length (got s)) \<and> net (length (got s)) = None)"
proof -
  let ?js = "answered net 0 (unat n)"
  have all: "length ?js = unat n \<longleftrightarrow> (\<forall>j < unat n. net j \<noteq> None)"
    using answered_all_iff [of net 0 "unat n"] by auto
  have le: "length ?js \<le> unat n" using answered_le [of net 0 "unat n"] by simp
  have stop: "net (length ?js) = None" if "length ?js \<noteq> unat n"
    using nth_length_takeWhile [of "\<lambda>i. net i \<noteq> None" "[0..<unat n]"] that le by (simp add: answered_def)
  show ?thesis
    unfolding start_benchmark_thrift_run [OF assms]
    using all le stop put_loop_reply by (auto simp: thrift_new_def Let_def)
qed

theorem thrift_thread_run_witness:
  "\<exists>s. start_benchmark_thrift True (\<lambda>i. if i < 3 then Some 7 else None) 5 2 = Inr s \<and> error_printed s \<and>
     length (made s) = Suc (length (got s))"
proof -
  from thrift_thread_run [of 5 True "\<lambda>i. if i < 3 then Some 7 else None" 2]
  obtain s where s: "start_benchmark_thrift True (\<lambda>i. if i < 3 then Some 7 else None) 5 2 = Inr s"
    "closed s = (\<not> error_printed s)" "closed s \<longleftrightarrow> (\<forall>j < unat (5 :: u64). (if j < 3 then Some (7 :: int) else None) \<noteq> None)"
    "error_printed s \<longrightarrow> length (made s) = Suc (length (got s))"
    by auto
  have "\<not> closed s" unfolding s(3) by (auto intro!: exI [of _ 4])
  with s show ?thesis by auto
qed

text \<open>The threads of one configuration.\<close>

lemma threads_run:
  "foldE (\<lambda>(opens, net) runs. bindE (start_benchmark_thrift opens net (of_int nrequests_exp2) rs) (\<lambda>s. Inr (runs @ [s])))
     envs runs =
   Inr (runs @ map (\<lambda>(opens, net). projr (start_benchmark_thrift opens net (of_int nrequests_exp2) rs)) envs)"
proof (induction envs arbitrary: runs)
  case (Cons e envs)
  obtain opens net where e: "e = (opens, net)" by fastforce
  have "unat (of_int nrequests_exp2 :: u64) \<le> 2147483647" by (simp add: nrequests_exp2_def)
  from start_benchmark_thrift_run [OF this, of opens net rs] Cons show ?case by (simp add: e)
qed simp

lemma thrift_run_counts:
  fixes n :: u64
  assumes "unat n \<le> 2147483647" and "0 < unat n"
  shows "length (got (projr (start_benchmark_thrift opens net n sz))) \<le> unat n \<and>
    (length (got (projr (start_benchmark_thrift opens net n sz))) = unat n \<longleftrightarrow>
      \<not> error_printed (projr (start_benchmark_thrift opens net n sz)))"
  using answered_le [of net 0 "unat n"] assms(2)
  unfolding start_benchmark_thrift_run [OF assms(1)] by (auto simp: thrift_new_def Let_def)

lemma sum_list_bounded:
  fixes f :: "'a \<Rightarrow> nat"
  shows "(\<And>x. x \<in> set xs \<Longrightarrow> f x \<le> m) \<Longrightarrow>
    sum_list (map f xs) \<le> m * length xs \<and> (sum_list (map f xs) = m * length xs \<longleftrightarrow> (\<forall>x \<in> set xs. f x = m))"
proof (induction xs)
  case (Cons x xs)
  have "f x \<le> m" using Cons.prems by simp
  with Cons.IH Cons.prems show ?case by fastforce
qed simp

lemma sdiv_pos: "0 \<le> d \<Longrightarrow> 0 < m \<Longrightarrow> d sdiv m = d div m" for d m :: int
  by (simp add: signed_divide_int_def sgn_if)

lemma thrift_configs_bounds:
  "(nt, rs) \<in> set thrift_configs \<Longrightarrow> 0 < unat nt \<and> unat nt \<le> 100000"
  by (auto simp: thrift_configs_def thrift_nthreads_def)

text \<open>
  C35. The lines of the synchronous benchmark (exp2): in every configuration of \<open>main\<close> no thread
  brings the process down, the number of requests printed does not wrap, and it is what the threads were to
  make, not what they made: at least as many as have been answered, and as many only if
  no thread met an exception. The average divides by it.
\<close>

theorem thrift_line_counts:
  assumes "(nt, rs) \<in> set thrift_configs" and "length envs = unat nt" and "0 \<le> d"
  shows "\<exists>row runs. main_thrift_exp2 nt rs d envs = Inr (row, runs) \<and> length runs = unat nt \<and>
    unat (trow_total row) = 10000 * unat nt \<and>
    sum_list (map (length \<circ> got) runs) \<le> unat (trow_total row) \<and>
    (sum_list (map (length \<circ> got) runs) = unat (trow_total row) \<longleftrightarrow> (\<forall>s \<in> set runs. \<not> error_printed s)) \<and>
    trow_avg row = d div 10000 \<and> trow_tot_avg row = d div (10000 * int (unat nt))"
proof -
  note b = thrift_configs_bounds [OF assms(1)]
  let ?start = "\<lambda>(opens, net). projr (start_benchmark_thrift opens net (of_int nrequests_exp2) rs)"
  have n: "unat (of_int nrequests_exp2 :: u64) = 10000" by (simp add: nrequests_exp2_def)
  have t: "unat (of_int nrequests_exp2 * nt :: u32) = 10000 * unat nt"
    using b by (simp add: nrequests_exp2_def unat_word_ariths)
  then have nz: "(of_int nrequests_exp2 * nt :: u32) \<noteq> 0" using b by auto
  have ti: "uint (of_int nrequests_exp2 * nt :: u32) = 10000 * int (unat nt)"
    using t by (metis int_nat_eq of_nat_mult of_nat_numeral uint_nat)
  have quot: "d sdiv (10000 * int (unat nt)) = d div (10000 * int (unat nt))"
    by (rule sdiv_pos [OF assms(3)]) (use b in \<open>simp del: of_nat_unat\<close>)
  have one: "length (got (?start e)) \<le> 10000 \<and> (length (got (?start e)) = 10000 \<longleftrightarrow> \<not> error_printed (?start e))" for e
    using thrift_run_counts [of "of_int nrequests_exp2" "fst e" "snd e" rs] n by (cases e) simp
  have "sum_list (map (length \<circ> got \<circ> ?start) envs) \<le> 10000 * length envs \<and>
    (sum_list (map (length \<circ> got \<circ> ?start) envs) = 10000 * length envs \<longleftrightarrow>
       (\<forall>e \<in> set envs. (length \<circ> got \<circ> ?start) e = 10000))"
    by (rule sum_list_bounded) (use one in simp)
  then show ?thesis
    unfolding main_thrift_exp2_def threads_run bindE_simps report_thrift_def Let_def
    using one t ti nz assms(2) sdiv_pos [OF assms(3), of 10000] quot by (simp add: comp_assoc nrequests_exp2_def)
qed


theorem thrift_line_counts_witness:
  "\<exists>row runs. main_thrift_exp2 1 128 5000000 [(False, \<lambda>i. None)] = Inr (row, runs) \<and> unat (trow_total row) = 10000 \<and>
     trow_avg row = 500 \<and> sum_list (map (length \<circ> got) runs) \<le> 10000"
proof -
  have "(1, 128) \<in> set thrift_configs"
    by (simp add: thrift_configs_def thrift_nthreads_def thrift_req_sizes_def)
  from thrift_line_counts [OF this, of "[(False, \<lambda>i. None)]" 5000000] show ?thesis by auto
qed

text \<open>exp1 prints its line exactly if all its calls are answered.\<close>

lemma thrift_exp1_line:
  "\<exists>s line. main_thrift_exp1 opens net d = Inr (s, line) \<and>
     (line \<noteq> None \<longleftrightarrow> opens \<and> (\<forall>j < 100000. net j \<noteq> None))"
proof -
  have n: "unat nrequests_exp1 = 100000" by (simp add: nrequests_exp1_def)
  then have "length (answered net 0 100000) = 100000 \<longleftrightarrow> (\<forall>j < 100000. net j \<noteq> None)"
    using answered_all_iff [of net 0 100000] by auto
  then show ?thesis
    using start_benchmark_thrift_run [of nrequests_exp1 opens net 4096] n
    by (auto simp: main_thrift_exp1_def thrift_new_def Let_def)
qed

end
