(* ===== verification/Servers.thy ===== *)
theory Servers
  imports DomainProgram Exp2System Exp3System ThriftServer Wangle
begin

text \<open>
  The server programs: the \<open>main\<close> of every server up to the call that serves, and what the programs of exp3
  are to each other. A program's result is what it hands to the library (\<open>served\<close>: the handler and the port), or
  the error it ends with. Also here: the text that \<open>exp2/DB/DBServer.cpp\<close> and \<open>thrift/exp1\<close> have copied
  from their siblings, shown to be the same functions.
\<close>

section \<open>The programs with one handler\<close>

definition serves :: "'h \<Rightarrow> int \<Rightarrow> 'h served" where
  "serves handler p = \<lparr>served_interface = handler, served_port = p, served_socket = None\<rparr>"

definition storage_main :: "(rpc_call \<Rightarrow> rpc_result) served" where
  "storage_main = serves storage_serve 3000"

definition ganesha_default_port :: int where "ganesha_default_port = 9090"
definition t1_default_port :: int where "t1_default_port = 9090"

definition ganesha_main :: "u64 \<Rightarrow> int \<Rightarrow> BenchmarkHandler served" where
  "ganesha_main garbage server_port = (let handler = GaneshaHandler_new garbage in serves handler server_port)"

definition t1_main :: "int \<Rightarrow> BenchmarkHandler served" where
  "t1_main server_port = (let p = server_port; handler = ThriftHandler_new in serves handler p)"

definition wangle_default_port :: int where "wangle_default_port = 8080"

definition wangle_server_main :: "int \<Rightarrow> (message_object \<Rightarrow> message_object) served" where
  "wangle_server_main server_port = serves MsgService server_port"

text \<open>The copying of \<open>thrift/exp1\<close>, one assignment after the other.\<close>

definition t1_copy_benchmark_data :: "BenchmarkData \<Rightarrow> BenchmarkData \<Rightarrow> BenchmarkData" where
  "t1_copy_benchmark_data dest src =
     dest\<lparr>bd_request_id := bd_request_id src,
          bd_client_latency := bd_client_latency src,
          bd_db_latency := bd_db_latency src,
          bd_dict_latency := bd_dict_latency src,
          bd_leaf_latency := bd_leaf_latency src,
          bd_io_latency := bd_io_latency src,
          bd_bypass_dict := bd_bypass_dict src,
          bd_bypass_cpu := bd_bypass_cpu src,
          bd_bypass_leaf := bd_bypass_leaf src,
          bd_bypass_io := bd_bypass_io src,
          bd_data_size := bd_data_size src,
          bd_empty_data_on_resp := bd_empty_data_on_resp src\<rparr>"

lemma t1_copy_same: "t1_copy_benchmark_data = copy_benchmark_data"
  by (simp add: fun_eq_iff t1_copy_benchmark_data_def copy_benchmark_data_def)

section \<open>The servers of exp2\<close>

definition leaf2_default_port :: int where "leaf2_default_port = 9091"

definition leaf2_main :: "int \<Rightarrow> leaf2_state served" where
  "leaf2_main server_port = serves LeafHandler2_new server_port"

text \<open>The class \<open>Leaf\<close> and the splitter of \<open>exp2/DB/DBServer.cpp\<close>.\<close>

definition d2_Leaf_new :: "string \<Rightarrow> u32 \<Rightarrow> Leaf" where
  "d2_Leaf_new i p = \<lparr>port = p, ip = i, connected = False, client = None\<rparr>"

definition d2_isConnected :: "Leaf \<Rightarrow> bool" where
  "d2_isConnected l = connected l"

definition d2_connect :: "bool \<Rightarrow> Leaf \<Rightarrow> Leaf result" where
  "d2_connect in_evb l =
     assertE (client l = None \<and> \<not> connected l \<and> in_evb)
       (let socket = (ip l, port l); l = l\<lparr>client := Some socket\<rparr> in Inr (l\<lparr>connected := True\<rparr>))"

definition d2_setDisconnected :: "Leaf \<Rightarrow> Leaf" where
  "d2_setDisconnected l = l\<lparr>client := None, connected := False\<rparr>"

definition d2_channelClosed :: "Leaf \<Rightarrow> Leaf" where
  "d2_channelClosed l = d2_setDisconnected l"

definition d2_getConnection :: "Leaf \<Rightarrow> (string \<times> u32) option" where
  "d2_getConnection l = client l"

lemma d2_Leaf_same:
  "d2_Leaf_new = Leaf_new" "d2_isConnected = isConnected" "d2_connect = connect" "d2_setDisconnected = setDisconnected"
  "d2_channelClosed = channelClosed" "d2_getConnection = getConnection"
  by (simp_all add: fun_eq_iff d2_Leaf_new_def Leaf_new_def d2_isConnected_def isConnected_def d2_connect_def connect_def
      d2_setDisconnected_def setDisconnected_def d2_channelClosed_def channelClosed_def d2_getConnection_def getConnection_def)

partial_function (option) d2_split_loop ::
  "string \<Rightarrow> char \<Rightarrow> nat \<Rightarrow> string list \<Rightarrow> string list result option" where
  "d2_split_loop input delim s v =
     (let e = str_find input delim s in
      if e \<noteq> npos then
        if e \<noteq> s then
          (case substr input s (e - s) of
             Inl x \<Rightarrow> Some (Inl x)
           | Inr t \<Rightarrow> d2_split_loop input delim (e + 1) (v @ [t]))
        else d2_split_loop input delim s v
      else
        Some (if e \<noteq> s then bindE (substr input s npos) (\<lambda>t. Inr (v @ [t])) else Inr v))"

definition d2_split :: "string \<Rightarrow> char \<Rightarrow> string list result option" where
  "d2_split input delim = d2_split_loop input delim 0 []"

lemma d2_split_loop_same: "d2_split_loop = db_split_loop"
proof (rule same_recursion)
  show "d2_split_loop str d s v = (\<lambda>f str d s v. let e = str_find str d s in
      if e \<noteq> npos then
        if e \<noteq> s then (case substr str s (e - s) of Inl x \<Rightarrow> Some (Inl x) | Inr t \<Rightarrow> f str d (e + 1) (v @ [t]))
        else f str d s v
      else
        Some (if e \<noteq> s then bindE (substr str s npos) (\<lambda>t. Inr (v @ [t])) else Inr v)) d2_split_loop str d s v"
    for str d s v by (rule d2_split_loop.simps)
qed (fact db_split_loop.simps d2_split_loop.raw_induct db_split_loop.raw_induct | auto simp: Let_def split: sum.splits if_splits)+

lemma d2_split_same: "d2_split = db_split"
  by (simp add: fun_eq_iff d2_split_def db_split_def d2_split_loop_same)

text \<open>The whole \<open>main\<close>, on the copies.\<close>

definition d2_parse_leaf :: "string \<Rightarrow> Leaf result" where
  "d2_parse_leaf t =
     (let e = str_find t (CHR '':'') 0 in
      if e = npos then Inl (Invalid_Argument ''Incorrect leaf IP or Port.'')
      else
        bindE (substr t 0 e) (\<lambda>ip.
          bindE (substr t (e + 1) npos) (\<lambda>p.
            bindE (stoul p) (\<lambda>port. Inr (d2_Leaf_new ip (ucast port))))))"

definition d2_default_leaf_server :: string where "d2_default_leaf_server = ''127.0.0.1:9091''"
definition d2_default_port :: int where "d2_default_port = 9090"

definition d2_main :: "string \<Rightarrow> int \<Rightarrow> db2_state served result option" where
  "d2_main leaf_server server_port =
     (case d2_split leaf_server (CHR '','') of
        None \<Rightarrow> None
      | Some (Inl e) \<Rightarrow> Some (Inl e)
      | Some (Inr token) \<Rightarrow>
          Some (if token = [] then Inl (Invalid_Argument ''Please provide list of leaf servers and their port'')
                else bindE (foldE (\<lambda>t leafs. bindE (d2_parse_leaf t) (\<lambda>l. Inr (leafs @ [l]))) token []) (\<lambda>leafs.
                  let handler = DBHandler2_new leafs in Inr (serves handler server_port))))"

lemma d2_parse_leaf_same: "d2_parse_leaf = parse_leaf"
  unfolding d2_parse_leaf_def [abs_def] parse_leaf_def [abs_def] d2_Leaf_same ..

lemma d2_main_eq: "d2_main flag p = map_option (\<lambda>r. bindE r (\<lambda>h. Inr (serves h p))) (db2_main flag)"
  by (auto simp: d2_main_def db2_main_def parse_leafs_def d2_split_same d2_parse_leaf_same Let_def
      split: option.split sum.split)
    (auto simp: bindE_def split: sum.split)

section \<open>The servers of exp3\<close>

definition leaf3_default_port :: int where "leaf3_default_port = 9091"
definition leaf3_default_path :: string where "leaf3_default_path = ''/mnt/''"
definition db3_default_port :: int where "db3_default_port = 9090"

text \<open>\<open>setup_rc\<close> is what \<open>io_setup\<close> returns, \<open>fs\<close> the file system the program finds.\<close>

definition leaf3_main :: "int \<Rightarrow> 'f \<Rightarrow> string \<Rightarrow> int \<Rightarrow> 'f leaf_state served result" where
  "leaf3_main setup_rc fs path server_port =
     bindE (LeafHandler_new setup_rc path fs) (\<lambda>handler. Inr (serves handler server_port))"

definition db3_server_main :: "string \<Rightarrow> int \<Rightarrow> db_state served result option" where
  "db3_server_main leaf_server server_port =
     map_option (\<lambda>r. bindE r (\<lambda>handler. Inr (serves handler server_port))) (db3_main leaf_server)"

text \<open>The programs running together: the database server in front of the leaf programs.\<close>

definition exp3_programs :: "db_state served \<Rightarrow> 'f leaf_state served list \<Rightarrow> 'f sys3" where
  "exp3_programs d ls =
     \<lparr>db3 = served_interface d, leafs3 = map served_interface ls, undelivered = [], returned = [], failed3 = [], calls3 = []\<rparr>"

text \<open>A step of the system is a step of the database server, or leaves it alone.\<close>

lemma leaf_does_db3: "leaf_does i op s = Inr t \<Longrightarrow> db3 t = db3 s"
  by (auto simp: leaf_does_def result_simps split: if_splits)

lemma sys3_step_db:
  assumes "sys3_step e s = Inr t"
  shows "db3 t = db3 s \<or> (\<exists>op. db_step op (db3 s) = Inr (db3 t))"
proof (cases e)
  case (Client_Writes cb k d)
  with assms have "db_step (DB_Write cb k d) (db3 s) = Inr (db3 t)"
    by (auto simp: sys3_step_def db_step_def db_calls_def result_simps)
  then show ?thesis by blast
next
  case (Client_Reads now cb reqid fn sz)
  with assms have "db_step (DB_Read now cb reqid fn sz) (db3 s) = Inr (db3 t)"
    by (auto simp: sys3_step_def db_step_def db_calls_def result_simps)
  then show ?thesis by blast
next
  case (Call_Reaches_Leaf j env)
  with assms show ?thesis
    by (auto simp: sys3_step_def Let_def split: if_splits prod.splits dest: leaf_does_db3)
next
  case (Leaf_Returns i k now)
  let ?r = "replies (leafs3 s ! i) ! k"
  have "db_step (DB_Resolve (now, reply_cb ?r, reply_result ?r)) (db3 s) = Inr (resolve now (reply_cb ?r) (reply_result ?r) (db3 s))"
    by (simp add: db_step_def)
  with Leaf_Returns assms show ?thesis by (auto simp: sys3_step_def Let_def split: if_splits)
next
  case (Connection_Closed i)
  with assms have "db_step (DB_Leaf_Closed i) (db3 s) = Inr (db3 t)" by (auto simp: sys3_step_def db_step_def)
  then show ?thesis by blast
next
  case (Leaf_Call_Fails f now)
  have "db_step (DB_Resolve (now, f, None)) (db3 s) = Inr (resolve now f None (db3 s))" by (simp add: db_step_def)
  with Leaf_Call_Fails assms show ?thesis by (auto simp: sys3_step_def split: if_splits)
qed (use assms in \<open>auto simp: sys3_step_def dest: leaf_does_db3\<close>)

lemma sys3_reach_db_inv:
  assumes "sys3_reach s0 s" and "db_inv peers (db3 s0)"
  shows "db_inv peers (db3 s)"
  using assms(1)
proof (induction rule: sys3_reach.induct)
  case (step s e t)
  from sys3_step_db [OF step(3)] show ?case
  proof
    assume "\<exists>op. db_step op (db3 s) = Inr (db3 t)"
    with db_step_inv [OF step.IH] show ?thesis by (metis sum.inject(2))
  qed (simp add: step.IH)
qed (rule assms(2))

text \<open>An open connection leads to the peer of its leaf.\<close>

lemma db_inv_connection:
  assumes "db_inv peers d" and "i < length peers" and "getConnection (leafs d ! i) = Some p"
  shows "p = peers ! i"
proof -
  have "map (\<lambda>l. (ip l, port l)) (leafs d) = peers" and "\<forall>l \<in> set (leafs d). leaf_wf l"
    using assms(1) by (simp_all add: db_inv_def db_ok_def)
  then have i: "i < length (leafs d)" "peers ! i = (ip (leafs d ! i), port (leafs d ! i))" and wf: "leaf_wf (leafs d ! i)"
    using assms(2) by auto
  show ?thesis using wf assms(3) by (cases p) (simp add: leaf_wf_def getConnection_def i(2))
qed

lemma db_inv_serves:
  assumes "db_inv peers (db3 s)"
  shows "\<exists>t. sys3_step (Client_Writes cb k d) s = Inr t" and "\<exists>t. sys3_step (Client_Reads now cb reqid fn sz) s = Inr t"
  using db_step_inv [OF assms, of "DB_Write cb k d"] db_step_inv [OF assms, of "DB_Read now cb reqid fn sz"]
  by (auto simp: sys3_step_def db_step_def)

text \<open>Started without flags, both database servers look for their one leaf where a leaf server listens by default.\<close>

lemma default_addresses:
  "db3_server_main default_leaf_server p =
     Some (Inr (serves (DBHandler_new [Leaf_new ''127.0.0.1'' (of_int leaf3_default_port)]) p))"
  "d2_main d2_default_leaf_server p =
     Some (Inr (serves (DBHandler2_new [Leaf_new ''127.0.0.1'' (of_int leaf2_default_port)]) p))"
proof -
  have "parse_leafs default_leaf_server = Some (Inr [Leaf_new ''127.0.0.1'' 9091])"
    by (simp add: default_leaf_server_def parse_leafs_def db_split_def db_split_loop.simps str_find.simps
        npos_def substr_def parse_leaf_def stoul_def is_space_def is_digit_def digit_value_def Let_def)
  then show "db3_server_main default_leaf_server p =
     Some (Inr (serves (DBHandler_new [Leaf_new ''127.0.0.1'' (of_int leaf3_default_port)]) p))"
    and "d2_main d2_default_leaf_server p =
     Some (Inr (serves (DBHandler2_new [Leaf_new ''127.0.0.1'' (of_int leaf2_default_port)]) p))"
    by (simp_all add: db3_server_main_def db3_main_def d2_main_eq db2_main_def leaf3_default_port_def leaf2_default_port_def
        d2_default_leaf_server_def flip: default_leaf_server_def)
qed

lemma started_leafs:
  assumes "length ls = length addrs"
    and "\<forall>i < length addrs. leaf3_main 0 (fs i) (path i) (uint (snd (addrs ! i))) = Inr (ls ! i)"
  shows "fresh_leafs (map served_interface ls)" and "i < length addrs \<Longrightarrow> served_port (ls ! i) = uint (snd (addrs ! i))"
proof -
  have main: "LeafHandler_new 0 (path i) (fs i) = Inr (served_interface (ls ! i)) \<and> served_port (ls ! i) = uint (snd (addrs ! i))"
    if "i < length addrs" for i
  proof -
    from assms(2) that have "leaf3_main 0 (fs i) (path i) (uint (snd (addrs ! i))) = Inr (ls ! i)" by blast
    then obtain h where "LeafHandler_new 0 (path i) (fs i) = Inr h" "ls ! i = serves h (uint (snd (addrs ! i)))"
      by (auto simp: leaf3_main_def result_simps)
    then show ?thesis by (simp add: serves_def)
  qed
  then show "fresh_leafs (map served_interface ls)"
    using assms(1) by (auto simp: fresh_leafs_def in_set_conv_nth) metis
  show "served_port (ls ! i) = uint (snd (addrs ! i))" if "i < length addrs" using main [OF that] by blast
qed

lemma programs_start:
  assumes "addrs \<noteq> []" and "\<forall>l \<in> set addrs. plain_ip (fst l)"
    and "length (print_leafs (map (map_prod id unat) addrs)) < npos"
  shows "db3_server_main (print_leafs (map (map_prod id unat) addrs)) p =
      Some (Inr (serves (DBHandler_new (map (\<lambda>(ip, port). Leaf_new ip port) addrs)) p))"
  using db3_main_printed [OF assms] by (simp add: db3_server_main_def sys3_start_def)



end
