(* ===== verification/Serialization.thy ===== *)
theory Serialization
  imports Prelude
begin

text \<open>
  \<open>serialize/Serialize.cpp\<close>: four functions that time Thrift's binary and compact serializers. The library parts
  are parameters: \<open>create\<close> (\<open>IOBuf::create\<close>), a serializer's \<open>ser\<close> and \<open>deser\<close>, and the number of rounds that
  the timing library decides on. What a benchmark does is the list of its timer and serializer calls.
\<close>

section \<open>The request\<close>

text \<open>The structure of \<open>serialize/StorageRpc.thrift\<close>; \<open>'b\<close> is the library's buffer.\<close>

record 'b write_request =
  reqid :: u64
  req_bytes :: u32
  offset :: u64
  hits :: u64
  miss :: u64
  buffer :: 'b

text \<open>What all four build: \<open>hits\<close> and \<open>miss\<close> keep their default.\<close>

definition new_write :: "(u64 \<Rightarrow> 'b) \<Rightarrow> int \<Rightarrow> 'b write_request" where
  "new_write create n =
     \<lparr>reqid = 1000, req_bytes = 16 * 1024, offset = 1024 * 1024 * 1024, hits = 0, miss = 0,
      buffer = create (of_int n)\<rparr>"

section \<open>The benchmarks\<close>

datatype 'r bm_event = Paused | Resumed | Timed 'r

definition BM_BinarySerialize ::
  "(u64 \<Rightarrow> 'b) \<Rightarrow> ('b write_request \<Rightarrow> bytes) \<Rightarrow> int \<Rightarrow> int \<Rightarrow> nat \<Rightarrow> bytes bm_event list result" where
  "BM_BinarySerialize create ser range0 range1 rounds =
     foldE (\<lambda>_ log.
       let log = log @ [Paused];
           write = new_write create range0;
           log = log @ [Resumed]
       in for_int (nat range1) 0 (\<lambda>j log. Inr (log @ [Timed (ser write)])) log) [0..<rounds] []"

definition BM_CompactSerialize ::
  "(u64 \<Rightarrow> 'b) \<Rightarrow> ('b write_request \<Rightarrow> bytes) \<Rightarrow> int \<Rightarrow> int \<Rightarrow> nat \<Rightarrow> bytes bm_event list result" where
  "BM_CompactSerialize create ser range0 range1 rounds =
     foldE (\<lambda>_ log.
       let log = log @ [Paused];
           write = new_write create range0;
           log = log @ [Resumed]
       in for_int (nat range1) 0 (\<lambda>j log. Inr (log @ [Timed (ser write)])) log) [0..<rounds] []"

definition BM_BinaryDeSerialize ::
  "(u64 \<Rightarrow> 'b) \<Rightarrow> ('b write_request \<Rightarrow> bytes) \<Rightarrow> (bytes \<Rightarrow> 'b write_request) \<Rightarrow> int \<Rightarrow> int \<Rightarrow> nat \<Rightarrow>
     'b write_request bm_event list result" where
  "BM_BinaryDeSerialize create ser deser range0 range1 rounds =
     foldE (\<lambda>_ log.
       let log = log @ [Paused];
           write = new_write create range0;
           serialized = ser write;
           log = log @ [Resumed]
       in for_int (nat range1) 0 (\<lambda>j log. Inr (log @ [Timed (deser serialized)])) log) [0..<rounds] []"

definition BM_CompactDeSerialize ::
  "(u64 \<Rightarrow> 'b) \<Rightarrow> ('b write_request \<Rightarrow> bytes) \<Rightarrow> (bytes \<Rightarrow> 'b write_request) \<Rightarrow> int \<Rightarrow> int \<Rightarrow> nat \<Rightarrow>
     'b write_request bm_event list result" where
  "BM_CompactDeSerialize create ser deser range0 range1 rounds =
     foldE (\<lambda>_ log.
       let log = log @ [Paused];
           write = new_write create range0;
           serialized = ser write;
           log = log @ [Resumed]
       in for_int (nat range1) 0 (\<lambda>j log. Inr (log @ [Timed (deser serialized)])) log) [0..<rounds] []"

definition kIterations :: int where
  "kIterations = 16384"

section \<open>What is timed\<close>

definition rounds_of :: "nat \<Rightarrow> nat \<Rightarrow> 'r \<Rightarrow> 'r bm_event list" where
  "rounds_of rounds k r = concat (replicate rounds ([Paused, Resumed] @ replicate k (Timed r)))"

lemma timed_loop:
  assumes "k \<le> 2147483647"
  shows "for_int k 0 (\<lambda>j log. Inr (log @ [Timed r])) log = Inr (log @ replicate k (Timed r))"
proof -
  have "foldE (\<lambda>j log. Inr (log @ [Timed r])) js log = Inr (log @ replicate (length js) (Timed r))" for js :: "nat list"
    by (induction js arbitrary: log) (simp_all add: replicate_app_Cons_same)
  with assms show ?thesis by (simp add: for_int_foldE)
qed

lemma timed_rounds:
  assumes "nat range1 \<le> 2147483647"
  shows "foldE (\<lambda>_ log. for_int (nat range1) 0 (\<lambda>j log. Inr (log @ [Timed r])) (log @ [Paused, Resumed])) xs log =
    Inr (log @ rounds_of (length xs) (nat range1) r)"
  by (induction xs arbitrary: log) (simp_all add: timed_loop [OF assms] rounds_of_def)

lemmas bm_defs = BM_BinarySerialize_def BM_CompactSerialize_def BM_BinaryDeSerialize_def BM_CompactDeSerialize_def

text \<open>The buffer library: a new buffer has room but no data, and serializers write a buffer's data.\<close>

definition empty_buffers :: "(u64 \<Rightarrow> 'b) \<Rightarrow> ('b \<Rightarrow> bytes) \<Rightarrow> bool" where
  "empty_buffers create content \<longleftrightarrow> (\<forall>n. content (create n) = [])"

definition writes_content :: "('b \<Rightarrow> bytes) \<Rightarrow> ('b write_request \<Rightarrow> bytes) \<Rightarrow> bool" where
  "writes_content content ser \<longleftrightarrow> (\<forall>w b. content b = content (buffer w) \<longrightarrow> ser (w\<lparr>buffer := b\<rparr>) = ser w)"

text \<open>
  The serialization benchmarks measure the same work for every size: each round serializes (or deserializes)
  one request as often as asked, and since \<open>IOBuf::create\<close> returns a buffer without data, the bytes are
  the same whether the buffer was made for a kilobyte or a megabyte.
\<close>

theorem serialization_ignores_size:
  assumes "empty_buffers create content" and "writes_content content ser"
    and "0 \<le> range1" and "range1 \<le> 2147483647"
  shows "\<exists>bs. \<forall>range0.
    BM_BinarySerialize create ser range0 range1 rounds = Inr (rounds_of rounds (nat range1) bs) \<and>
    BM_CompactSerialize create ser range0 range1 rounds = Inr (rounds_of rounds (nat range1) bs) \<and>
    BM_BinaryDeSerialize create ser deser range0 range1 rounds = Inr (rounds_of rounds (nat range1) (deser bs)) \<and>
    BM_CompactDeSerialize create ser deser range0 range1 rounds = Inr (rounds_of rounds (nat range1) (deser bs))"
proof -
  have "new_write create m = (new_write create 0)\<lparr>buffer := create (of_int m)\<rparr>" for m
    by (simp add: new_write_def)
  moreover have "content (create (of_int m)) = content (buffer (new_write create 0))" for m
    using assms(1) by (simp add: empty_buffers_def new_write_def)
  ultimately have same: "ser (new_write create m) = ser (new_write create 0)" for m
    using assms(2) unfolding writes_content_def by metis
  have "nat range1 \<le> 2147483647" using assms(4) by simp
  note log = timed_rounds [OF this, of _ "[0..<rounds]" "[]"]
  show ?thesis
    by (intro exI [of _ "ser (new_write create 0)"] allI, subst (1 2 3 4) same [symmetric]) (simp add: bm_defs Let_def log)
qed

text \<open>With buffers that know their size and data, one byte per field: a run over 1024 and 1048576.\<close>

theorem serialization_ignores_size_witness:
  "BM_BinarySerialize (\<lambda>n. (n, [])) (\<lambda>w. [ucast (reqid w), ucast (req_bytes w)] @ snd (buffer w)) 1024 2 1 =
   BM_BinarySerialize (\<lambda>n. (n, [])) (\<lambda>w. [ucast (reqid w), ucast (req_bytes w)] @ snd (buffer w)) 1048576 2 1"
proof -
  have "empty_buffers (\<lambda>n. (n, [])) (snd :: u64 \<times> bytes \<Rightarrow> bytes)" by (simp add: empty_buffers_def)
  moreover have "writes_content (snd :: u64 \<times> bytes \<Rightarrow> bytes)
      (\<lambda>w. [ucast (reqid w), ucast (req_bytes w)] @ snd (buffer w))" by (simp add: writes_content_def)
  ultimately obtain bs where "\<forall>range0. BM_BinarySerialize (\<lambda>n. (n, []))
      (\<lambda>w. [ucast (reqid w), ucast (req_bytes w)] @ snd (buffer w)) range0 2 1 = Inr (rounds_of 1 (nat 2) bs)"
    using serialization_ignores_size [of "\<lambda>n. (n, [])" snd
      "\<lambda>w. [ucast (reqid w), ucast (req_bytes w)] @ snd (buffer w)" 2 1 "\<lambda>_. new_write (\<lambda>n. (n, [])) 0"]
    by fastforce
  then show ?thesis by simp
qed

end
