(* ===== verification/Spec2Isabelle.thy ===== *)
theory Spec2Isabelle
  imports Prelude Window ReadCallback NetServer NetClient NetRun StrSplit StatsCollector RpcServer RpcClient RpcSend
    CompletionTable LeafAsyncIO LeafServer DBServer Interleave DBRace Exp3System BenchHandler BenchClient BenchReport
    Exp2System Exp2Experiment Exp2Liveness Exp2Fair Exp3Experiment Exp3Files Exp3Fair BenchProgram Exp1System Wangle WangleRun DomainSocket
    DomainProgram ThriftServer ThriftClient Servers Serialization
begin

text \<open>
  Verification of thrift-bench, a collection of client/server benchmarks in C++ over raw folly
  sockets, Apache Thrift, fbthrift and wangle. Each program is a closed loop of requests between a
  client that counts, times and limits them and a server that answers; the development models both
  sides of every pair and states what must hold between them.

  The programs and their theories.

  \<^item> \<open>AsyncIO/\<close>: a fixed-size echo over TCP. \<open>ReadCallback\<close> is \<open>request.h\<close>: the request structure, the
    buffer allocator and the read callback with which both ends cut the byte stream into requests.
    \<open>NetServer\<close> is \<open>net-server.cpp\<close> (accepting, one thread per connection, echoing, ownership of
    write buffers), \<open>NetClient\<close> is \<open>net-client.cpp\<close> (the class \<open>Benchmark\<close>), \<open>NetRun\<close> its
    runs and \<open>main\<close>.
  \<^item> \<open>StorageRpc/\<close>: RPC benchmarks. \<open>RpcServer\<close> is \<open>Server.cpp\<close>. \<open>Client.cpp\<close> is in four theories:
    \<open>StatsCollector\<close> (the statistics shared by all client threads), \<open>StrSplit\<close> (its splitter, beside that
    of the database servers), \<open>RpcClient\<close> (\<open>BenchmarkEcho\<close> with its rate control) and \<open>RpcSend\<close> (the
    fixed-depth benchmarks and the command loop). \<open>DomainSocket\<close> is what differs in
    \<open>fbthrift/domain-socket\<close>, the same programs over a Unix socket; \<open>DomainProgram\<close> translates what these have
    copied, shows it equal to the originals, and has the client process as a whole.
  \<^item> \<open>fbthrift/exp3/\<close>: client, database server, leaf servers. \<open>LeafAsyncIO\<close> is \<open>LEAF/AsyncIO\<close> (libaio
    behind promises), \<open>LeafServer\<close> the handlers on top of it, \<open>DBServer\<close> the fan-out of writes, the
    round-robin of reads and the list of leafs given on the command line. \<open>Exp3System\<close> puts a database server
    in front of its leaf servers and lets their steps interleave, \<open>Exp3Experiment\<close> adds the clients of
    \<open>DB/client.cpp\<close>, \<open>Exp3Files\<close> what they have written before they read,
    \<open>Exp3Fair\<close> that this ends in every fair run; \<open>DBRace\<close> takes apart the accesses that several
    threads of the database server make to the same data.
  \<^item> \<open>fbthrift/exp1\<close>, \<open>fbthrift/exp2\<close>, \<open>thrift/exp1\<close>, \<open>thrift/exp2\<close>: key-value benchmarks. \<open>BenchHandler\<close> has
    the handlers of all servers, \<open>BenchClient\<close> the closed loop of the fbthrift clients (that of \<open>exp3\<close>
    included), \<open>BenchReport\<close> their \<open>main\<close> (configurations, threads, the lines printed), \<open>BenchProgram\<close>
    the loops of \<open>main\<close> from the first configuration to the last, \<open>Exp1System\<close> a client thread of \<open>exp1\<close> against its server, \<open>Exp2System\<close> the
    servers of \<open>fbthrift/exp2\<close> (\<open>DB/DBServer.cpp\<close>, \<open>LEAF/LeafServer.cpp\<close>) as one system, \<open>Exp2Experiment\<close>
    these servers with all their clients, \<open>Exp2Liveness\<close> that these together can always finish and \<open>Exp2Fair\<close> that under a fair schedule they do,
    \<open>ThriftServer\<close> the choice among Thrift's server classes, and \<open>ThriftClient\<close> the two synchronous clients.
  \<^item> \<open>serialize/\<close>: \<open>Serialization\<close> has the four functions that time serializers.
  \<^item> \<open>wangle/\<close>: variable-size messages. \<open>Wangle\<close> has codec, echo service, dispatcher and the client's
    measuring loop, \<open>WangleRun\<close> the two programs put together over the library's framing.
  \<^item> \<open>Servers\<close> has the \<open>main\<close> of the servers of all directories, up to the call that serves, and starts the programs of \<open>exp3\<close> together.

  How the code is represented. A class is a record and its methods are functions on it; a machine
  integer is a word of its width; an uncaught exception, a failed assertion, a read out of bounds or
  any other undefined behaviour is a value of \<open>cpp_error\<close> on the left of a sum (\<open>Prelude\<close>). Counting loops
  keep the type of their index: \<open>for_int\<close> fails where a signed index would overflow and \<open>for_u32\<close>
  returns \<open>None\<close> where a 32-bit index can never reach a 64-bit bound. Other loops that may not return
  are partial functions into options. Loops that wait for events take the events as a list, one
  element per round; they stop when the list ends or their condition fails, so a statement about
  all lists is one about every reachable state, and no fuel is needed. Clock readings, results of
  system calls, what libraries deliver (bytes, replies, completions) and the scheduling of threads are
  arguments; nothing is assumed about them but what a theorem states.

  The interfaces. \<open>request_window\<close> (theory \<open>Window\<close>) is the contract of the three counters of a closed
  loop, instantiated by all four benchmark clients. \<open>frame_reader\<close> (theory \<open>ReadCallback\<close>) is a
  reader of fixed-size frames, implemented by the read callback and used by client and server.
  \<open>rpc_service\<close> (theory \<open>RpcServer\<close>) is a service whose replies carry their request's identifier,
  implemented by the storage service, the key-value handlers and the leaf of \<open>exp2\<close>.
  \<open>completion_table\<close> (theory \<open>CompletionTable\<close>) is a table of operations under way, implemented by
  the vector of IOs in flight and by the map of promises of the message client.
  \<open>reporting_client\<close> (theory \<open>StatsCollector\<close>) is a client that registers once and then reports what it has done since
  its last report; from it follows what the shared collector holds after any interleaving of clients. It is
  instantiated by \<open>BenchmarkEcho\<close> and by the loop over the domain socket.
  \<open>thread_local\<close> (theory \<open>Interleave\<close>) is the proof rule for threads on shared data: assertions that a thread's
  own steps establish and no other thread's step destroys. It is instantiated by the handlers' cache, by
  \<open>getLeaf\<close> and by the use of a leaf's client.

  The systems. In \<open>Exp2System\<close> and \<open>Exp3System\<close> a state holds the database server, its leaf servers and what is
  under way between them; an event is one step of one of them or one delivery, and the step function of
  the system calls the components' own. Handlers and continuations are atomic there, as they are on
  one event thread; what more threads change is in \<open>DBRace\<close>. \<open>Exp2System\<close> has a common clock, because
  its answers carry times; runs are lists of events in the one, an inductive predicate in the other.
  \<open>Exp2Experiment\<close> adds the clients, whose loops are taken apart into single sends, replies and ends of rounds.
  In both systems a call to a leaf may fail at any moment: the continuation of a single call then does not run and
  its callback is lost, that of a collection runs all the same. \<open>Exp3Experiment\<close> does the same for \<open>exp3\<close>, with clients that
  first lay down their files one synchronous write at a time; a step of a leaf whose own system call fails an assertion is none of the
  relation, and the runs in which that leaf does nothing more, its calls fail and its channel closes are among those considered.
  In \<open>Exp2Fair\<close> a schedule is a function from moments to events, and a run the sequence of states it gives; in \<open>Exp3Fair\<close>
  a run is a sequence of states with an event between each two, none of which fails, and the kernel is assumed to
  return a buffer with at least the bytes asked for.

  What is shown. For the streams: requests are reassembled, echoed and handed on unchanged and in order for
  every segmentation, up to the end-to-end statement below. For the clients: exact counters, unique
  identifiers, bounds on what is outstanding and on the overshoot, termination once enough replies
  have come, agreement between what a client counts and what the shared collector reports, for a whole
  process in which the command loop starts clients that run and report in any interleaving; a client program of the
  key-value benchmarks prints a line for each configuration, whose figures are exact. For
  the servers: every call is answered once, with its own data; writes reach all leafs; reads go round; the
  table operations complete each entry once in any order; the cache of the handlers is
  transparent when calls are atomic and is not when they are interleaved. For the systems: the client of \<open>exp1\<close> gets each request answered at most once, with the size asked
  for unless its server's uninitialised size was that one; no call
  is lost between the servers; an acknowledged write is on every leaf whose call did not fail; data read comes from the leaf
  asked; a connection leads to the leaf program that serves the address it was opened for; in the whole experiment of \<open>exp2\<close> no assertion fails in any program, and the figures lie within each
  other from the leaf to the line printed, whose arithmetic does not wrap in any configuration
  of \<open>main\<close>; as long as no call fails it can always be brought to its end,
  every run of it moves requests only boundedly often, and under every fair schedule each client ends that has not lost
  a queue depth of calls; in the whole experiment of \<open>exp3\<close> no assertion fails outside the leafs, answers have the size asked for, and a
  client reads only files whose writes have been answered, every call awaited is under way unless calls failed, and every
  fair run ends each client that has not lost a queue depth of reads. Where the code does not
  do what it means to do, a theorem states what it does instead: split loops for ever on
  adjacent delimiters, the averages of the reports wrap or are cumulative, \<open>quit\<close> terminates the program with
  running clients, the message programs read beyond the memory of any message with a payload, the client's at its first, while headers survive the whole way, the domain socket client has no flow control,
  a read of the leaf server returns the memory of a new buffer, two event threads that meet at an
  unconnected leaf bring the database server down, calls that fail block the client of \<open>exp2\<close> for
  ever, a write is acknowledged though no leaf has it, a benchmark over sizes measures one size, and the synchronous client reports requests it never made.

  Bounds. Queue depths are below 2 to the 31 where the source's loop index is an \<open>int\<close>; the
  sums of queue depth and requests are below 2 to the 32 or 2 to the 64 as the counter is. These are the
  ranges outside which the counters themselves wrap.

  Not modelled: generated Thrift code and the libraries (sockets, event bases, futures, libaio,
  thread pools) beyond the callbacks and results named above; option parsing and the configuration of servers beyond handler and port; reports in floating point (bandwidths of \<open>AsyncIO/net-client.cpp\<close> and \<open>StorageRpc\<close>); code that is
  compiled out (\<open>key_get\<close> of \<open>fbthrift/exp2\<close> with the cache of its leaf, the blocking loop of \<open>fbthrift/exp1\<close>);
  \<open>StorageRpc/SerializationTest.cpp\<close>, whose structure is declared nowhere in the repository. What \<open>fbthrift/domain-socket\<close>, \<open>fbthrift/exp2\<close> and
  \<open>thrift/exp1\<close> repeat word for word is translated from each file and shown equal to its first occurrence, which the rest of the
  development uses.
\<close>

section \<open>Client, socket, server, socket, client\<close>

lemma connection_echoes_frames:
  assumes "connection_thread = Inr c" and "\<forall>f \<in> set fs. length f = sizeof_request"
    and "concat segs = concat fs"
  shows "\<exists>c'. conn_receive segs c = Inr c' \<and> writes c' = map (map Some) fs"
proof -
  have "frames_of sizeof_request (concat segs) = fs"
    using assms(2,3) frames_of_exact [of sizeof_request fs] by (simp add: sizeof_request_def)
  with conn_receive_spec [of c _ segs, OF _ refl] connection_thread_ok [OF assms(1)]
  show ?thesis by auto
qed

lemma reader_returns_frames:
  assumes "ReadCallback_new sizeof_request = Inr rc" and "\<forall>f \<in> set fs. length f = sizeof_request"
    and "concat segs = concat fs"
  shows "\<exists>rc'. read_segments (socket_read1 True) segs (registerReadCallback rc) = Inr (map (map Some) fs, rc')"
proof -
  have "pending (registerReadCallback rc) = []"
    using assms(1) by (auto simp: ReadCallback_new_def registerReadCallback_def pending_def result_simps)
  moreover have "frames_of sizeof_request (concat segs) = fs"
    using assms(2,3) frames_of_exact [of sizeof_request fs] by (simp add: sizeof_request_def)
  ultimately show ?thesis
    using rc.read_segments_frames [OF rc_inv_new [OF assms(1)], of segs] by auto
qed

text \<open>
  C5. The AsyncIO benchmark end to end. Take any state of a client's run, send what it has put on the
  wire to a fresh connection of the server, cut into segments in any way, and cut what the server
  writes into segments in any other way: neither side fails, and the client's read callback hands
  its benchmark exactly the requests it sent, each once, in order, with their identifiers intact.
\<close>

theorem benchmark_end_to_end:
  assumes "client_run b0 ds b" and "fresh b0" and "unat (qdepth b0) \<le> 2147483647"
    and "connection_thread = Inr c" and "concat segs = concat (map request_bytes (Benchmark.wire b))"
    and "ReadCallback_new sizeof_request = Inr rc"
  shows "\<exists>c'. conn_receive segs c = Inr c' \<and>
    (\<forall>rsegs. map Some (concat rsegs) = concat (writes c') \<longrightarrow>
       (\<exists>fs rc'. read_segments (socket_read1 True) rsegs (registerReadCallback rc) = Inr (fs, rc') \<and>
          map (bytes_request \<circ> map the) fs = Benchmark.wire b))"
proof -
  let ?fs = "map request_bytes (Benchmark.wire b)"
  have len: "\<forall>f \<in> set ?fs. length f = sizeof_request"
    using client_run_ids_inv [OF assms(1-3)] by (auto simp: ids_inv_def length_request_bytes)
  obtain c' where c': "conn_receive segs c = Inr c'" "writes c' = map (map Some) ?fs"
    using connection_echoes_frames [OF assms(4) len assms(5)] by blast
  have "\<exists>fs rc'. read_segments (socket_read1 True) rsegs (registerReadCallback rc) = Inr (fs, rc') \<and>
      map (bytes_request \<circ> map the) fs = Benchmark.wire b"
    if "map Some (concat rsegs) = concat (writes c')" for rsegs
  proof -
    have "map Some (concat rsegs) = map Some (concat ?fs)" using that by (simp only: c'(2) map_concat)
    then have "concat rsegs = concat ?fs" by simp
    from reader_returns_frames [OF assms(6) len this] show ?thesis by (auto simp: o_def)
  qed
  with c'(1) show ?thesis by blast
qed

theorem benchmark_end_to_end_witness:
  "\<exists>c c' rc. connection_thread = Inr c \<and> conn_receive [concat (map request_bytes (Benchmark.wire started))] c = Inr c' \<and>
     (\<forall>rsegs. map Some (concat rsegs) = concat (writes c') \<longrightarrow>
       (\<exists>fs rc'. read_segments (socket_read1 True) rsegs (registerReadCallback rc) = Inr (fs, rc') \<and>
          map (bytes_request \<circ> map the) fs = Benchmark.wire started))"
proof -
  obtain c where c: "connection_thread = Inr c" using connection_thread_total by blast
  obtain rc where rc: "ReadCallback_new sizeof_request = Inr rc"
    by (auto simp: ReadCallback_new_def Buffer_new_def)
  from benchmark_end_to_end [OF started_run _ _ c _ rc, of "[concat (map request_bytes (Benchmark.wire started))]"] c
  show ?thesis by (auto simp: small_bench_def Benchmark_new_def fresh_def)
qed


end
